(* ===== verification/Prelude.thy ===== *)
theory Prelude
  imports
    "HOL-Library.Word"
    "HOL-Library.Multiset"
    "HOL-Library.Monad_Syntax"
    "HOL-Library.Product_Lexorder"
begin

text \<open>
  Shared vocabulary of the development.  Machine integers are words of the source's width;
  \<open>usize\<close> is 64 bits wide (the x86\_64 target).  Identifiers the code only compares or uses
  as an index (task ids, CPU ids, positions) are \<open>nat\<close>.  A Rust panic is \<open>None\<close> in an
  \<open>option\<close> that wraps the result.  The Rust standard library's \<open>BTreeMap\<close> is the list of its
  entries in ascending key order.
\<close>

unbundle bit_operations_syntax

named_theorems mks_simps \<open>unfolding rules for the operations of the scheduler\<close>
named_theorems mem_simps \<open>unfolding rules for pages, ranges and chunks\<close>

type_synonym u8 = "8 word"
type_synonym i8 = "8 word"
type_synonym u32 = "32 word"
type_synonym u64 = "64 word"
type_synonym u128 = "128 word"
type_synonym usize = "64 word"

section \<open>Rust integer operations\<close>

text \<open>\<open>saturating_sub\<close>, \<open>saturating_add\<close> and \<open>clamp\<close> of the standard library.\<close>

definition sat_sub :: "'a::len word \<Rightarrow> 'a word \<Rightarrow> 'a word" where
  "sat_sub a b = (if b \<le> a then a - b else 0)"

definition sat_add :: "'a::len word \<Rightarrow> 'a word \<Rightarrow> 'a word" where
  "sat_add a b = (if unat a + unat b < 2 ^ LENGTH('a) then a + b else - 1)"

definition sat_mul :: "'a::len word \<Rightarrow> 'a word \<Rightarrow> 'a word" where
  "sat_mul a b = (if unat a * unat b < 2 ^ LENGTH('a) then a * b else - 1)"

definition clamp :: "'a::linorder \<Rightarrow> 'a \<Rightarrow> 'a \<Rightarrow> 'a" where
  "clamp lo hi x = (if x < lo then lo else if hi < x then hi else x)"

lemma unat_sat_sub [simp]: "unat (sat_sub a b) = unat a - unat b"
  by (auto simp: sat_sub_def unat_sub word_le_nat_alt)

lemma sat_sub_le: "sat_sub a b \<le> a"
  by (simp add: word_le_nat_alt)

lemma sat_sub_zero [simp]: "sat_sub 0 b = 0"
  by (simp add: sat_sub_def)

lemma clamp_bounds: "lo \<le> hi \<Longrightarrow> lo \<le> clamp lo hi x \<and> clamp lo hi x \<le> hi"
  by (auto simp: clamp_def)

lemma clamp_id: "lo \<le> x \<Longrightarrow> x \<le> hi \<Longrightarrow> clamp lo hi x = x"
  by (auto simp: clamp_def)

lemma unat_add_nowrap:
  "unat a + unat b < 2 ^ LENGTH('a) \<Longrightarrow> unat (a + b) = unat a + unat (b :: 'a::len word)"
  by (simp add: unat_word_ariths)

lemma unat_mult_nowrap:
  "unat a * unat b < 2 ^ LENGTH('a) \<Longrightarrow> unat (a * b) = unat a * unat (b :: 'a::len word)"
  by (simp add: unat_word_ariths)

lemma unat_sat_mul_nowrap:
  "unat a * unat b < 2 ^ LENGTH('a) \<Longrightarrow> unat (sat_mul a b) = unat a * unat (b :: 'a::len word)"
  by (simp add: sat_mul_def unat_mult_nowrap)

lemma unat_sat_add_nowrap:
  "unat a + unat b < 2 ^ LENGTH('a) \<Longrightarrow> unat (sat_add a b) = unat a + unat (b :: 'a::len word)"
  by (simp add: sat_add_def unat_add_nowrap)

lemma unat_u64: "unat (w :: 64 word) < 2 ^ 64"
  using unsigned_less [of w] by simp

lemma unat_ucast_8_64 [simp]: "unat (ucast (w :: 8 word) :: 64 word) = unat w"
proof -
  have "unat w < 2 ^ 8" using unsigned_less [of w] by simp
  then have "unat w < 2 ^ 64" by (rule order.strict_trans) simp
  then show ?thesis by (simp add: unsigned_ucast_eq take_bit_nat_eq_self)
qed

lemma unat_sum_list_nowrap:
  "sum_list (map unat ws) < 2 ^ LENGTH('a) \<Longrightarrow> unat (sum_list ws) = sum_list (map unat (ws :: 'a::len word list))"
  by (induction ws) (simp_all add: unat_add_nowrap)

lemma unat_add_one:
  "unat (a :: 64 word) + 1 < 2 ^ 64 \<Longrightarrow> unat (a + 1) = unat a + 1"
  using unat_add_nowrap [of a 1] by simp

lemma unat_ucast_up [simp]: "unat (ucast (w :: 32 word) :: 64 word) = unat w"
proof -
  have "unat w < 2 ^ 32" using unsigned_less [of w] by simp
  then have "unat w < 2 ^ 64" by (rule order.strict_trans) simp
  then show ?thesis by (simp add: unsigned_ucast_eq take_bit_nat_eq_self)
qed

text \<open>\<open>leading_zeros\<close> of an unsigned integer.\<close>

definition leading_zeros :: "'a::len word \<Rightarrow> nat" where
  "leading_zeros w = length (takeWhile (\<lambda>i. \<not> bit w i) (rev [0..<LENGTH('a)]))"

lemma takeWhile_rev_upt:
  assumes "i < n" "P i" and "\<And>j. i < j \<Longrightarrow> j < n \<Longrightarrow> \<not> P j"
  shows "takeWhile (\<lambda>j. \<not> P j) (rev [0..<n]) = rev [Suc i..<n]"
proof -
  have "[0..<n] = [0..<i] @ i # [Suc i..<n]"
    using assms(1) upt_add_eq_append [of 0 i "n - i"] by (simp add: upt_conv_Cons)
  then have "rev [0..<n] = rev [Suc i..<n] @ i # rev [0..<i]" by simp
  then show ?thesis
    using assms(2,3) by (simp add: takeWhile_append)
qed

lemma leading_zeros_top:
  assumes "bit w i" and "\<And>j. i < j \<Longrightarrow> \<not> bit w j"
  shows "leading_zeros (w :: 'a::len word) = LENGTH('a) - Suc i"
  using takeWhile_rev_upt [of i "LENGTH('a)" "bit w"] assms bit_imp_le_length [of w i]
  by (simp add: leading_zeros_def)

lemma word_eq_0_iff_bits: "(w :: 'a::len word) = 0 \<longleftrightarrow> (\<forall>i. \<not> bit w i)"
  by (auto intro: bit_word_eqI)

lemma word_top_bit:
  assumes "(w :: 'a::len word) \<noteq> 0"
  obtains i where "bit w i" and "\<And>j. i < j \<Longrightarrow> \<not> bit w j"
proof -
  let ?B = "{i. bit w i}"
  have "?B \<subseteq> {..<LENGTH('a)}" by (auto dest: bit_imp_le_length)
  then have fin: "finite ?B" by (rule finite_subset) simp
  moreover have "?B \<noteq> {}" using assms by (auto simp: bit_eq_iff)
  ultimately have "Max ?B \<in> ?B" by (rule Max_in)
  moreover have "\<not> bit w j" if "Max ?B < j" for j
    using Max_ge [OF fin, of j] that by (metis mem_Collect_eq not_le)
  ultimately show thesis using that by blast
qed

section \<open>Lists and options\<close>

text \<open>Indexed read of a vector: Rust's \<open>get\<close>; \<open>None\<close> is also the panic of \<open>v[i]\<close>.\<close>

definition vec_get :: "'a list \<Rightarrow> nat \<Rightarrow> 'a option" where
  "vec_get xs i = (if i < length xs then Some (xs ! i) else None)"

lemma vec_get_Some: "vec_get xs i = Some x \<longleftrightarrow> i < length xs \<and> x = xs ! i"
  by (auto simp: vec_get_def)

lemma vec_get_None: "vec_get xs i = None \<longleftrightarrow> length xs \<le> i"
  by (auto simp: vec_get_def)

lemma mset_update_nth:
  "i < length xs \<Longrightarrow> mset (xs[i := x]) = add_mset x (mset xs - {# xs ! i #})"
  by (simp add: mset_update)

lemma filter_id: "(\<And>x. x \<in> set xs \<Longrightarrow> P x) \<Longrightarrow> filter P xs = xs"
  by (induction xs) auto

lemma filter_mset_all: "\<forall>x \<in> set xs. P x \<Longrightarrow> filter_mset P (mset xs) = mset xs"
  by (induction xs) auto

lemma mset_filter_key:
  assumes "distinct (map f xs)" and "x \<in> set xs"
  shows "add_mset x (mset (filter (\<lambda>y. f y \<noteq> f x) xs)) = mset xs"
  using assms
proof (induction xs)
  case (Cons a xs)
  show ?case
  proof (cases "x = a")
    case True
    have "filter (\<lambda>y. f y \<noteq> f a) xs = xs"
      using Cons.prems(1) by (intro filter_id) (simp, metis imageI)
    then show ?thesis using True by simp
  next
    case False
    with Cons.prems have x: "x \<in> set xs" by simp
    with Cons.prems have "f a \<noteq> f x" by (simp, metis imageI)
    with x Cons show ?thesis by (simp add: add_mset_commute)
  qed
qed simp

text \<open>The first match in a sorted list is the least one.\<close>

lemma find_sorted_least:
  "sorted_wrt R xs \<Longrightarrow> List.find P xs = Some x \<Longrightarrow> w \<in> set xs \<Longrightarrow> P w \<Longrightarrow> x = w \<or> R x w"
  by (induction xs) (auto split: if_splits)

lemma length_filter_neq: "length (filter P xs) \<noteq> length xs \<longleftrightarrow> (\<exists>x \<in> set xs. \<not> P x)"
proof -
  have "length (filter P xs) = length xs \<longleftrightarrow> (\<forall>x \<in> set xs. P x)"
    by (metis filter_id_conv length_filter_less less_irrefl)
  then show ?thesis by blast
qed

lemma find_SomeD: "List.find P xs = Some x \<Longrightarrow> x \<in> set xs \<and> P x"
  by (induction xs) (auto split: if_splits)

lemma distinct_mset_add: "mset xs = add_mset t (mset ys) \<Longrightarrow> distinct xs \<longleftrightarrow> t \<notin> set ys \<and> distinct ys"
  using mset_eq_imp_distinct_iff [of xs "t # ys"] by simp

text \<open>\<open>iter().position(p)\<close> and \<open>VecDeque::remove(i)\<close> / \<open>Vec::remove(i)\<close>.\<close>

primrec position :: "('a \<Rightarrow> bool) \<Rightarrow> 'a list \<Rightarrow> nat option" where
  "position P [] = None"
| "position P (x # xs) = (if P x then Some 0 else map_option Suc (position P xs))"

definition remove_at :: "nat \<Rightarrow> 'a list \<Rightarrow> 'a list" where
  "remove_at i xs = take i xs @ drop (Suc i) xs"

lemma remove_at_simps [simp]:
  "remove_at i [] = []" "remove_at 0 (x # xs) = xs" "remove_at (Suc i) (x # xs) = x # remove_at i xs"
  by (simp_all add: remove_at_def)

lemma position_None: "position P xs = None \<longleftrightarrow> (\<forall>x \<in> set xs. \<not> P x)"
  by (induction xs) auto

lemma position_Some:
  "position P xs = Some i \<longleftrightarrow> i < length xs \<and> P (xs ! i) \<and> (\<forall>j < i. \<not> P (xs ! j))"
proof (induction xs arbitrary: i)
  case (Cons x xs)
  show ?case
    by (cases i) (auto simp: Cons.IH All_less_Suc2 nth_Cons' split: if_splits)
qed simp

lemma mset_remove_at: "i < length xs \<Longrightarrow> mset xs = add_mset (xs ! i) (mset (remove_at i xs))"
  by (induction xs arbitrary: i) (auto simp: nth_Cons' less_Suc_eq_0_disj)

lemma set_remove_at_subset: "set (remove_at i xs) \<subseteq> set xs"
  unfolding remove_at_def by (metis Un_subset_iff set_append set_drop_subset set_take_subset)

lemma length_remove_at: "i < length xs \<Longrightarrow> length (remove_at i xs) = length xs - 1"
  by (simp add: remove_at_def)

lemma remove_at_length_append [simp]: "remove_at (length xs) (xs @ y # ys) = xs @ ys"
  by (simp add: remove_at_def)

lemma position_append_new:
  "\<forall>x \<in> set xs. \<not> P x \<Longrightarrow> P y \<Longrightarrow> position P (xs @ y # ys) = Some (length xs)"
  by (induction xs) auto

text \<open>
  \<open>Iterator::min_by_key\<close> returns the first least element, \<open>Iterator::max_by_key\<close> the last
  greatest one.
\<close>

fun min_by_key :: "('a \<Rightarrow> 'k::linorder) \<Rightarrow> 'a list \<Rightarrow> 'a option" where
  "min_by_key f [] = None"
| "min_by_key f (x # xs) = Some (fold (\<lambda>y b. if f y < f b then y else b) xs x)"

fun max_by_key :: "('a \<Rightarrow> 'k::linorder) \<Rightarrow> 'a list \<Rightarrow> 'a option" where
  "max_by_key f [] = None"
| "max_by_key f (x # xs) = Some (fold (\<lambda>y b. if f b \<le> f y then y else b) xs x)"

lemma fold_min_key:
  "fold (\<lambda>y b. if f y < (f b :: 'k::linorder) then y else b) xs x \<in> insert x (set xs) \<and>
   (\<forall>y \<in> insert x (set xs). f (fold (\<lambda>y b. if f y < f b then y else b) xs x) \<le> f y)"
proof (induction xs arbitrary: x)
  case (Cons a xs)
  show ?case using Cons [of "if f a < f x then a else x"] by (auto split: if_splits)
qed simp

lemma fold_max_key:
  "fold (\<lambda>y b. if (f b :: 'k::linorder) \<le> f y then y else b) xs x \<in> insert x (set xs) \<and>
   (\<forall>y \<in> insert x (set xs). f y \<le> f (fold (\<lambda>y b. if f b \<le> f y then y else b) xs x))"
proof (induction xs arbitrary: x)
  case (Cons a xs)
  show ?case using Cons [of "if f x \<le> f a then a else x"] by (auto split: if_splits)
qed simp

lemma min_by_key_Some: "min_by_key f xs = Some x \<Longrightarrow> x \<in> set xs \<and> (\<forall>y \<in> set xs. f x \<le> f y)"
  using fold_min_key [of f "tl xs" "hd xs"] by (cases xs) auto

lemma max_by_key_Some: "max_by_key f xs = Some x \<Longrightarrow> x \<in> set xs \<and> (\<forall>y \<in> set xs. f y \<le> f x)"
  using fold_max_key [of f "tl xs" "hd xs"] by (cases xs) auto

lemma min_by_key_None [simp]: "min_by_key f xs = None \<longleftrightarrow> xs = []"
  by (cases xs) simp_all

lemma max_by_key_None [simp]: "max_by_key f xs = None \<longleftrightarrow> xs = []"
  by (cases xs) simp_all

section \<open>Ordered maps: the contract of BTreeMap\<close>

text \<open>
  What the schedulers rely on: lookups follow insertions and removals, and the iteration order
  is the key order.  The client lemmas (minimum first, effect on the stored values) are proved
  once here.
\<close>

locale ordered_map =
  fixes empty :: "'m"
    and insert :: "'k::linorder \<Rightarrow> 'v \<Rightarrow> 'm \<Rightarrow> 'm"
    and remove :: "'k \<Rightarrow> 'm \<Rightarrow> 'm"
    and get :: "'k \<Rightarrow> 'm \<Rightarrow> 'v option"
    and entries :: "'m \<Rightarrow> ('k \<times> 'v) list"
    and ok :: "'m \<Rightarrow> bool"
  assumes ok_empty: "ok empty"
    and ok_insert: "ok m \<Longrightarrow> ok (insert k v m)"
    and ok_remove: "ok m \<Longrightarrow> ok (remove k m)"
    and ok_sorted: "ok m \<Longrightarrow> sorted_wrt (<) (map fst (entries m))"
    and entries_empty: "entries empty = []"
    and entries_insert:
      "ok m \<Longrightarrow> set (entries (insert k v m)) = Set.insert (k, v) {e \<in> set (entries m). fst e \<noteq> k}"
    and entries_remove: "ok m \<Longrightarrow> entries (remove k m) = filter (\<lambda>e. fst e \<noteq> k) (entries m)"
    and get_entries: "ok m \<Longrightarrow> get k m = map_of (entries m) k"
begin

lemma distinct_keys: "ok m \<Longrightarrow> distinct (map fst (entries m))"
  using ok_sorted strict_sorted_iff by blast

lemma get_iff: "ok m \<Longrightarrow> get k m = Some v \<longleftrightarrow> (k, v) \<in> set (entries m)"
  by (simp add: get_entries distinct_keys)

lemma get_insert: "ok m \<Longrightarrow> get k' (insert k v m) = (if k' = k then Some v else get k' m)"
proof -
  assume m: "ok m"
  then have "get k' (insert k v m) = Some w \<longleftrightarrow> (if k' = k then w = v else get k' m = Some w)" for w
    by (auto simp: get_iff ok_insert entries_insert)
  then show ?thesis
    by (metis option.exhaust)
qed

lemma get_remove: "ok m \<Longrightarrow> get k' (remove k m) = (if k' = k then None else get k' m)"
proof -
  assume m: "ok m"
  then have "get k' (remove k m) = Some w \<longleftrightarrow> k' \<noteq> k \<and> get k' m = Some w" for w
    by (auto simp: get_iff ok_remove entries_remove)
  then show ?thesis
    by (metis option.exhaust)
qed

lemma first_least:
  assumes "ok m" and "entries m = e # es" and "f \<in> set (entries m)"
  shows "fst e \<le> fst f"
  using ok_sorted [OF assms(1)] assms(2,3) by (fastforce simp: less_imp_le)

lemma mset_entries_remove:
  assumes "ok m" and "(k, v) \<in> set (entries m)"
  shows "mset (entries m) = add_mset (k, v) (mset (entries (remove k m)))"
  using mset_filter_key [OF distinct_keys [OF assms(1)] assms(2)] assms(1)
  by (simp add: entries_remove)

lemma remove_absent: "ok m \<Longrightarrow> get k m = None \<Longrightarrow> entries (remove k m) = entries m"
  by (simp add: entries_remove get_entries map_of_eq_None_iff) (intro filter_id, force)

lemma mset_entries_insert:
  assumes m: "ok m" and new: "get k m = None"
  shows "mset (entries (insert k v m)) = add_mset (k, v) (mset (entries m))"
proof -
  have i: "ok (insert k v m)" and mem: "(k, v) \<in> set (entries (insert k v m))"
    using m by (auto simp: ok_insert entries_insert)
  have k: "k \<notin> fst ` set (entries m)"
    using new m by (simp add: get_entries map_of_eq_None_iff)
  have "set (entries (remove k (insert k v m))) = set (entries m)"
    using m i k by (auto simp: entries_remove entries_insert rev_image_eqI)
  moreover have "distinct (entries (remove k (insert k v m)))" "distinct (entries m)"
    using distinct_keys [OF ok_remove [OF i]] distinct_keys [OF m] by (simp_all add: distinct_map)
  ultimately have "mset (entries (remove k (insert k v m))) = mset (entries m)"
    by (simp add: set_eq_iff_mset_eq_distinct)
  then show ?thesis
    using mset_entries_remove [OF i mem] by simp
qed

end

section \<open>BTreeMap of the standard library\<close>

type_synonym ('k, 'v) btree = "('k \<times> 'v) list"

primrec bt_insert :: "'k::linorder \<Rightarrow> 'v \<Rightarrow> ('k, 'v) btree \<Rightarrow> ('k, 'v) btree" where
  "bt_insert k v [] = [(k, v)]"
| "bt_insert k v (e # m) =
     (if fst e < k then e # bt_insert k v m
      else if fst e = k then (k, v) # m
      else (k, v) # e # m)"

definition bt_remove :: "'k \<Rightarrow> ('k, 'v) btree \<Rightarrow> ('k, 'v) btree" where
  "bt_remove k m = filter (\<lambda>e. fst e \<noteq> k) m"

definition bt_get :: "'k \<Rightarrow> ('k, 'v) btree \<Rightarrow> 'v option" where
  "bt_get k m = map_of m k"

definition bt_ok :: "('k::linorder, 'v) btree \<Rightarrow> bool" where
  "bt_ok m = sorted_wrt (<) (map fst m)"

definition bt_first :: "('k, 'v) btree \<Rightarrow> ('k \<times> 'v) option" where
  "bt_first m = (case m of [] \<Rightarrow> None | e # _ \<Rightarrow> Some e)"

definition bt_last :: "('k, 'v) btree \<Rightarrow> ('k \<times> 'v) option" where
  "bt_last m = (if m = [] then None else Some (last m))"

lemma set_bt_insert:
  "bt_ok m \<Longrightarrow> set (bt_insert k v m) = insert (k, v) {e \<in> set m. fst e \<noteq> k}"
proof (induction m)
  case (Cons e m)
  then have "set (bt_insert k v m) = insert (k, v) {e \<in> set m. fst e \<noteq> k}"
    and above: "\<forall>x \<in> set m. fst e < fst x"
    by (auto simp: bt_ok_def)
  moreover from above have "\<not> fst e < k \<Longrightarrow> {x \<in> set m. fst x \<noteq> k} = set m"
    by force
  ultimately show ?case by auto
qed simp

lemma bt_ok_insert: "bt_ok m \<Longrightarrow> bt_ok (bt_insert k v m)"
proof (induction m)
  case (Cons e m)
  then have "bt_ok m" by (simp add: bt_ok_def)
  with Cons show ?case
    by (force simp: bt_ok_def set_bt_insert)
qed (simp add: bt_ok_def)

lemma set_bt_insert_new:
  "bt_ok m \<Longrightarrow> bt_get k m = None \<Longrightarrow> set (bt_insert k v m) = insert (k, v) (set m)"
  by (force simp: set_bt_insert bt_get_def map_of_eq_None_iff)

lemma bt_remove_absent: "bt_get k m = None \<Longrightarrow> bt_remove k m = m"
  by (force simp: bt_get_def bt_remove_def map_of_eq_None_iff intro!: filter_id)

lemma bt_ok_remove: "bt_ok m \<Longrightarrow> bt_ok (bt_remove k m)"
  by (induction m) (auto simp: bt_ok_def bt_remove_def)

interpretation btm: ordered_map "[]" bt_insert bt_remove bt_get "\<lambda>m. m" bt_ok
  by unfold_locales
    (simp_all add: set_bt_insert bt_ok_insert bt_ok_remove,
     simp_all add: bt_ok_def bt_remove_def bt_get_def)

lemma bt_first_simps [simp]: "bt_first [] = None" "bt_first (e # m) = Some e"
  by (simp_all add: bt_first_def)

lemma bt_first_Some [simp]: "bt_first m = Some e \<longleftrightarrow> (\<exists>es. m = e # es)"
  by (auto simp: bt_first_def split: list.splits)

lemma bt_first_None [simp]: "bt_first m = None \<longleftrightarrow> m = []"
  by (auto simp: bt_first_def split: list.splits)

lemma bt_last_Some [simp]: "bt_last m = Some e \<longleftrightarrow> m \<noteq> [] \<and> e = last m"
  by (auto simp: bt_last_def)

lemma bt_last_None [simp]: "bt_last m = None \<longleftrightarrow> m = []"
  by (simp add: bt_last_def)

lemma bt_remove_first: "bt_ok (e # m) \<Longrightarrow> bt_remove (fst e) (e # m) = m"
  by (auto simp: bt_ok_def bt_remove_def intro!: filter_id)

lemma bt_last_greatest: "bt_ok m \<Longrightarrow> e \<in> set m \<Longrightarrow> fst e \<le> fst (last m)"
proof (induction m)
  case (Cons a m)
  then show ?case
    by (cases "m = []") (auto simp: bt_ok_def less_imp_le)
qed simp

lemmas bt_facts = btm.get_insert btm.get_remove btm.get_iff btm.mset_entries_insert
  btm.mset_entries_remove bt_ok_insert bt_ok_remove

end
