(* ===== verification/Task_Struct.thy ===== *)
theory Task_Struct
  imports Prelude
begin

text \<open>
  The task control block of \<open>kernel/task_struct/src/lib.rs\<close>: scheduling classes, the per-task
  scheduling record, run states and their transitions, and the nice/weight bookkeeping.  The
  fields of \<open>Task\<close> that are opaque handles for the scheduler (stack, page tables, namespace,
  environment, kill handler, wakers) are not modelled: no operation below reads them.
\<close>

section \<open>Data\<close>

datatype SchedClass =
    Idle
  | Batch
  | Normal
  | Compute
  | RoundRobin u64
  | Fifo
  | Deadline (dl_runtime: u64) (dl_deadline: u64) (dl_period: u64)

record TaskSchedInfo =
  vruntime :: u64
  ve :: u64
  vdeadline :: u64
  weight :: u64
  wmult :: u32
  nice :: i8
  rt_priority :: u8
  rr_timeslice_remaining :: u64
  pinned_cpu :: "nat option"
  policy :: SchedClass
  last_cpu :: nat
  wakeup_time_ns :: u64
  on_rq :: bool
  exec_runtime :: u64

definition TaskSchedInfo_default :: TaskSchedInfo where
  "TaskSchedInfo_default =
     \<lparr> vruntime = 0, ve = 0, vdeadline = 0, weight = 1024, wmult = 4194304, nice = 0,
       rt_priority = 0, rr_timeslice_remaining = 100000000, pinned_cpu = None,
       policy = Normal, last_cpu = 0, wakeup_time_ns = 0, on_rq = False, exec_runtime = 0 \<rparr>"

datatype KillReason = Requested | Panic | Exception u8

datatype ExitValue = Completed "64 word" | Killed KillReason

datatype RunState = Initing | Runnable | Blocked | Exited ExitValue

record Task =
  task_id :: nat
  task_name :: string
  runstate :: RunState
  running_on_cpu :: "nat option"
  saved_sp :: usize
  exec_mode :: u8
  is_an_idle_task :: bool
  sched :: TaskSchedInfo

definition Task_new :: "nat \<Rightarrow> string \<Rightarrow> Task" where
  "Task_new i n =
     \<lparr> task_id = i, task_name = n, runstate = Runnable, running_on_cpu = None, saved_sp = 0,
       exec_mode = 0, is_an_idle_task = False, sched = TaskSchedInfo_default \<rparr>"

text \<open>
  A \<open>TaskRef\<close> is an \<open>Arc\<close> to a task that the scheduler mutates through \<open>TaskRef::write\<close>, so
  tasks live in a store indexed by reference and every queue holds references.
\<close>

type_synonym taskref = nat
type_synonym heap = "taskref \<Rightarrow> Task"

section \<open>Nice values and weights\<close>

definition WEIGHT :: "u32 list" where
  "WEIGHT =
    [88761, 71755, 56483, 46273, 36291, 29154, 23254, 18705, 14949, 11916,
     9548, 7620, 6100, 4904, 3906, 3121, 2501, 1991, 1586, 1277,
     1024, 820, 655, 526, 423, 335, 272, 215, 172, 137,
     110, 87, 70, 56, 45, 36, 29, 23, 18, 15]"

definition WMULT :: "u32 list" where
  "WMULT =
    [48388, 59856, 76040, 92818, 118348, 147320, 184698, 229616, 287308, 360437,
     449829, 563644, 704093, 875809, 1099582, 1376151, 1717300, 2157191, 2708050, 3363326,
     4194304, 5237765, 6557202, 8165337, 10153587, 12820798, 15790321, 19976592, 24970740, 31350126,
     39045157, 49367440, 61356676, 76695844, 95443717, 119304647, 148102320, 186737708, 238609294,
     286331153]"

text \<open>\<open>(nice + 20).clamp(0, 39) as usize\<close>: the addition wraps in \<open>i8\<close>.\<close>

definition nice_idx :: "i8 \<Rightarrow> nat" where
  "nice_idx n = nat (clamp 0 39 (sint (n + 20)))"

definition update_weight :: "Task \<Rightarrow> Task" where
  "update_weight t =
     (let idx = nice_idx (nice (sched t))
      in t\<lparr> sched := (sched t)\<lparr> weight := ucast (WEIGHT ! idx), wmult := WMULT ! idx \<rparr> \<rparr>)"

definition set_nice :: "i8 \<Rightarrow> Task \<Rightarrow> Task" where
  "set_nice n t =
     update_weight (t\<lparr> sched := (sched t)\<lparr> nice := word_of_int (clamp (-20) 19 (sint n)) \<rparr> \<rparr>)"

lemma nice_idx_bound: "nice_idx n < 40"
  using clamp_bounds [of 0 39 "sint (n + 20)"] by (auto simp: nice_idx_def nat_less_iff)

lemma length_WEIGHT [simp]: "length WEIGHT = 40" and length_WMULT [simp]: "length WMULT = 40"
  by (simp_all add: WEIGHT_def WMULT_def)

lemma sint_word_of_int_small:
  "- 20 \<le> k \<Longrightarrow> k \<le> 19 \<Longrightarrow> sint (word_of_int k :: i8) = k"
  by (simp add: signed_take_bit_int_eq_self sint_sbintrunc')

lemma set_nice_range:
  "- 20 \<le> sint (nice (sched (set_nice n t))) \<and> sint (nice (sched (set_nice n t))) \<le> 19"
  using clamp_bounds [of "-20" 19 "sint n"]
  by (simp add: set_nice_def update_weight_def Let_def sint_word_of_int_small)

section \<open>Run states\<close>

text \<open>\<open>AtomicCell::compare_exchange\<close>: \<open>Inr\<close> the old value on success, \<open>Inl\<close> the value found.\<close>

definition compare_exchange :: "'a \<Rightarrow> 'a \<Rightarrow> 'a \<Rightarrow> ('a + 'a) \<times> 'a" where
  "compare_exchange cell expected new =
     (if cell = expected then (Inr cell, new) else (Inl cell, cell))"

definition block_initing_task :: "Task \<Rightarrow> (RunState + unit) \<times> Task" where
  "block_initing_task t =
     (case compare_exchange (runstate t) Initing Blocked of
        (Inr _, st) \<Rightarrow> (Inr (), t\<lparr> runstate := st \<rparr>)
      | (Inl s, st) \<Rightarrow> (Inl s, t\<lparr> runstate := st \<rparr>))"

definition make_inited_task_runnable :: "Task \<Rightarrow> (RunState + unit) \<times> Task" where
  "make_inited_task_runnable t =
     (case compare_exchange (runstate t) Initing Runnable of
        (Inr _, st) \<Rightarrow> (Inr (), t\<lparr> runstate := st \<rparr>)
      | (Inl s, st) \<Rightarrow> (Inl s, t\<lparr> runstate := st \<rparr>))"

lemma make_inited_task_runnable_ok:
  "fst (make_inited_task_runnable t) = Inr () \<longleftrightarrow> runstate t = Initing"
  by (simp add: make_inited_task_runnable_def compare_exchange_def)

end
