(* ===== verification/Mks_Params.thy ===== *)
theory Mks_Params
  imports Task_Struct
begin

text \<open>
  The tunables and weight tables of \<open>kernel/mks/src/lib.rs\<close>.  The tables duplicate those of
  \<open>Task::update_weight\<close>; \<open>weight_tables_agree\<close> shows that the two crates agree, and
  \<open>wmult_inverts_weight\<close> that the fixed-point inverse is within one part in \<open>2^26\<close>.
\<close>

definition MAX_CPUS :: nat where "MAX_CPUS = 256"

definition SCHED_MIN_GRANULARITY_NS :: u64 where "SCHED_MIN_GRANULARITY_NS = 750000"

definition SCHED_LATENCY_NS :: u64 where "SCHED_LATENCY_NS = 6000000"

definition SCHED_WAKEUP_GRANULARITY_NS :: u64 where "SCHED_WAKEUP_GRANULARITY_NS = 1000000"

definition SCHED_DL_BANDWIDTH_NUM :: u64 where "SCHED_DL_BANDWIDTH_NUM = 95"

definition SCHED_DL_BANDWIDTH_DEN :: u64 where "SCHED_DL_BANDWIDTH_DEN = 100"

definition NICE_TO_WEIGHT :: "u32 list" where
  "NICE_TO_WEIGHT =
    [88761, 71755, 56483, 46273, 36291,
     29154, 23254, 18705, 14949, 11916,
     9548, 7620, 6100, 4904, 3906,
     3121, 2501, 1991, 1586, 1277,
     1024, 820, 655, 526, 423,
     335, 272, 215, 172, 137,
     110, 87, 70, 56, 45,
     36, 29, 23, 18, 15]"

definition NICE_TO_WMULT :: "u32 list" where
  "NICE_TO_WMULT =
    [48388, 59856, 76040, 92818, 118348,
     147320, 184698, 229616, 287308, 360437,
     449829, 563644, 704093, 875809, 1099582,
     1376151, 1717300, 2157191, 2708050, 3363326,
     4194304, 5237765, 6557202, 8165337, 10153587,
     12820798, 15790321, 19976592, 24970740, 31350126,
     39045157, 49367440, 61356676, 76695844, 95443717,
     119304647, 148102320, 186737708, 238609294, 286331153]"

definition nice_to_idx :: "i8 \<Rightarrow> nat" where
  "nice_to_idx n = nat (clamp 0 39 (sint (n + 20)))"

definition weight_for_nice :: "i8 \<Rightarrow> u32" where
  "weight_for_nice n = NICE_TO_WEIGHT ! nice_to_idx n"

lemmas sched_consts = SCHED_MIN_GRANULARITY_NS_def SCHED_LATENCY_NS_def
  SCHED_WAKEUP_GRANULARITY_NS_def SCHED_DL_BANDWIDTH_NUM_def SCHED_DL_BANDWIDTH_DEN_def

lemma nice_to_idx_bound: "nice_to_idx n < 40"
  using nice_idx_bound [of n] by (simp add: nice_to_idx_def nice_idx_def)

lemma length_nice_tables [simp]: "length NICE_TO_WEIGHT = 40" "length NICE_TO_WMULT = 40"
  by (simp_all add: NICE_TO_WEIGHT_def NICE_TO_WMULT_def)

text \<open>A statement about every table index is a finite check.\<close>

lemma all_nice_idx: "(\<forall>i < 40. P i) \<longleftrightarrow> list_all P [0..<40]"
  by (auto simp: list_all_iff)

lemma weight_for_nice_bounds: "15 \<le> unat (weight_for_nice n) \<and> unat (weight_for_nice n) \<le> 88761"
proof -
  have "\<forall>i < 40. 15 \<le> unat (NICE_TO_WEIGHT ! i) \<and> unat (NICE_TO_WEIGHT ! i) \<le> 88761"
    unfolding all_nice_idx by (simp add: NICE_TO_WEIGHT_def upt_rec)
  then show ?thesis
    using nice_to_idx_bound [of n] by (simp add: weight_for_nice_def)
qed

lemma wmult_bounds: "i < 40 \<Longrightarrow> 0 < unat (NICE_TO_WMULT ! i) \<and> unat (NICE_TO_WMULT ! i) \<le> 286331153"
proof -
  have "\<forall>i < 40. 0 < unat (NICE_TO_WMULT ! i) \<and> unat (NICE_TO_WMULT ! i) \<le> 286331153"
    unfolding all_nice_idx by (simp add: NICE_TO_WMULT_def upt_rec)
  then show "i < 40 \<Longrightarrow> ?thesis" by blast
qed

lemma wmult_inverts_weight:
  "i < 40 \<Longrightarrow>
   \<bar>2 ^ 32 - int (unat (NICE_TO_WEIGHT ! i)) * int (unat (NICE_TO_WMULT ! i))\<bar> \<le> 40"
proof -
  have "\<forall>i < 40. \<bar>2 ^ 32 - int (unat (NICE_TO_WEIGHT ! i)) * int (unat (NICE_TO_WMULT ! i))\<bar> \<le> 40"
    unfolding all_nice_idx by (simp add: NICE_TO_WEIGHT_def NICE_TO_WMULT_def upt_rec)
  then show "i < 40 \<Longrightarrow> ?thesis" by blast
qed

lemma weight_tables_agree:
  "weight (sched (update_weight t)) = ucast (weight_for_nice (nice (sched t)))"
  "wmult (sched (update_weight t)) = NICE_TO_WMULT ! nice_to_idx (nice (sched t))"
  by (simp_all add: update_weight_def Let_def weight_for_nice_def nice_to_idx_def nice_idx_def
      WEIGHT_def NICE_TO_WEIGHT_def WMULT_def NICE_TO_WMULT_def)

end
