(* ===== verification/Class_Queue.thy ===== *)
theory Class_Queue
  imports Mks_Params
begin

text \<open>
  The contract between \<open>MaiScheduler::pick_next\<close> and the queue of a scheduling class.  A class
  queue holds a multiset of tasks, some of which are ready; \<open>pick\<close> returns a ready task that is
  best in the class's order, and nothing only when no task is ready.  The picked task either
  leaves the queue or stays in it (round-robin).  The EEVDF, real-time and deadline queues are
  instances.
\<close>

text \<open>Distinct tasks carry distinct ids (\<open>TaskRef::new\<close> draws them from a counter).\<close>

definition ids_unique :: "heap \<Rightarrow> taskref set \<Rightarrow> bool" where
  "ids_unique h T \<longleftrightarrow> inj_on (\<lambda>t. task_id (h t)) T"

lemma ids_unique_mono: "ids_unique h A \<Longrightarrow> B \<subseteq> A \<Longrightarrow> ids_unique h B"
  unfolding ids_unique_def by (rule inj_on_subset)

locale class_queue =
  fixes tasks :: "'q \<Rightarrow> taskref multiset"
    and ready :: "heap \<Rightarrow> 'q \<Rightarrow> taskref set"
    and before :: "heap \<Rightarrow> 'q \<Rightarrow> taskref \<Rightarrow> taskref \<Rightarrow> bool"
    and pick :: "heap \<Rightarrow> 'q \<Rightarrow> taskref option \<times> 'q"
    and inv :: "heap \<Rightarrow> 'q \<Rightarrow> bool"
  assumes ready_queued: "inv h q \<Longrightarrow> ready h q \<subseteq> set_mset (tasks q)"
    and pick_best: "inv h q \<Longrightarrow> pick h q = (Some t, q') \<Longrightarrow>
      t \<in> ready h q \<and> (\<forall>u \<in> ready h q. before h q t u)"
    and pick_none: "inv h q \<Longrightarrow> pick h q = (None, q') \<Longrightarrow> ready h q = {} \<and> tasks q' = tasks q"
    and pick_tasks: "inv h q \<Longrightarrow> pick h q = (Some t, q') \<Longrightarrow>
      tasks q = add_mset t (tasks q') \<or> tasks q' = tasks q"
    and pick_inv: "inv h q \<Longrightarrow> inv h (snd (pick h q))"
begin

lemma pick_member: "inv h q \<Longrightarrow> pick h q = (Some t, q') \<Longrightarrow> t \<in># tasks q"
  using ready_queued pick_best by blast

lemma pick_work_conserving:
  "inv h q \<Longrightarrow> ready h q \<noteq> {} \<Longrightarrow> \<exists>t q'. pick h q = (Some t, q')"
  using pick_none by (metis option.exhaust surj_pair)

lemma pick_no_new_tasks: "inv h q \<Longrightarrow> tasks (snd (pick h q)) \<subseteq># tasks q"
proof -
  assume inv: "inv h q"
  obtain r q' where p: "pick h q = (r, q')" by fastforce
  show ?thesis
  proof (cases r)
    case None
    then show ?thesis using pick_none [OF inv, of q'] p by simp
  next
    case (Some t)
    then show ?thesis using pick_tasks [OF inv, of t q'] p by (auto simp: mset_subset_eq_add_right)
  qed
qed

end

end
