(* ===== verification/Eevdf.thy ===== *)
theory Eevdf
  imports Class_Queue
begin

text \<open>
  The EEVDF run queue of \<open>kernel/mks/src/eevdf.rs\<close>: two ordered maps (eligible tasks by virtual
  deadline, ineligible tasks by eligibility time), the queue clock \<open>min_vruntime\<close> and two
  counters.  Operations pass the task store \<open>heap\<close> explicitly because the queue writes the
  scheduling record of the task it handles.
\<close>

section \<open>Composite keys\<close>

datatype VtKey = VtKey (vt: u64) (vt_id: nat)

instantiation VtKey :: linorder
begin

definition less_eq_VtKey :: "VtKey \<Rightarrow> VtKey \<Rightarrow> bool" where
  "less_eq_VtKey a b \<longleftrightarrow> vt a < vt b \<or> vt a = vt b \<and> vt_id a \<le> vt_id b"

definition less_VtKey :: "VtKey \<Rightarrow> VtKey \<Rightarrow> bool" where
  "less_VtKey a b \<longleftrightarrow> vt a < vt b \<or> vt a = vt b \<and> vt_id a < vt_id b"

instance
  by standard (auto simp: less_eq_VtKey_def less_VtKey_def VtKey.expand)

end

lemma VtKey_le_vt: "a \<le> b \<Longrightarrow> vt a \<le> vt b"
  by (auto simp: less_eq_VtKey_def)

section \<open>State and operations\<close>

record EevdfRunQueue =
  eligible :: "(VtKey, taskref) btree"
  ineligible :: "(VtKey, taskref) btree"
  min_vruntime :: u64
  total_weight :: u64
  e_nr_running :: usize

definition eevdf_new :: EevdfRunQueue where
  "eevdf_new = \<lparr> eligible = [], ineligible = [], min_vruntime = 0, total_weight = 0, e_nr_running = 0 \<rparr>"

text \<open>\<open>None\<close>: the division by \<open>total_weight + task_weight\<close> panics when the sum wraps to zero.\<close>

definition compute_slice :: "EevdfRunQueue \<Rightarrow> u64 \<Rightarrow> u64 option" where
  "compute_slice rq task_weight =
     (if total_weight rq = 0 then Some SCHED_LATENCY_NS
      else if total_weight rq + task_weight = 0 then None
      else Some (clamp SCHED_MIN_GRANULARITY_NS SCHED_LATENCY_NS
                   (SCHED_LATENCY_NS * task_weight div (total_weight rq + task_weight))))"

text \<open>The placement of a new or woken task: \<open>max(vruntime, min_vruntime - latency/2)\<close>.\<close>

definition place_vruntime :: "EevdfRunQueue \<Rightarrow> bool \<Rightarrow> TaskSchedInfo \<Rightarrow> TaskSchedInfo" where
  "place_vruntime rq is_wakeup s =
     (if vruntime s = 0 \<or> is_wakeup
      then s\<lparr> vruntime := max (vruntime s) (sat_sub (min_vruntime rq) (SCHED_LATENCY_NS div 2)) \<rparr>
      else s)"

definition eevdf_enqueue ::
  "heap \<Rightarrow> EevdfRunQueue \<Rightarrow> taskref \<Rightarrow> bool \<Rightarrow> (heap \<times> EevdfRunQueue) option" where
  "eevdf_enqueue h rq task is_wakeup =
     (let t = h task;
          s = place_vruntime rq is_wakeup (sched t);
          w = ucast (weight_for_nice (nice s))
      in do {
        slice \<leftarrow> compute_slice rq w;
        let v = vruntime s;
        let d = v + slice;
        let h' = h(task := t\<lparr> sched := s\<lparr> ve := v, vdeadline := d, weight := w, on_rq := True \<rparr> \<rparr>);
        let rq' = rq\<lparr> total_weight := total_weight rq + w, e_nr_running := e_nr_running rq + 1 \<rparr>;
        Some (h',
          if v \<le> min_vruntime rq
          then rq'\<lparr> eligible := bt_insert (VtKey d (task_id t)) task (eligible rq) \<rparr>
          else rq'\<lparr> ineligible := bt_insert (VtKey v (task_id t)) task (ineligible rq) \<rparr>)
      })"

definition eevdf_dequeue :: "heap \<Rightarrow> EevdfRunQueue \<Rightarrow> taskref \<Rightarrow> heap \<times> EevdfRunQueue" where
  "eevdf_dequeue h rq task =
     (let t = h task; s = sched t;
          h' = h(task := t\<lparr> sched := s\<lparr> on_rq := False \<rparr> \<rparr>)
      in if \<not> on_rq s then (h', rq)
         else
           let kd = VtKey (vdeadline s) (task_id t);
               rq1 = (case bt_get kd (eligible rq) of
                        Some _ \<Rightarrow> rq\<lparr> eligible := bt_remove kd (eligible rq) \<rparr>
                      | None \<Rightarrow> rq\<lparr> ineligible := bt_remove (VtKey (ve s) (task_id t)) (ineligible rq) \<rparr>)
           in (h', rq1\<lparr> total_weight := sat_sub (total_weight rq1) (weight s),
                        e_nr_running := sat_sub (e_nr_running rq1) 1 \<rparr>))"

text \<open>The second loop of \<open>advance_eligibility\<close>, over the collected keys.\<close>

primrec promote :: "heap \<Rightarrow> VtKey list \<Rightarrow> EevdfRunQueue \<Rightarrow> EevdfRunQueue" where
  "promote h [] rq = rq"
| "promote h (k # ks) rq =
     promote h ks
       (case bt_get k (ineligible rq) of
          Some t \<Rightarrow> rq\<lparr> ineligible := bt_remove k (ineligible rq),
                        eligible := bt_insert (VtKey (vdeadline (sched (h t))) (task_id (h t))) t
                                      (eligible rq) \<rparr>
        | None \<Rightarrow> rq)"

definition advance_eligibility :: "heap \<Rightarrow> EevdfRunQueue \<Rightarrow> EevdfRunQueue" where
  "advance_eligibility h rq =
     promote h (map fst (takeWhile (\<lambda>e. vt (fst e) \<le> min_vruntime rq) (ineligible rq))) rq"

definition eevdf_pick_next :: "heap \<Rightarrow> EevdfRunQueue \<Rightarrow> taskref option \<times> EevdfRunQueue" where
  "eevdf_pick_next h rq =
     (let rq1 = advance_eligibility h rq
      in case bt_first (eligible rq1) of
           None \<Rightarrow> (None, rq1)
         | Some (k, _) \<Rightarrow> (bt_get k (eligible rq1), rq1\<lparr> eligible := bt_remove k (eligible rq1) \<rparr>))"

definition eevdf_put_prev ::
  "heap \<Rightarrow> EevdfRunQueue \<Rightarrow> taskref \<Rightarrow> (heap \<times> EevdfRunQueue) option" where
  "eevdf_put_prev h rq task = eevdf_enqueue h rq task False"

definition update_min_vruntime :: "u64 \<Rightarrow> EevdfRunQueue \<Rightarrow> EevdfRunQueue" where
  "update_min_vruntime running_vruntime rq =
     (let new_min = (case bt_first (eligible rq) of
                       Some (k, _) \<Rightarrow> min running_vruntime (vt k)
                     | None \<Rightarrow> running_vruntime)
      in if min_vruntime rq < new_min then rq\<lparr> min_vruntime := new_min \<rparr> else rq)"

definition eevdf_tick ::
  "heap \<Rightarrow> EevdfRunQueue \<Rightarrow> taskref \<Rightarrow> u64 \<Rightarrow> heap \<times> EevdfRunQueue \<times> bool" where
  "eevdf_tick h rq current elapsed_ns =
     (let t = h current; s = sched t;
          wm = ucast (NICE_TO_WMULT ! nice_to_idx (nice s)) :: u64;
          delta_vt = drop_bit 32 (elapsed_ns * wm);
          new_vruntime = vruntime s + delta_vt;
          h' = h(current := t\<lparr> sched := s\<lparr> vruntime := new_vruntime,
                                           exec_runtime := exec_runtime s + elapsed_ns \<rparr> \<rparr>);
          rq1 = update_min_vruntime new_vruntime rq;
          overran = vdeadline s \<le> new_vruntime;
          preempt_by_wakeup = (case bt_first (eligible rq1) of
                                 None \<Rightarrow> False
                               | Some (k, _) \<Rightarrow> vt k + SCHED_MIN_GRANULARITY_NS < vdeadline s)
      in (h', rq1, overran \<or> preempt_by_wakeup))"

definition eevdf_steal_one :: "heap \<Rightarrow> EevdfRunQueue \<Rightarrow> taskref option \<times> EevdfRunQueue" where
  "eevdf_steal_one h rq =
     (if e_nr_running rq \<le> 1 then (None, rq)
      else case bt_last (ineligible rq) of
        Some (k, _) \<Rightarrow> (bt_get k (ineligible rq), rq\<lparr> ineligible := bt_remove k (ineligible rq) \<rparr>)
      | None \<Rightarrow> (case bt_last (eligible rq) of
          Some (k, _) \<Rightarrow>
            (case bt_get k (eligible rq) of
               None \<Rightarrow> (None, rq)
             | Some task \<Rightarrow>
                 (Some task,
                  rq\<lparr> eligible := bt_remove k (eligible rq),
                      total_weight := sat_sub (total_weight rq) (weight (sched (h task))),
                      e_nr_running := sat_sub (e_nr_running rq) 1 \<rparr>))
        | None \<Rightarrow> (None, rq)))"

section \<open>Slices and the clock\<close>

lemma SCHED_bounds: "SCHED_MIN_GRANULARITY_NS \<le> SCHED_LATENCY_NS"
  by (simp add: sched_consts)

lemma compute_slice_bounds:
  "compute_slice rq w = Some s \<Longrightarrow> SCHED_MIN_GRANULARITY_NS \<le> s \<and> s \<le> SCHED_LATENCY_NS"
  using SCHED_bounds clamp_bounds [OF SCHED_bounds]
  by (auto simp: compute_slice_def split: if_splits)

lemma compute_slice_total:
  "unat (total_weight rq) + unat w < 2 ^ 64 \<Longrightarrow> \<exists>s. compute_slice rq w = Some s"
proof -
  assume b: "unat (total_weight rq) + unat w < 2 ^ 64"
  then have "unat (total_weight rq + w) = unat (total_weight rq) + unat w"
    by (intro unat_add_nowrap) simp
  then have "total_weight rq \<noteq> 0 \<Longrightarrow> total_weight rq + w \<noteq> 0"
    by (metis add_is_0 unat_0 unat_eq_zero)
  then show ?thesis by (auto simp: compute_slice_def)
qed

lemma update_min_vruntime_mono: "min_vruntime rq \<le> min_vruntime (update_min_vruntime v rq)"
  by (auto simp: update_min_vruntime_def Let_def intro: less_imp_le)

lemma update_min_vruntime_frame [simp]:
  "eligible (update_min_vruntime v rq) = eligible rq"
  "ineligible (update_min_vruntime v rq) = ineligible rq"
  "total_weight (update_min_vruntime v rq) = total_weight rq"
  "e_nr_running (update_min_vruntime v rq) = e_nr_running rq"
  by (simp_all add: update_min_vruntime_def Let_def)

section \<open>The queue invariant\<close>

text \<open>
  Keys mirror the scheduling records, the two maps hold disjoint sets of tasks, ids identify
  tasks, and a task filed as eligible has reached its eligibility time.
\<close>

definition eevdf_queued :: "EevdfRunQueue \<Rightarrow> taskref set" where
  "eevdf_queued rq = snd ` set (eligible rq) \<union> snd ` set (ineligible rq)"

definition eevdf_tasks :: "EevdfRunQueue \<Rightarrow> taskref multiset" where
  "eevdf_tasks rq = image_mset snd (mset (eligible rq)) + image_mset snd (mset (ineligible rq))"

definition dl_key :: "heap \<Rightarrow> taskref \<Rightarrow> VtKey" where
  "dl_key h t = VtKey (vdeadline (sched (h t))) (task_id (h t))"

definition ve_key :: "heap \<Rightarrow> taskref \<Rightarrow> VtKey" where
  "ve_key h t = VtKey (ve (sched (h t))) (task_id (h t))"

definition eevdf_inv :: "heap \<Rightarrow> EevdfRunQueue \<Rightarrow> bool" where
  "eevdf_inv h rq \<longleftrightarrow>
     bt_ok (eligible rq) \<and> bt_ok (ineligible rq) \<and>
     (\<forall>(k, t) \<in> set (eligible rq). k = dl_key h t \<and> ve (sched (h t)) \<le> min_vruntime rq) \<and>
     (\<forall>(k, t) \<in> set (ineligible rq). k = ve_key h t) \<and>
     snd ` set (eligible rq) \<inter> snd ` set (ineligible rq) = {} \<and>
     inj_on (\<lambda>t. task_id (h t)) (eevdf_queued rq)"

lemma set_mset_eevdf_tasks [simp]: "set_mset (eevdf_tasks rq) = eevdf_queued rq"
  by (simp add: eevdf_tasks_def eevdf_queued_def)

lemma eevdf_inv_new: "eevdf_inv h eevdf_new"
  by (simp add: eevdf_inv_def eevdf_new_def eevdf_queued_def bt_ok_def)

lemma eevdf_invD:
  assumes "eevdf_inv h rq"
  shows "bt_ok (eligible rq)" "bt_ok (ineligible rq)"
    "(k, t) \<in> set (eligible rq) \<Longrightarrow> k = dl_key h t"
    "(k, t) \<in> set (eligible rq) \<Longrightarrow> ve (sched (h t)) \<le> min_vruntime rq"
    "(k, t) \<in> set (ineligible rq) \<Longrightarrow> k = ve_key h t"
    "snd ` set (eligible rq) \<inter> snd ` set (ineligible rq) = {}"
    "inj_on (\<lambda>t. task_id (h t)) (eevdf_queued rq)"
  using assms by (auto simp: eevdf_inv_def)

text \<open>Ids are unique, so the key of a task that is not in a map is not in the map either.\<close>

lemma key_fresh:
  assumes m: "bt_ok m" and ids: "\<forall>(k, u) \<in> set m. vt_id k = task_id (h u)"
    and inj: "inj_on (\<lambda>t. task_id (h t)) (insert t (snd ` set m))"
    and t: "t \<notin> snd ` set m" and k: "vt_id k = task_id (h t)"
  shows "bt_get k m = None"
proof (rule ccontr)
  assume "bt_get k m \<noteq> None"
  then obtain u where u: "(k, u) \<in> set m" using m by (auto simp: btm.get_iff)
  then have "u \<in> snd ` set m" by force
  moreover have "u = t"
    by (rule inj_onD [OF inj]) (use u ids k calculation in auto)
  ultimately show False using t by simp
qed

lemma dl_key_fresh:
  assumes "eevdf_inv h rq" and "inj_on (\<lambda>t. task_id (h t)) (insert t (eevdf_queued rq))"
    and "t \<notin> snd ` set (eligible rq)"
  shows "bt_get (dl_key h t) (eligible rq) = None"
  using assms
  by (intro key_fresh [of _ h t])
    (auto simp: eevdf_inv_def eevdf_queued_def dl_key_def intro: inj_on_subset)

lemma ve_key_fresh:
  assumes "eevdf_inv h rq" and "inj_on (\<lambda>t. task_id (h t)) (insert t (eevdf_queued rq))"
    and "t \<notin> snd ` set (ineligible rq)"
  shows "bt_get (ve_key h t) (ineligible rq) = None"
  using assms
  by (intro key_fresh [of _ h t])
    (auto simp: eevdf_inv_def eevdf_queued_def ve_key_def intro: inj_on_subset)

text \<open>No task is queued twice.\<close>

lemma map_keys_distinct:
  assumes "bt_ok m" and "\<And>k k' t. (k, t) \<in> set m \<Longrightarrow> (k', t) \<in> set m \<Longrightarrow> k = k'"
  shows "distinct (map snd m)"
proof -
  have "distinct m" using btm.distinct_keys [OF assms(1)] by (simp add: distinct_map)
  moreover have "inj_on snd (set m)" using assms(2) by (auto simp: inj_on_def)
  ultimately show ?thesis by (simp add: distinct_map)
qed

lemma eevdf_tasks_distinct:
  assumes inv: "eevdf_inv h rq"
  shows "count (eevdf_tasks rq) t \<le> 1"
proof -
  note D = eevdf_invD [OF inv]
  have "distinct (map snd (eligible rq))" by (rule map_keys_distinct [OF D(1)]) (metis D(3))
  moreover have "distinct (map snd (ineligible rq))"
    by (rule map_keys_distinct [OF D(2)]) (metis D(5))
  ultimately have "distinct (map snd (eligible rq) @ map snd (ineligible rq))"
    using D(6) by auto
  then have "count (mset (map snd (eligible rq) @ map snd (ineligible rq))) t \<le> 1"
    by (simp add: distinct_count_atmost_1)
  then show ?thesis by (simp add: eevdf_tasks_def)
qed

section \<open>Promotion of tasks that became eligible\<close>

lemma promote_step:
  assumes inv: "eevdf_inv h rq" and get: "bt_get k (ineligible rq) = Some t"
    and k: "vt k \<le> min_vruntime rq"
    and rq': "rq' = rq\<lparr> ineligible := bt_remove k (ineligible rq),
                        eligible := bt_insert (dl_key h t) t (eligible rq) \<rparr>"
  shows "eevdf_inv h rq'" and "eevdf_tasks rq' = eevdf_tasks rq"
proof -
  note D = eevdf_invD [OF inv]
  have mem: "(k, t) \<in> set (ineligible rq)" using get D(2) by (simp add: btm.get_iff)
  then have kt: "k = ve_key h t" and tq: "t \<in> eevdf_queued rq" and tni: "t \<notin> snd ` set (eligible rq)"
    using D(5,6) by (force simp: eevdf_queued_def)+
  have fresh: "bt_get (dl_key h t) (eligible rq) = None"
    using tq tni D(7) by (intro dl_key_fresh [OF inv]) (simp_all add: insert_absorb)
  have t_once: "(k', t) \<in> set (ineligible rq) \<Longrightarrow> k' = k" for k'
    using D(5) kt by blast
  have e: "set (eligible rq') = insert (dl_key h t, t) (set (eligible rq))"
    using fresh D(1) by (simp add: rq' set_bt_insert_new)
  have i: "set (ineligible rq') = {x \<in> set (ineligible rq). fst x \<noteq> k}"
    by (simp add: rq' bt_remove_def)
  have m: "mset (ineligible rq) = add_mset (k, t) (mset (ineligible rq'))"
    using btm.mset_entries_remove [OF D(2) mem] by (simp add: rq')
  show tasks: "eevdf_tasks rq' = eevdf_tasks rq"
    using m btm.mset_entries_insert [OF D(1) fresh, of t] by (simp add: eevdf_tasks_def rq')
  have q: "eevdf_queued rq' = eevdf_queued rq"
    using arg_cong [OF tasks, of set_mset] by simp
  have "snd ` set (eligible rq') \<inter> snd ` set (ineligible rq') = {}"
    using D(6) t_once by (force simp: e i)
  moreover have "ve (sched (h t)) \<le> min_vruntime rq" using k kt by (simp add: ve_key_def)
  moreover have "bt_ok (eligible rq')" "bt_ok (ineligible rq')" "min_vruntime rq' = min_vruntime rq"
    using D(1,2) by (simp_all add: rq' bt_ok_insert bt_ok_remove)
  ultimately show "eevdf_inv h rq'"
    using inv by (simp add: eevdf_inv_def q e i)
qed

lemma promote_frame [simp]:
  "min_vruntime (promote h ks rq) = min_vruntime rq"
  "total_weight (promote h ks rq) = total_weight rq"
  "e_nr_running (promote h ks rq) = e_nr_running rq"
  by (induction ks arbitrary: rq) (simp_all split: option.splits)

lemma promote_ineligible:
  "ineligible (promote h ks rq) = filter (\<lambda>e. fst e \<notin> set ks) (ineligible rq)"
proof (induction ks arbitrary: rq)
  case (Cons k ks)
  have "bt_get k (ineligible rq) = None \<Longrightarrow>
      filter (\<lambda>e. fst e \<notin> set (k # ks)) (ineligible rq) = filter (\<lambda>e. fst e \<notin> set ks) (ineligible rq)"
    by (intro filter_cong) (auto simp: bt_get_def map_of_eq_None_iff image_iff)
  with Cons show ?case
    by (auto simp: bt_remove_def conj_commute split: option.splits)
qed simp

lemma promote_inv:
  assumes "eevdf_inv h rq" and "\<forall>k \<in> set ks. vt k \<le> min_vruntime rq"
  shows "eevdf_inv h (promote h ks rq) \<and> eevdf_tasks (promote h ks rq) = eevdf_tasks rq"
  using assms
proof (induction ks arbitrary: rq)
  case (Cons k ks)
  show ?case
  proof (cases "bt_get k (ineligible rq)")
    case None
    with Cons show ?thesis by simp
  next
    case (Some t)
    note step = promote_step [OF Cons.prems(1) Some _ refl]
    from Cons.prems(2) have "vt k \<le> min_vruntime rq" by simp
    with step Cons.IH Cons.prems(2) Some show ?thesis
      by (simp add: dl_key_def)
  qed
qed simp

lemma takeWhile_sorted_vt:
  assumes "bt_ok (m :: (VtKey, taskref) btree)"
  shows "set (takeWhile (\<lambda>e. vt (fst e) \<le> c) m) = {e \<in> set m. vt (fst e) \<le> c}"
  using assms
proof (induction m)
  case (Cons e m)
  have "x \<in> set m \<Longrightarrow> vt (fst e) \<le> vt (fst x)" for x
    using Cons.prems by (auto simp: bt_ok_def intro: VtKey_le_vt less_imp_le)
  with Cons show ?case
    by (auto simp: bt_ok_def dest: order.trans)
qed simp

text \<open>After the advance the eligible map holds exactly the queued tasks whose time has come.\<close>

lemma advance_eligibility_spec:
  assumes inv: "eevdf_inv h rq"
  shows "eevdf_inv h (advance_eligibility h rq)"
    and "eevdf_tasks (advance_eligibility h rq) = eevdf_tasks rq"
    and "snd ` set (eligible (advance_eligibility h rq)) =
         {t \<in> eevdf_queued rq. ve (sched (h t)) \<le> min_vruntime rq}"
proof -
  let ?ks = "map fst (takeWhile (\<lambda>e. vt (fst e) \<le> min_vruntime rq) (ineligible rq))"
  let ?rq = "promote h ?ks rq"
  note D = eevdf_invD [OF inv]
  have ks: "set ?ks = fst ` {e \<in> set (ineligible rq). vt (fst e) \<le> min_vruntime rq}"
    by (simp add: takeWhile_sorted_vt [OF D(2)])
  have P: "eevdf_inv h ?rq" "eevdf_tasks ?rq = eevdf_tasks rq"
    using promote_inv [OF inv, of ?ks] ks by (auto simp: takeWhile_sorted_vt [OF D(2)])
  then show "eevdf_inv h (advance_eligibility h rq)"
    and "eevdf_tasks (advance_eligibility h rq) = eevdf_tasks rq"
    by (simp_all add: advance_eligibility_def)
  have q: "eevdf_queued ?rq = eevdf_queued rq"
    using arg_cong [OF P(2), of set_mset] by simp
  have "t \<in> snd ` set (eligible ?rq)" if "t \<in> eevdf_queued rq" "ve (sched (h t)) \<le> min_vruntime rq" for t
  proof (rule ccontr)
    assume "t \<notin> snd ` set (eligible ?rq)"
    with that(1) q obtain k where "(k, t) \<in> set (ineligible ?rq)"
      by (auto simp: eevdf_queued_def)
    then have k: "(k, t) \<in> set (ineligible rq)" "k \<notin> set ?ks"
      by (auto simp: promote_ineligible)
    have "k = ve_key h t" using D(5) k(1) by blast
    then have "vt k \<le> min_vruntime rq" using that(2) by (simp add: ve_key_def)
    then have "k \<in> set ?ks"
      unfolding ks using k(1) by (intro image_eqI [of _ _ "(k, t)"]) simp_all
    with k(2) show False by contradiction
  qed
  moreover have "t \<in> eevdf_queued rq \<and> ve (sched (h t)) \<le> min_vruntime rq"
    if t: "t \<in> snd ` set (eligible ?rq)" for t
  proof -
    have "t \<in> eevdf_queued ?rq" using t by (auto simp: eevdf_queued_def)
    with q eevdf_invD(4) [OF P(1)] t show ?thesis by auto
  qed
  ultimately show "snd ` set (eligible (advance_eligibility h rq)) =
         {t \<in> eevdf_queued rq. ve (sched (h t)) \<le> min_vruntime rq}"
    by (auto simp: advance_eligibility_def)
qed

section \<open>Picking the next task\<close>

definition eevdf_ready :: "heap \<Rightarrow> EevdfRunQueue \<Rightarrow> taskref set" where
  "eevdf_ready h rq = {t \<in> eevdf_queued rq. ve (sched (h t)) \<le> min_vruntime rq}"

lemma advance_frame [simp]:
  "min_vruntime (advance_eligibility h rq) = min_vruntime rq"
  "total_weight (advance_eligibility h rq) = total_weight rq"
  "e_nr_running (advance_eligibility h rq) = e_nr_running rq"
  by (simp_all add: advance_eligibility_def)

text \<open>Dropping entries keeps the invariant.\<close>

lemma eevdf_inv_subset:
  assumes inv: "eevdf_inv h rq" and "bt_ok (eligible rq')" and "bt_ok (ineligible rq')"
    and e: "set (eligible rq') \<subseteq> set (eligible rq)"
    and i: "set (ineligible rq') \<subseteq> set (ineligible rq)"
    and m: "min_vruntime rq \<le> min_vruntime rq'"
  shows "eevdf_inv h rq'"
proof -
  note D = eevdf_invD [OF inv]
  have q: "eevdf_queued rq' \<subseteq> eevdf_queued rq" using e i by (auto simp: eevdf_queued_def)
  have "snd ` set (eligible rq') \<inter> snd ` set (ineligible rq') = {}"
    using D(6) image_mono [OF e, of snd] image_mono [OF i, of snd] by blast
  moreover have "inj_on (\<lambda>t. task_id (h t)) (eevdf_queued rq')"
    using D(7) q by (rule inj_on_subset)
  moreover have "k = dl_key h t \<and> ve (sched (h t)) \<le> min_vruntime rq'"
    if "(k, t) \<in> set (eligible rq')" for k t
    using that e D(3,4) m by (meson order.trans subsetD)
  moreover have "k = ve_key h t" if "(k, t) \<in> set (ineligible rq')" for k t
    using that i D(5) by blast
  ultimately show ?thesis using assms(2,3) by (auto simp: eevdf_inv_def)
qed

lemma eevdf_inv_remove:
  assumes "eevdf_inv h rq"
  shows "eevdf_inv h (rq\<lparr> eligible := bt_remove k (eligible rq) \<rparr>)"
    and "eevdf_inv h (rq\<lparr> ineligible := bt_remove k (ineligible rq) \<rparr>)"
  using eevdf_invD(1,2) [OF assms] bt_ok_remove
  by (auto intro!: eevdf_inv_subset [OF assms] simp: bt_remove_def)

lemma eevdf_inv_counters [simp]:
  "eevdf_inv h (rq\<lparr> total_weight := w \<rparr>) = eevdf_inv h rq"
  "eevdf_inv h (rq\<lparr> e_nr_running := n \<rparr>) = eevdf_inv h rq"
  by (simp_all add: eevdf_inv_def eevdf_queued_def)

lemma eevdf_tasks_counters [simp]:
  "eevdf_tasks (rq\<lparr> total_weight := w \<rparr>) = eevdf_tasks rq"
  "eevdf_tasks (rq\<lparr> e_nr_running := n \<rparr>) = eevdf_tasks rq"
  by (simp_all add: eevdf_tasks_def)

text \<open>The two ways \<open>pick_next\<close> can end.\<close>

lemma eevdf_pick_next_cases:
  assumes inv: "eevdf_inv h rq" and p: "eevdf_pick_next h rq = (r, rq')"
  obtains
    (none) "r = None" "rq' = advance_eligibility h rq" "eligible (advance_eligibility h rq) = []"
  | (some) k t es where "r = Some t" "eligible (advance_eligibility h rq) = (k, t) # es"
      "rq' = (advance_eligibility h rq)\<lparr> eligible := es \<rparr>"
proof -
  let ?a = "advance_eligibility h rq"
  have ok: "bt_ok (eligible ?a)" using advance_eligibility_spec(1) [OF inv] eevdf_invD(1) by blast
  show thesis
  proof (cases "eligible ?a")
    case Nil
    with p none show thesis by (simp add: eevdf_pick_next_def)
  next
    case (Cons e es)
    obtain k t where [simp]: "e = (k, t)" by fastforce
    have "bt_remove k (eligible ?a) = es" using bt_remove_first [of e es] ok Cons by simp
    moreover have "bt_get k (eligible ?a) = Some t" using Cons by (simp add: bt_get_def)
    ultimately show thesis
      using p Cons by (intro some [of t k es]) (auto simp: eevdf_pick_next_def bt_first_def)
  qed
qed

interpretation eevdf_q: class_queue eevdf_tasks eevdf_ready "\<lambda>h q t u. dl_key h t \<le> dl_key h u"
  eevdf_pick_next eevdf_inv
proof
  fix h q t q'
  assume inv: "eevdf_inv h q"
  note A = advance_eligibility_spec [OF inv]
  note D = eevdf_invD [OF A(1)]
  show "eevdf_ready h q \<subseteq> set_mset (eevdf_tasks q)"
    by (auto simp: eevdf_ready_def)
  show "eevdf_inv h (snd (eevdf_pick_next h q))"
    using eevdf_inv_remove(1) [OF A(1)] A(1)
    by (auto simp: eevdf_pick_next_def Let_def split: option.splits)
  { assume p: "eevdf_pick_next h q = (None, q')"
    show "eevdf_ready h q = {} \<and> eevdf_tasks q' = eevdf_tasks q"
      using inv p A by (cases rule: eevdf_pick_next_cases) (auto simp: eevdf_ready_def) }
  { assume p: "eevdf_pick_next h q = (Some t, q')"
    show "eevdf_tasks q = add_mset t (eevdf_tasks q') \<or> eevdf_tasks q' = eevdf_tasks q"
      using inv p A(2) by (cases rule: eevdf_pick_next_cases) (auto simp: eevdf_tasks_def)
    show "t \<in> eevdf_ready h q \<and> (\<forall>u \<in> eevdf_ready h q. dl_key h t \<le> dl_key h u)"
      using inv p
    proof (cases rule: eevdf_pick_next_cases)
      case (some k u es)
      have ready: "eevdf_ready h q = snd ` set (eligible (advance_eligibility h q))"
        using A(3) by (simp add: eevdf_ready_def)
      have "dl_key h t \<le> dl_key h v" if "v \<in> eevdf_ready h q" for v
      proof -
        from that ready obtain j where v: "(j, v) \<in> set (eligible (advance_eligibility h q))" by auto
        with btm.first_least [OF D(1) some(2) v] D(3) some show ?thesis
          by (metis fst_conv list.set_intros(1) option.inject)
      qed
      with some ready show ?thesis by auto
    qed simp }
qed

lemma eevdf_pick_next_removes:
  assumes inv: "eevdf_inv h rq" and p: "eevdf_pick_next h rq = (Some t, rq')"
  shows "eevdf_tasks rq = add_mset t (eevdf_tasks rq')"
  using inv p advance_eligibility_spec(2) [OF inv]
  by (cases rule: eevdf_pick_next_cases) (auto simp: eevdf_tasks_def)

lemma eevdf_pick_next_frame:
  assumes "eevdf_pick_next h rq = (r, rq')"
  shows "min_vruntime rq' = min_vruntime rq" "total_weight rq' = total_weight rq"
    "e_nr_running rq' = e_nr_running rq"
  using assms by (auto simp: eevdf_pick_next_def Let_def split: option.splits)

section \<open>Enqueue, dequeue, tick and steal keep the invariant\<close>

text \<open>The invariant reads only the id, eligibility time and deadline of queued tasks.\<close>

definition same_keys :: "heap \<Rightarrow> heap \<Rightarrow> taskref \<Rightarrow> bool" where
  "same_keys h h' t \<longleftrightarrow> task_id (h' t) = task_id (h t) \<and> ve (sched (h' t)) = ve (sched (h t)) \<and>
     vdeadline (sched (h' t)) = vdeadline (sched (h t))"

lemma eevdf_inv_heap:
  assumes inv: "eevdf_inv h rq" and same: "\<And>t. t \<in> eevdf_queued rq \<Longrightarrow> same_keys h h' t"
  shows "eevdf_inv h' rq"
proof -
  note D = eevdf_invD [OF inv]
  have s: "same_keys h h' t" if "(k, t) \<in> set (eligible rq) \<or> (k, t) \<in> set (ineligible rq)" for k t
    using that by (intro same) (force simp: eevdf_queued_def)
  have "inj_on (\<lambda>t. task_id (h' t)) (eevdf_queued rq)"
    using D(7) same by (auto simp: inj_on_def same_keys_def)
  moreover have "k = dl_key h' t \<and> ve (sched (h' t)) \<le> min_vruntime rq"
    if "(k, t) \<in> set (eligible rq)" for k t
    using that s [of k t] D(3) [OF that] D(4) [OF that] by (simp add: same_keys_def dl_key_def)
  moreover have "k = ve_key h' t" if "(k, t) \<in> set (ineligible rq)" for k t
    using that s [of k t] D(5) [OF that] by (simp add: same_keys_def ve_key_def)
  ultimately show ?thesis using D(1,2,6) by (auto simp: eevdf_inv_def)
qed

lemma eevdf_inv_insert_eligible:
  assumes inv: "eevdf_inv h rq" and new: "t \<notin> eevdf_queued rq"
    and ids: "inj_on (\<lambda>t. task_id (h t)) (insert t (eevdf_queued rq))"
    and v: "ve (sched (h t)) \<le> min_vruntime rq"
    and rq': "rq' = rq\<lparr> eligible := bt_insert (dl_key h t) t (eligible rq) \<rparr>"
  shows "eevdf_inv h rq' \<and> eevdf_tasks rq' = add_mset t (eevdf_tasks rq)"
proof -
  note D = eevdf_invD [OF inv]
  have fresh: "bt_get (dl_key h t) (eligible rq) = None"
    using new by (intro dl_key_fresh [OF inv ids]) (simp add: eevdf_queued_def)
  have e: "set (eligible rq') = insert (dl_key h t, t) (set (eligible rq))"
    using fresh D(1) by (simp add: rq' set_bt_insert_new)
  have tasks: "eevdf_tasks rq' = add_mset t (eevdf_tasks rq)"
    using btm.mset_entries_insert [OF D(1) fresh, of t] by (simp add: eevdf_tasks_def rq')
  have q: "eevdf_queued rq' = insert t (eevdf_queued rq)"
    using arg_cong [OF tasks, of set_mset] by simp
  have "bt_ok (eligible rq')" using D(1) by (simp add: rq' bt_ok_insert)
  moreover have "ineligible rq' = ineligible rq" "min_vruntime rq' = min_vruntime rq"
    by (simp_all add: rq')
  moreover have "t \<notin> snd ` set (ineligible rq)" using new by (simp add: eevdf_queued_def)
  ultimately have "eevdf_inv h rq'"
    using inv v ids by (simp add: eevdf_inv_def e q)
  with tasks show ?thesis by simp
qed

lemma eevdf_inv_insert_ineligible:
  assumes inv: "eevdf_inv h rq" and new: "t \<notin> eevdf_queued rq"
    and ids: "inj_on (\<lambda>t. task_id (h t)) (insert t (eevdf_queued rq))"
    and rq': "rq' = rq\<lparr> ineligible := bt_insert (ve_key h t) t (ineligible rq) \<rparr>"
  shows "eevdf_inv h rq' \<and> eevdf_tasks rq' = add_mset t (eevdf_tasks rq)"
proof -
  note D = eevdf_invD [OF inv]
  have fresh: "bt_get (ve_key h t) (ineligible rq) = None"
    using new by (intro ve_key_fresh [OF inv ids]) (simp add: eevdf_queued_def)
  have e: "set (ineligible rq') = insert (ve_key h t, t) (set (ineligible rq))"
    using fresh D(2) by (simp add: rq' set_bt_insert_new)
  have tasks: "eevdf_tasks rq' = add_mset t (eevdf_tasks rq)"
    using btm.mset_entries_insert [OF D(2) fresh, of t] by (simp add: eevdf_tasks_def rq')
  have q: "eevdf_queued rq' = insert t (eevdf_queued rq)"
    using arg_cong [OF tasks, of set_mset] by simp
  have "bt_ok (ineligible rq')" using D(2) by (simp add: rq' bt_ok_insert)
  moreover have "eligible rq' = eligible rq" "min_vruntime rq' = min_vruntime rq"
    by (simp_all add: rq')
  moreover have "t \<notin> snd ` set (eligible rq)" using new by (simp add: eevdf_queued_def)
  ultimately have "eevdf_inv h rq'"
    using inv ids by (simp add: eevdf_inv_def e q)
  with tasks show ?thesis by simp
qed

lemma place_vruntime_frame [simp]: "nice (place_vruntime rq wk s) = nice s"
  by (simp add: place_vruntime_def)

lemma eevdf_enqueue_SomeD:
  assumes "eevdf_enqueue h rq t wk = Some (h', rq')"
  obtains slice s w where "s = place_vruntime rq wk (sched (h t))"
    and "w = ucast (weight_for_nice (nice (sched (h t))))" and "compute_slice rq w = Some slice"
    and "h' = h(t := h t\<lparr> sched := s\<lparr> ve := vruntime s, vdeadline := vruntime s + slice,
                                      weight := w, on_rq := True \<rparr> \<rparr>)"
    and "rq' = (if vruntime s \<le> min_vruntime rq
         then rq\<lparr> eligible := bt_insert (VtKey (vruntime s + slice) (task_id (h t))) t (eligible rq),
                total_weight := total_weight rq + w, e_nr_running := e_nr_running rq + 1 \<rparr>
         else rq\<lparr> ineligible := bt_insert (VtKey (vruntime s) (task_id (h t))) t (ineligible rq),
                total_weight := total_weight rq + w, e_nr_running := e_nr_running rq + 1 \<rparr>)"
  using assms unfolding eevdf_enqueue_def Let_def bind_eq_Some_conv by auto

lemma eevdf_enqueue_frame:
  assumes enq: "eevdf_enqueue h rq t wk = Some (h', rq')"
  shows "u \<noteq> t \<Longrightarrow> h' u = h u" and "task_id (h' u) = task_id (h u)"
    and "min_vruntime rq' = min_vruntime rq" and "on_rq (sched (h' t))"
    and "e_nr_running rq' = e_nr_running rq + 1"
    and "total_weight rq' = total_weight rq + weight (sched (h' t))"
    and "weight (sched (h' t)) = ucast (weight_for_nice (nice (sched (h t))))"
proof -
  obtain slice s w where "s = place_vruntime rq wk (sched (h t))"
    and "w = ucast (weight_for_nice (nice (sched (h t))))" and "compute_slice rq w = Some slice"
    and E: "h' = h(t := h t\<lparr> sched := s\<lparr> ve := vruntime s, vdeadline := vruntime s + slice,
                                  weight := w, on_rq := True \<rparr> \<rparr>)"
    and R: "rq' = (if vruntime s \<le> min_vruntime rq
         then rq\<lparr> eligible := bt_insert (VtKey (vruntime s + slice) (task_id (h t))) t (eligible rq),
                total_weight := total_weight rq + w, e_nr_running := e_nr_running rq + 1 \<rparr>
         else rq\<lparr> ineligible := bt_insert (VtKey (vruntime s) (task_id (h t))) t (ineligible rq),
                total_weight := total_weight rq + w, e_nr_running := e_nr_running rq + 1 \<rparr>)"
    using enq by (rule eevdf_enqueue_SomeD)
  have q: "min_vruntime rq' = min_vruntime rq \<and> e_nr_running rq' = e_nr_running rq + 1 \<and>
      total_weight rq' = total_weight rq + w"
    by (simp add: R)
  show "u \<noteq> t \<Longrightarrow> h' u = h u" and "task_id (h' u) = task_id (h u)"
    and "min_vruntime rq' = min_vruntime rq" and "on_rq (sched (h' t))"
    and "e_nr_running rq' = e_nr_running rq + 1"
    and "total_weight rq' = total_weight rq + weight (sched (h' t))"
    and "weight (sched (h' t)) = ucast (weight_for_nice (nice (sched (h t))))"
    using q \<open>w = _\<close> by (simp_all add: E)
qed

lemma eevdf_enqueue_inv:
  assumes inv: "eevdf_inv h rq" and new: "t \<notin> eevdf_queued rq"
    and ids: "inj_on (\<lambda>t. task_id (h t)) (insert t (eevdf_queued rq))"
    and enq: "eevdf_enqueue h rq t wk = Some (h', rq')"
  shows "eevdf_inv h' rq'" and "eevdf_tasks rq' = add_mset t (eevdf_tasks rq)"
proof -
  note F = eevdf_enqueue_frame [OF enq]
  have inv': "eevdf_inv h' rq"
  proof (rule eevdf_inv_heap [OF inv])
    show "same_keys h h' u" if "u \<in> eevdf_queued rq" for u
      using that new by (cases "u = t") (simp_all add: same_keys_def F(1))
  qed
  have ids': "inj_on (\<lambda>t. task_id (h' t)) (insert t (eevdf_queued rq))"
    using ids by (simp add: F(2))
  have "eevdf_inv h' rq' \<and> eevdf_tasks rq' = add_mset t (eevdf_tasks rq)"
  proof (cases "ve (sched (h' t)) \<le> min_vruntime rq")
    case True
    have "rq' = rq\<lparr> eligible := bt_insert (dl_key h' t) t (eligible rq),
                    total_weight := total_weight rq', e_nr_running := e_nr_running rq' \<rparr>"
      by (rule eevdf_enqueue_SomeD [OF enq]) (use True in \<open>simp add: dl_key_def\<close>)
    then show ?thesis
      using eevdf_inv_insert_eligible [OF inv' new ids' True refl]
      by (metis eevdf_inv_counters eevdf_tasks_counters)
  next
    case False
    have "rq' = rq\<lparr> ineligible := bt_insert (ve_key h' t) t (ineligible rq),
                    total_weight := total_weight rq', e_nr_running := e_nr_running rq' \<rparr>"
      by (rule eevdf_enqueue_SomeD [OF enq]) (use False in \<open>simp add: ve_key_def\<close>)
    then show ?thesis
      using eevdf_inv_insert_ineligible [OF inv' new ids' refl]
      by (metis eevdf_inv_counters eevdf_tasks_counters)
  qed
  then show "eevdf_inv h' rq'" and "eevdf_tasks rq' = add_mset t (eevdf_tasks rq)" by simp_all
qed

lemma eevdf_enqueue_total:
  assumes "unat (total_weight rq) + 88761 < 2 ^ 64"
  shows "\<exists>h' rq'. eevdf_enqueue h rq t wk = Some (h', rq')"
proof -
  let ?w = "ucast (weight_for_nice (nice (sched (h t)))) :: u64"
  have "unat ?w \<le> 88761"
    using weight_for_nice_bounds [of "nice (sched (h t))"] by simp
  with assms have "\<exists>s. compute_slice rq ?w = Some s" by (intro compute_slice_total) simp
  then show ?thesis by (auto simp: eevdf_enqueue_def Let_def place_vruntime_def)
qed

text \<open>Dequeuing a queued task removes it; a task that is not on a queue changes nothing.\<close>

lemma eevdf_dequeue_heap:
  "fst (eevdf_dequeue h rq t) = h(t := h t\<lparr> sched := (sched (h t))\<lparr> on_rq := False \<rparr> \<rparr>)"
  by (simp add: eevdf_dequeue_def Let_def)

lemma eevdf_dequeue_maps:
  assumes "on_rq (sched (h t))"
  shows "eligible (snd (eevdf_dequeue h rq t)) = bt_remove (dl_key h t) (eligible rq)"
    and "bt_get (dl_key h t) (eligible rq) = None \<Longrightarrow>
      ineligible (snd (eevdf_dequeue h rq t)) = bt_remove (ve_key h t) (ineligible rq)"
    and "bt_get (dl_key h t) (eligible rq) \<noteq> None \<Longrightarrow>
      ineligible (snd (eevdf_dequeue h rq t)) = ineligible rq"
  using assms bt_remove_absent [of "dl_key h t" "eligible rq"]
  by (auto simp: eevdf_dequeue_def Let_def dl_key_def ve_key_def split: option.splits)

lemma eevdf_dequeue_frame:
  "min_vruntime (snd (eevdf_dequeue h rq t)) = min_vruntime rq"
  "on_rq (sched (h t)) \<Longrightarrow> total_weight (snd (eevdf_dequeue h rq t)) = sat_sub (total_weight rq) (weight (sched (h t)))"
  "on_rq (sched (h t)) \<Longrightarrow> e_nr_running (snd (eevdf_dequeue h rq t)) = sat_sub (e_nr_running rq) 1"
  by (auto simp: eevdf_dequeue_def Let_def split: option.splits)

lemma eevdf_dequeue_tasks:
  assumes inv: "eevdf_inv h rq" and on: "on_rq (sched (h t))" and q: "t \<in> eevdf_queued rq"
  shows "eevdf_tasks rq = add_mset t (eevdf_tasks (snd (eevdf_dequeue h rq t)))"
proof -
  note D = eevdf_invD [OF inv]
  note M = eevdf_dequeue_maps [of h t, OF on]
  show ?thesis
  proof (cases "t \<in> snd ` set (eligible rq)")
    case True
    then have mem: "(dl_key h t, t) \<in> set (eligible rq)" using D(3) by force
    then have "bt_get (dl_key h t) (eligible rq) \<noteq> None" using D(1) by (auto simp: btm.get_iff)
    then show ?thesis
      using btm.mset_entries_remove [OF D(1) mem] M by (simp add: eevdf_tasks_def)
  next
    case False
    with q obtain k where "(k, t) \<in> set (ineligible rq)" by (auto simp: eevdf_queued_def)
    then have mem: "(ve_key h t, t) \<in> set (ineligible rq)" using D(5) by blast
    have none: "bt_get (dl_key h t) (eligible rq) = None"
      using D(7) q False by (intro dl_key_fresh [OF inv]) (simp_all add: insert_absorb)
    show ?thesis
      using btm.mset_entries_remove [OF D(2) mem] M(1) M(2) [OF none] btm.remove_absent [OF D(1) none]
      by (simp add: eevdf_tasks_def)
  qed
qed

lemma eevdf_dequeue_inv:
  assumes inv: "eevdf_inv h rq"
  shows "eevdf_inv (fst (eevdf_dequeue h rq t)) (snd (eevdf_dequeue h rq t))"
proof -
  have h: "same_keys h (fst (eevdf_dequeue h rq t)) u" for u
    by (simp add: same_keys_def eevdf_dequeue_heap)
  have "eevdf_inv h (snd (eevdf_dequeue h rq t))"
  proof (cases "on_rq (sched (h t))")
    case True
    note M = eevdf_dequeue_maps [of h t, OF True]
    have "bt_ok (ineligible (snd (eevdf_dequeue h rq t))) \<and>
        set (ineligible (snd (eevdf_dequeue h rq t))) \<subseteq> set (ineligible rq)"
      using M(2,3) eevdf_invD(2) [OF inv]
      by (cases "bt_get (dl_key h t) (eligible rq)") (auto simp: bt_ok_remove, auto simp: bt_remove_def)
    then show ?thesis
      using M(1) eevdf_invD(1) [OF inv]
      by (intro eevdf_inv_subset [OF inv])
        (simp_all add: eevdf_dequeue_frame bt_ok_remove, simp_all add: bt_remove_def)
  next
    case False
    then show ?thesis using inv by (simp add: eevdf_dequeue_def Let_def)
  qed
  then show ?thesis by (rule eevdf_inv_heap) (rule h)
qed

lemma eevdf_tick_parts:
  "eevdf_tick h rq c e = (h', rq', b) \<Longrightarrow> rq' = update_min_vruntime (vruntime (sched (h' c))) rq"
  "eevdf_tick h rq c e = (h', rq', b) \<Longrightarrow> same_keys h h' t"
  "eevdf_tick h rq c e = (h', rq', b) \<Longrightarrow> t \<noteq> c \<Longrightarrow> h' t = h t"
  by (auto simp: eevdf_tick_def Let_def same_keys_def)

lemma eevdf_tick_inv:
  assumes inv: "eevdf_inv h rq" and tick: "eevdf_tick h rq c e = (h', rq', b)"
  shows "eevdf_inv h' rq'" and "eevdf_tasks rq' = eevdf_tasks rq"
proof -
  note P = eevdf_tick_parts [OF tick]
  have "eevdf_inv h' rq" by (rule eevdf_inv_heap [OF inv]) (rule P(2))
  then show "eevdf_inv h' rq'"
    unfolding P(1)
    by (rule eevdf_inv_subset) (use eevdf_invD(1,2) [OF inv] in \<open>simp_all add: update_min_vruntime_mono\<close>)
  show "eevdf_tasks rq' = eevdf_tasks rq" by (simp add: P(1) eevdf_tasks_def)
qed

lemma eevdf_steal_one_spec:
  assumes inv: "eevdf_inv h rq" and st: "eevdf_steal_one h rq = (Some t, rq')"
  shows "eevdf_inv h rq'" and "eevdf_tasks rq = add_mset t (eevdf_tasks rq')"
    and "1 < e_nr_running rq"
proof -
  note D = eevdf_invD [OF inv]
  show "1 < e_nr_running rq" using st by (auto simp: eevdf_steal_one_def split: if_splits)
  have "eevdf_inv h rq' \<and> eevdf_tasks rq = add_mset t (eevdf_tasks rq')"
  proof (cases "ineligible rq = []")
    case False
    then obtain k where l: "rq' = rq\<lparr> ineligible := bt_remove k (ineligible rq) \<rparr>"
      and g: "bt_get k (ineligible rq) = Some t"
      using st by (auto simp: eevdf_steal_one_def bt_last_def split: if_splits prod.splits)
    have "(k, t) \<in> set (ineligible rq)" using g D(2) by (simp add: btm.get_iff)
    from btm.mset_entries_remove [OF D(2) this] show ?thesis
      using eevdf_inv_remove(2) [OF inv] l by (simp add: eevdf_tasks_def)
  next
    case True
    then obtain k w n where l: "rq' = rq\<lparr> eligible := bt_remove k (eligible rq), total_weight := w, e_nr_running := n \<rparr>"
      and g: "bt_get k (eligible rq) = Some t"
      using st by (auto simp: eevdf_steal_one_def bt_last_def split: if_splits prod.splits option.splits)
    have "(k, t) \<in> set (eligible rq)" using g D(1) by (simp add: btm.get_iff)
    from btm.mset_entries_remove [OF D(1) this] show ?thesis
      using eevdf_inv_remove(1) [OF inv] l by (simp add: eevdf_tasks_def)
  qed
  then show "eevdf_inv h rq'" and "eevdf_tasks rq = add_mset t (eevdf_tasks rq')" by simp_all
qed

section \<open>Charging virtual runtime\<close>

text \<open>The fixed-point division by the weight, with the rounding errors of the table and the shift.\<close>

lemma fixed_point_charge:
  fixes e w m :: int
  assumes e: "0 \<le> e" "e < 2 ^ 32" and w: "0 < w" and wm: "\<bar>2 ^ 32 - w * m\<bar> \<le> 40"
  shows "e - w - 40 \<le> (e * m div 2 ^ 32) * w" and "(e * m div 2 ^ 32) * w \<le> e + 40"
proof -
  define d where "d = e * m div 2 ^ 32"
  have d: "d * 2 ^ 32 \<le> e * m" "e * m < (d + 1) * 2 ^ 32"
    unfolding d_def
    by (simp_all add: mult.commute times_div_less_eq_dividend dividend_less_times_div distrib_left)
  have up: "e * (w * m) \<le> e * (2 ^ 32 + 40)" and lo: "e * (2 ^ 32 - 40) \<le> e * (w * m)"
    using wm e(1) by (intro mult_left_mono; linarith)+
  have "(d * w) * 2 ^ 32 = (d * 2 ^ 32) * w" by simp
  also have "\<dots> \<le> (e * m) * w" using d(1) w by (intro mult_right_mono) auto
  also have "\<dots> \<le> e * (2 ^ 32 + 40)" using up by (simp add: ac_simps)
  also have "\<dots> \<le> (e + 40) * 2 ^ 32" using e by (simp add: algebra_simps)
  finally show "(e * m div 2 ^ 32) * w \<le> e + 40" unfolding d_def [symmetric] by simp
  have "(e - 40) * 2 ^ 32 \<le> e * (2 ^ 32 - 40)" using e by (simp add: algebra_simps)
  also have "\<dots> \<le> (e * m) * w" using lo by (simp add: ac_simps)
  also have "\<dots> < ((d + 1) * 2 ^ 32) * w" using d(2) w by (intro mult_strict_right_mono) auto
  also have "\<dots> = ((d + 1) * w) * 2 ^ 32" by simp
  finally have "e - 40 < (d + 1) * w" by simp
  then show "e - w - 40 \<le> (e * m div 2 ^ 32) * w"
    unfolding d_def [symmetric] by (simp add: algebra_simps)
qed

lemma unat_charge:
  assumes "unat (e :: u64) < 2 ^ 32"
  shows "unat (drop_bit 32 (e * ucast (m :: u32)) :: u64) = unat e * unat m div 2 ^ 32"
proof -
  have "unat m < 2 ^ 32" using unsigned_less [of m] by simp
  with assms have "unat e * unat m < 2 ^ 32 * 2 ^ 32" by (intro mult_strict_mono) auto
  then have "unat (e * ucast m) = unat e * unat m" by (subst unat_mult_nowrap) auto
  then show ?thesis by (simp add: drop_bit_eq_div unat_div)
qed

section \<open>Reachable queues\<close>

text \<open>
  A run of the queue: any sequence of its operations, interleaved with writes by the rest of the
  kernel that leave the keys of queued tasks alone.  A task is enqueued only when it is not queued
  and no queued task has its id.
\<close>

inductive eevdf_reach :: "heap \<Rightarrow> EevdfRunQueue \<Rightarrow> bool" where
  start: "eevdf_reach h eevdf_new"
| enqueue: "eevdf_reach h rq \<Longrightarrow> t \<notin> eevdf_queued rq \<Longrightarrow>
    \<forall>u \<in> eevdf_queued rq. task_id (h u) \<noteq> task_id (h t) \<Longrightarrow>
    eevdf_enqueue h rq t wk = Some (h', rq') \<Longrightarrow> eevdf_reach h' rq'"
| dequeue: "eevdf_reach h rq \<Longrightarrow> eevdf_dequeue h rq t = (h', rq') \<Longrightarrow> eevdf_reach h' rq'"
| pick: "eevdf_reach h rq \<Longrightarrow> eevdf_pick_next h rq = (r, rq') \<Longrightarrow> eevdf_reach h rq'"
| tick: "eevdf_reach h rq \<Longrightarrow> eevdf_tick h rq c e = (h', rq', b) \<Longrightarrow> eevdf_reach h' rq'"
| steal: "eevdf_reach h rq \<Longrightarrow> eevdf_steal_one h rq = (r, rq') \<Longrightarrow> eevdf_reach h rq'"
| other: "eevdf_reach h rq \<Longrightarrow> \<forall>t \<in> eevdf_queued rq. same_keys h h' t \<Longrightarrow> eevdf_reach h' rq"

lemma eevdf_steal_none: "eevdf_inv h rq \<Longrightarrow> eevdf_steal_one h rq = (None, rq') \<Longrightarrow> eevdf_inv h rq'"
  using eevdf_inv_remove(2)
  by (auto simp: eevdf_steal_one_def split: if_splits option.splits prod.splits)

lemma eevdf_reach_inv: "eevdf_reach h rq \<Longrightarrow> eevdf_inv h rq"
proof (induction rule: eevdf_reach.induct)
  case (start h)
  show ?case by (rule eevdf_inv_new)
next
  case (enqueue h rq t wk h' rq')
  have "inj_on (\<lambda>t. task_id (h t)) (insert t (eevdf_queued rq))"
    using eevdf_invD(7) [OF enqueue.IH] enqueue.hyps(2,3) by (auto simp: inj_on_insert)
  then show ?case using enqueue by (blast intro: eevdf_enqueue_inv(1))
next
  case (dequeue h rq t h' rq')
  then show ?case using eevdf_dequeue_inv [of h rq t] by simp
next
  case (pick h rq r rq')
  then show ?case using eevdf_q.pick_inv [of h rq] by simp
next
  case (tick h rq c e h' rq' b)
  then show ?case by (blast intro: eevdf_tick_inv(1))
next
  case (steal h rq r rq')
  then show ?case
    by (cases r) (auto intro: eevdf_steal_none eevdf_steal_one_spec(1))
next
  case (other h rq h')
  then show ?case by (blast intro: eevdf_inv_heap)
qed

section \<open>Properties\<close>

text \<open>
  C1: In every reachable queue \<open>pick_next\<close> implements earliest-eligible-virtual-deadline-first:
  the returned task is queued, its eligibility time has been reached, and its (virtual deadline,
  id) is least among all such tasks; exactly that task leaves the queue.  It returns nothing only
  when no queued task is eligible, and then no task is lost.
\<close>

theorem eevdf_pick_next_correct:
  assumes "eevdf_reach h rq" and "eevdf_pick_next h rq = (r, rq')"
  shows "case r of
      Some t \<Rightarrow> t \<in> eevdf_queued rq \<and> ve (sched (h t)) \<le> min_vruntime rq \<and>
        (\<forall>u \<in> eevdf_queued rq. ve (sched (h u)) \<le> min_vruntime rq \<longrightarrow>
           VtKey (vdeadline (sched (h t))) (task_id (h t)) \<le> VtKey (vdeadline (sched (h u))) (task_id (h u))) \<and>
        eevdf_tasks rq = add_mset t (eevdf_tasks rq')
    | None \<Rightarrow> (\<forall>u \<in> eevdf_queued rq. min_vruntime rq < ve (sched (h u))) \<and> eevdf_tasks rq' = eevdf_tasks rq"
proof -
  have inv: "eevdf_inv h rq" using assms(1) by (rule eevdf_reach_inv)
  show ?thesis
  proof (cases r)
    case None
    with eevdf_q.pick_none [OF inv] assms(2) show ?thesis
      by (auto simp: eevdf_ready_def not_le)
  next
    case (Some t)
    with eevdf_q.pick_best [OF inv] eevdf_pick_next_removes [OF inv] assms(2) show ?thesis
      by (auto simp: eevdf_ready_def dl_key_def)
  qed
qed


lemma eevdf_enqueue_deadline:
  assumes "eevdf_enqueue h rq t wk = Some (h', rq')"
  shows "\<exists>slice. SCHED_MIN_GRANULARITY_NS \<le> slice \<and> slice \<le> SCHED_LATENCY_NS \<and>
    vdeadline (sched (h' t)) = ve (sched (h' t)) + slice"
proof -
  obtain slice where "compute_slice rq (ucast (weight_for_nice (nice (sched (h t))))) = Some slice"
    and "vdeadline (sched (h' t)) = ve (sched (h' t)) + slice"
    using assms
    by (auto simp: eevdf_enqueue_def Let_def place_vruntime_def split: bind_splits if_splits)
  then show ?thesis using compute_slice_bounds by blast
qed

text \<open>
  Enqueuing a task that is not queued always succeeds while the total weight has room for
  one more task: the task joins the queue with a virtual deadline between the minimum granularity
  and the target latency after its eligibility time, and dequeuing it again restores the tasks,
  the total weight and the task count.
\<close>

theorem eevdf_enqueue_dequeue_roundtrip:
  assumes reach: "eevdf_reach h rq" and new: "t \<notin> eevdf_queued rq"
    and ids: "\<forall>u \<in> eevdf_queued rq. task_id (h u) \<noteq> task_id (h t)"
    and room: "unat (total_weight rq) + 88761 < 2 ^ 64" "unat (e_nr_running rq) + 1 < 2 ^ 64"
  shows "\<exists>h1 rq1. eevdf_enqueue h rq t wk = Some (h1, rq1) \<and>
      eevdf_tasks rq1 = add_mset t (eevdf_tasks rq) \<and>
      (\<exists>slice. 750000 \<le> slice \<and> slice \<le> 6000000 \<and> vdeadline (sched (h1 t)) = ve (sched (h1 t)) + slice) \<and>
      eevdf_tasks (snd (eevdf_dequeue h1 rq1 t)) = eevdf_tasks rq \<and>
      total_weight (snd (eevdf_dequeue h1 rq1 t)) = total_weight rq \<and>
      e_nr_running (snd (eevdf_dequeue h1 rq1 t)) = e_nr_running rq \<and>
      \<not> on_rq (sched (fst (eevdf_dequeue h1 rq1 t) t))"
proof -
  obtain h1 rq1 where enq: "eevdf_enqueue h rq t wk = Some (h1, rq1)"
    using eevdf_enqueue_total [OF room(1)] by blast
  note F = eevdf_enqueue_frame [OF enq]
  have inj: "inj_on (\<lambda>t. task_id (h t)) (insert t (eevdf_queued rq))"
    using eevdf_invD(7) [OF eevdf_reach_inv [OF reach]] new ids by (auto simp: inj_on_insert)
  note I = eevdf_enqueue_inv [OF eevdf_reach_inv [OF reach] new inj enq]
  have q: "t \<in> eevdf_queued rq1" using arg_cong [OF I(2), of set_mset] by simp
  have w: "unat (total_weight rq) + unat (weight (sched (h1 t))) < 2 ^ 64"
    using room(1) weight_for_nice_bounds [of "nice (sched (h t))"] by (simp add: F(7))
  have "sat_sub (total_weight rq + weight (sched (h1 t))) (weight (sched (h1 t))) = total_weight rq"
    using unat_add_nowrap [of "total_weight rq" "weight (sched (h1 t))"] w
    by (simp add: word_unat_eq_iff)
  moreover have "sat_sub (e_nr_running rq + 1) 1 = e_nr_running rq"
    using unat_add_one [OF room(2)] by (simp add: word_unat_eq_iff)
  moreover have "eevdf_tasks (snd (eevdf_dequeue h1 rq1 t)) = eevdf_tasks rq"
    using eevdf_dequeue_tasks [OF I(1) F(4) q] I(2) by simp
  moreover have "\<not> on_rq (sched (fst (eevdf_dequeue h1 rq1 t) t))"
    by (simp add: eevdf_dequeue_heap)
  ultimately show ?thesis
    using enq I(2) F(4,5,6) eevdf_enqueue_deadline [OF enq]
    by (auto simp: eevdf_dequeue_frame sched_consts)
qed

text \<open>
  Picking a task and putting it back leaves the same tasks queued but counts the task twice:
  \<open>nr_running\<close> and \<open>total_weight\<close> grow with every such cycle, because \<open>pick_next\<close> does not
  take the task out of the counters that \<open>put_prev\<close> adds it to again.
\<close>

theorem eevdf_requeue_drift:
  assumes reach: "eevdf_reach h rq" and pick: "eevdf_pick_next h rq = (Some t, rq1)"
    and put: "eevdf_put_prev h rq1 t = Some (h2, rq2)"
  shows "eevdf_tasks rq2 = eevdf_tasks rq \<and>
    e_nr_running rq2 = e_nr_running rq + 1 \<and>
    total_weight rq2 = total_weight rq + ucast (weight_for_nice (nice (sched (h t))))"
proof -
  have inv: "eevdf_inv h rq" by (rule eevdf_reach_inv [OF reach])
  have t: "eevdf_tasks rq = add_mset t (eevdf_tasks rq1)"
    by (rule eevdf_pick_next_removes [OF inv pick])
  have inv1: "eevdf_inv h rq1" using eevdf_q.pick_inv [OF inv] pick by simp
  have q: "insert t (eevdf_queued rq1) = eevdf_queued rq"
    using arg_cong [OF t, of set_mset] by simp
  have fresh: "t \<notin> eevdf_queued rq1"
  proof
    assume "t \<in> eevdf_queued rq1"
    then have "1 < count (eevdf_tasks rq) t" by (simp add: t flip: set_mset_eevdf_tasks)
    then show False using eevdf_tasks_distinct [OF inv, of t] by simp
  qed
  have "inj_on (\<lambda>t. task_id (h t)) (insert t (eevdf_queued rq1))"
    using eevdf_invD(7) [OF inv] by (simp add: q)
  note E = eevdf_enqueue_inv(2) [OF inv1 fresh this put [unfolded eevdf_put_prev_def]]
  note F = eevdf_enqueue_frame [OF put [unfolded eevdf_put_prev_def]]
  note G = eevdf_pick_next_frame [OF pick]
  show ?thesis using E t F(5,6,7) G(2,3) by simp
qed

section \<open>Concrete instances\<close>

text \<open>A store of fresh tasks, and the queue after task 2 was enqueued on an empty queue.\<close>

definition ex_heap :: heap where
  "ex_heap r = Task_new r ''task''"

definition ex_heap1 :: heap where
  "ex_heap1 = ex_heap(2 := (ex_heap 2)\<lparr> sched := (sched (ex_heap 2))\<lparr>
      vdeadline := 6000000, on_rq := True \<rparr> \<rparr>)"

definition ex_rq1 :: EevdfRunQueue where
  "ex_rq1 = \<lparr> eligible = [(VtKey 6000000 2, 2)], ineligible = [], min_vruntime = 0,
      total_weight = 1024, e_nr_running = 1 \<rparr>"

lemma weight_for_nice_0: "weight_for_nice 0 = 1024"
  by (simp add: weight_for_nice_def nice_to_idx_def clamp_def NICE_TO_WEIGHT_def)

lemma ex_enqueue: "eevdf_enqueue ex_heap eevdf_new 2 False = Some (ex_heap1, ex_rq1)"
  by (simp add: eevdf_enqueue_def Let_def place_vruntime_def compute_slice_def ex_heap_def Task_new_def
      TaskSchedInfo_default_def eevdf_new_def ex_heap1_def ex_rq1_def sched_consts weight_for_nice_0
      fun_eq_iff)

lemma ex_reach1: "eevdf_reach ex_heap1 ex_rq1"
  by (rule eevdf_reach.enqueue [OF eevdf_reach.start _ _ ex_enqueue])
    (simp_all add: eevdf_queued_def eevdf_new_def)

lemma ex_pick: "eevdf_pick_next ex_heap1 ex_rq1 = (Some 2, ex_rq1\<lparr> eligible := [] \<rparr>)"
  by (simp add: eevdf_pick_next_def advance_eligibility_def ex_rq1_def bt_get_def bt_remove_def)

theorem eevdf_pick_next_correct_witness:
  "eevdf_pick_next ex_heap1 ex_rq1 = (Some 2, ex_rq1\<lparr> eligible := [] \<rparr>) \<and>
   2 \<in> eevdf_queued ex_rq1 \<and> ve (sched (ex_heap1 2)) \<le> min_vruntime ex_rq1"
  using eevdf_pick_next_correct [OF ex_reach1 ex_pick] ex_pick by simp


theorem eevdf_enqueue_dequeue_roundtrip_witness:
  "\<exists>h1 rq1. eevdf_enqueue ex_heap1 ex_rq1 3 True = Some (h1, rq1) \<and>
     eevdf_tasks (snd (eevdf_dequeue h1 rq1 3)) = eevdf_tasks ex_rq1"
proof -
  have "3 \<notin> eevdf_queued ex_rq1" "\<forall>u \<in> eevdf_queued ex_rq1. task_id (ex_heap1 u) \<noteq> task_id (ex_heap1 3)"
    "unat (total_weight ex_rq1) + 88761 < 2 ^ 64" "unat (e_nr_running ex_rq1) + 1 < 2 ^ 64"
    by (simp_all add: eevdf_queued_def ex_rq1_def ex_heap1_def ex_heap_def Task_new_def)
  from eevdf_enqueue_dequeue_roundtrip [OF ex_reach1 this, of True] show ?thesis by blast
qed

theorem eevdf_requeue_drift_witness:
  "\<exists>h2 rq2. eevdf_put_prev ex_heap1 (ex_rq1\<lparr> eligible := [] \<rparr>) 2 = Some (h2, rq2) \<and>
     eevdf_tasks rq2 = {#2#} \<and> e_nr_running rq2 = 2"
proof -
  have "unat (total_weight (ex_rq1\<lparr> eligible := [] \<rparr>)) + 88761 < 2 ^ 64" by (simp add: ex_rq1_def)
  then obtain h2 rq2 where p: "eevdf_put_prev ex_heap1 (ex_rq1\<lparr> eligible := [] \<rparr>) 2 = Some (h2, rq2)"
    using eevdf_enqueue_total unfolding eevdf_put_prev_def by blast
  show ?thesis
    using eevdf_requeue_drift [OF ex_reach1 ex_pick p] p by (simp add: ex_rq1_def eevdf_tasks_def)
qed

end
