(* ===== verification/Realtime.thy ===== *)
theory Realtime
  imports Class_Queue
begin

text \<open>
  The real-time run queue of \<open>kernel/mks/src/realtime.rs\<close> (\<open>SCHED_FIFO\<close> and \<open>SCHED_RR\<close>): one
  FIFO list per priority level and a 128-bit mask of the non-empty levels.  \<open>pick_next\<close> reads
  the level from \<open>leading_zeros\<close> of the mask; the invariant makes that level the highest
  non-empty one.  Indexing outside the array of levels would panic, hence the outer \<open>option\<close> of
  \<open>rt_pick_next\<close>; it is shown never to be \<open>None\<close>.
\<close>

section \<open>State and operations\<close>

definition RT_PRIO_LEVELS :: nat where "RT_PRIO_LEVELS = 100"

definition RT_RR_TIMESLICE_NS :: u64 where "RT_RR_TIMESLICE_NS = 100000000"

record RtRunQueue =
  queues :: "taskref list list"
  bitmap :: u128
  rt_nr_running :: usize

definition rt_new :: RtRunQueue where
  "rt_new = \<lparr> queues = replicate RT_PRIO_LEVELS [], bitmap = 0, rt_nr_running = 0 \<rparr>"

definition rt_prio :: "heap \<Rightarrow> taskref \<Rightarrow> nat" where
  "rt_prio h task = unat (clamp 0 99 (rt_priority (sched (h task))))"

definition rt_enqueue :: "heap \<Rightarrow> RtRunQueue \<Rightarrow> taskref \<Rightarrow> RtRunQueue" where
  "rt_enqueue h rq task =
     (let prio = rt_prio h task
      in rq\<lparr> queues := (queues rq)[prio := queues rq ! prio @ [task]],
             bitmap := bitmap rq OR push_bit prio 1,
             rt_nr_running := rt_nr_running rq + 1 \<rparr>)"

text \<open>The scan of \<open>dequeue\<close> over the levels below \<open>n\<close>, highest first.\<close>

primrec rt_dequeue_from :: "heap \<Rightarrow> nat \<Rightarrow> nat \<Rightarrow> RtRunQueue \<Rightarrow> RtRunQueue" where
  "rt_dequeue_from h tid 0 rq = rq"
| "rt_dequeue_from h tid (Suc prio) rq =
     (if bitmap rq AND push_bit prio 1 = 0 then rt_dequeue_from h tid prio rq
      else
        (let q = queues rq ! prio
         in case position (\<lambda>t. task_id (h t) = tid) q of
              Some pos \<Rightarrow>
                let q' = remove_at pos q
                in rq\<lparr> queues := (queues rq)[prio := q'],
                       bitmap := (if q' = [] then bitmap rq AND NOT (push_bit prio 1) else bitmap rq),
                       rt_nr_running := sat_sub (rt_nr_running rq) 1 \<rparr>
            | None \<Rightarrow> rt_dequeue_from h tid prio rq))"

definition rt_dequeue :: "heap \<Rightarrow> RtRunQueue \<Rightarrow> taskref \<Rightarrow> RtRunQueue" where
  "rt_dequeue h rq task = rt_dequeue_from h (task_id (h task)) RT_PRIO_LEVELS rq"

definition is_rr :: "heap \<Rightarrow> taskref \<Rightarrow> bool" where
  "is_rr h task = (case policy (sched (h task)) of RoundRobin _ \<Rightarrow> True | _ \<Rightarrow> False)"

definition rt_pick_next :: "heap \<Rightarrow> RtRunQueue \<Rightarrow> (taskref option \<times> RtRunQueue) option" where
  "rt_pick_next h rq =
     (if bitmap rq = 0 then Some (None, rq)
      else do {
        let top_prio = 127 - leading_zeros (bitmap rq);
        q \<leftarrow> vec_get (queues rq) top_prio;
        case q of
          [] \<Rightarrow> Some (None, rq)
        | task # q' \<Rightarrow>
            if is_rr h task
            then Some (Some task, rq\<lparr> queues := (queues rq)[top_prio := q' @ [task]] \<rparr>)
            else Some (Some task,
                   rq\<lparr> queues := (queues rq)[top_prio := q'],
                       bitmap := (if q' = [] then bitmap rq AND NOT (push_bit top_prio 1)
                                  else bitmap rq),
                       rt_nr_running := sat_sub (rt_nr_running rq) 1 \<rparr>)
      })"

definition rt_tick :: "heap \<Rightarrow> taskref \<Rightarrow> u64 \<Rightarrow> heap \<times> bool" where
  "rt_tick h task elapsed_ns =
     (let t = h task; s = sched t
      in case policy s of
           RoundRobin _ \<Rightarrow>
             if elapsed_ns < rr_timeslice_remaining s
             then (h(task := t\<lparr> sched := s\<lparr> rr_timeslice_remaining :=
                                              rr_timeslice_remaining s - elapsed_ns \<rparr> \<rparr>), False)
             else (h(task := t\<lparr> sched := s\<lparr> rr_timeslice_remaining := RT_RR_TIMESLICE_NS \<rparr> \<rparr>), True)
         | _ \<Rightarrow> (h, False))"

section \<open>The invariant\<close>

text \<open>
  One list per level, the mask bit of a level is set exactly when its list is non-empty, and
  every task sits in the list of its own priority.  \<open>rt_count\<close> says that the counter equals the
  number of queued references.
\<close>

definition rt_inv :: "heap \<Rightarrow> RtRunQueue \<Rightarrow> bool" where
  "rt_inv h rq \<longleftrightarrow>
     length (queues rq) = RT_PRIO_LEVELS \<and>
     (\<forall>p. bit (bitmap rq) p \<longleftrightarrow> p < RT_PRIO_LEVELS \<and> queues rq ! p \<noteq> []) \<and>
     (\<forall>p < RT_PRIO_LEVELS. \<forall>t \<in> set (queues rq ! p). rt_prio h t = p)"

definition rt_tasks :: "RtRunQueue \<Rightarrow> taskref multiset" where
  "rt_tasks rq = mset (concat (queues rq))"

definition rt_count :: "RtRunQueue \<Rightarrow> bool" where
  "rt_count rq \<longleftrightarrow> unat (rt_nr_running rq) = size (rt_tasks rq)"

lemma rt_prio_bound: "rt_prio h t < RT_PRIO_LEVELS"
proof -
  have "clamp 0 99 (rt_priority (sched (h t))) \<le> 99"
    using clamp_bounds [of 0 "99 :: u8"] by simp
  then show ?thesis by (simp add: rt_prio_def RT_PRIO_LEVELS_def word_le_nat_alt)
qed

lemma mset_concat_update:
  "p < length qs \<Longrightarrow> mset (concat (qs[p := q])) + mset (qs ! p) = mset (concat qs) + mset q"
  by (induction qs arbitrary: p) (auto simp: nth_Cons' less_Suc_eq_0_disj ac_simps)

lemma bit_level: "p < RT_PRIO_LEVELS \<Longrightarrow> bit (2 ^ p :: u128) q \<longleftrightarrow> q = p"
  by (auto simp: bit_simps RT_PRIO_LEVELS_def)

lemma rt_inv_new: "rt_inv h rt_new"
  by (simp add: rt_inv_def rt_new_def RT_PRIO_LEVELS_def)

lemma rt_tasks_new [simp]: "rt_tasks rt_new = {#}"
  by (simp add: rt_new_def rt_tasks_def)

lemma rt_count_new: "rt_count rt_new"
  unfolding rt_count_def rt_tasks_new by (simp add: rt_new_def)

text \<open>Replacing the list of one level and its bit keeps the invariant.\<close>

lemma rt_inv_update:
  assumes inv: "rt_inv h rq" and p: "p < RT_PRIO_LEVELS"
    and q: "\<forall>t \<in> set q. rt_prio h t = p"
    and b: "\<And>i. bit b i \<longleftrightarrow> (if i = p then q \<noteq> [] else bit (bitmap rq) i)"
  shows "rt_inv h (rq\<lparr> queues := (queues rq)[p := q], bitmap := b, rt_nr_running := n \<rparr>)"
  using assms unfolding rt_inv_def by (auto simp: nth_list_update)

lemma rt_tasks_update:
  assumes "rt_inv h rq" and "p < RT_PRIO_LEVELS"
  shows "rt_tasks (rq\<lparr> queues := (queues rq)[p := q], bitmap := b, rt_nr_running := n \<rparr>)
           + mset (queues rq ! p) = rt_tasks rq + mset q"
  using assms mset_concat_update [of p "queues rq" q] by (simp add: rt_inv_def rt_tasks_def)

lemma rt_invD:
  assumes "rt_inv h rq"
  shows "length (queues rq) = RT_PRIO_LEVELS"
    and "bit (bitmap rq) p \<longleftrightarrow> p < RT_PRIO_LEVELS \<and> queues rq ! p \<noteq> []"
    and "p < RT_PRIO_LEVELS \<Longrightarrow> t \<in> set (queues rq ! p) \<Longrightarrow> rt_prio h t = p"
  using assms by (simp_all add: rt_inv_def)

lemma rt_queued_iff:
  assumes "rt_inv h rq"
  shows "t \<in># rt_tasks rq \<longleftrightarrow> t \<in> set (queues rq ! rt_prio h t)"
proof
  assume "t \<in># rt_tasks rq"
  then obtain q where q: "q \<in> set (queues rq)" "t \<in> set q" by (auto simp: rt_tasks_def)
  then obtain p where "p < RT_PRIO_LEVELS" "queues rq ! p = q"
    using rt_invD(1) [OF assms] by (metis in_set_conv_nth)
  with q rt_invD(3) [OF assms, of p t] show "t \<in> set (queues rq ! rt_prio h t)" by simp
next
  assume t: "t \<in> set (queues rq ! rt_prio h t)"
  have "queues rq ! rt_prio h t \<in> set (queues rq)"
    using rt_prio_bound [of h t] rt_invD(1) [OF assms] by simp
  with t show "t \<in># rt_tasks rq" by (auto simp: rt_tasks_def)
qed

section \<open>Enqueue and dequeue\<close>

lemma rt_enqueue_inv:
  assumes inv: "rt_inv h rq"
  shows "rt_inv h (rt_enqueue h rq t)"
proof -
  let ?p = "rt_prio h t"
  have "rt_inv h (rq\<lparr> queues := (queues rq)[?p := queues rq ! ?p @ [t]],
      bitmap := bitmap rq OR push_bit ?p 1, rt_nr_running := rt_nr_running rq + 1 \<rparr>)"
    using inv rt_prio_bound [of h t]
    by (intro rt_inv_update) (auto simp: bit_or_iff bit_level rt_inv_def)
  then show ?thesis by (simp add: rt_enqueue_def Let_def)
qed

lemma rt_enqueue_tasks:
  assumes inv: "rt_inv h rq"
  shows "rt_tasks (rt_enqueue h rq t) = add_mset t (rt_tasks rq)"
  using rt_tasks_update [where q = "queues rq ! rt_prio h t @ [t]" and n = "rt_nr_running rq + 1"
      and b = "bitmap rq OR push_bit (rt_prio h t) 1", OF inv rt_prio_bound [of h t]]
  by (simp add: rt_enqueue_def Let_def)

lemma rt_enqueue_count:
  assumes "rt_inv h rq" "rt_count rq" and "size (rt_tasks rq) + 1 < 2 ^ 64"
  shows "rt_count (rt_enqueue h rq t)"
  using assms unat_add_one [of "rt_nr_running rq"]
  by (simp add: rt_count_def rt_enqueue_tasks) (simp add: rt_enqueue_def Let_def)

text \<open>The scan reaches the level of the task and removes the first reference with its id.\<close>

lemma level_clear_iff:
  "p < RT_PRIO_LEVELS \<Longrightarrow> bitmap rq AND push_bit p 1 = 0 \<longleftrightarrow> \<not> bit (bitmap rq) p"
proof -
  assume "p < RT_PRIO_LEVELS"
  then have "bit (bitmap rq AND push_bit p 1) i \<longleftrightarrow> i = p \<and> bit (bitmap rq) p" for i
    by (auto simp: bit_and_iff bit_level)
  then show ?thesis by (auto simp: word_eq_0_iff_bits)
qed

lemma rt_dequeue_from_skip:
  assumes inv: "rt_inv h rq" and n: "n \<le> RT_PRIO_LEVELS"
    and none: "\<And>p u. p < n \<Longrightarrow> u \<in> set (queues rq ! p) \<Longrightarrow> task_id (h u) \<noteq> i"
  shows "rt_dequeue_from h i n rq = rq"
  using n none
proof (induction n)
  case (Suc n)
  then have "position (\<lambda>t. task_id (h t) = i) (queues rq ! n) = None"
    using Suc.prems(2) [of n] by (simp add: position_None)
  moreover have "rt_dequeue_from h i n rq = rq"
    using Suc.prems by (intro Suc.IH) (auto intro: less_SucI)
  ultimately show ?case by simp
qed simp

lemma rt_dequeue_from_hit:
  assumes inv: "rt_inv h rq" and p: "p < n" and n: "n \<le> RT_PRIO_LEVELS"
    and pos: "position (\<lambda>t. task_id (h t) = i) (queues rq ! p) = Some k"
    and above: "\<And>q u. p < q \<Longrightarrow> q < n \<Longrightarrow> u \<in> set (queues rq ! q) \<Longrightarrow> task_id (h u) \<noteq> i"
  shows "rt_dequeue_from h i n rq =
    (let q' = remove_at k (queues rq ! p)
     in rq\<lparr> queues := (queues rq)[p := q'],
            bitmap := (if q' = [] then bitmap rq AND NOT (push_bit p 1) else bitmap rq),
            rt_nr_running := sat_sub (rt_nr_running rq) 1 \<rparr>)"
  using p n above
proof (induction n)
  case (Suc n)
  show ?case
  proof (cases "p = n")
    case True
    have "queues rq ! p \<noteq> []" using pos by auto
    then have "bit (bitmap rq) p" using inv Suc.prems True by (simp add: rt_inv_def)
    then show ?thesis
      using Suc.prems(2) True pos level_clear_iff [of p rq] by (simp add: Let_def)
  next
    case False
    with Suc.prems have "position (\<lambda>t. task_id (h t) = i) (queues rq ! n) = None"
      using Suc.prems(3) [of n] by (simp add: position_None)
    with False Suc.prems Suc.IH show ?thesis by (simp add: less_Suc_eq)
  qed
qed simp

text \<open>Removing one reference from the list of a level, as \<open>dequeue\<close> and \<open>pick_next\<close> do.\<close>

definition rt_drop :: "nat \<Rightarrow> taskref list \<Rightarrow> RtRunQueue \<Rightarrow> RtRunQueue" where
  "rt_drop p q rq =
     rq\<lparr> queues := (queues rq)[p := q],
         bitmap := (if q = [] then bitmap rq AND NOT (push_bit p 1) else bitmap rq),
         rt_nr_running := sat_sub (rt_nr_running rq) 1 \<rparr>"

lemma rt_drop_spec:
  assumes inv: "rt_inv h rq" and p: "p < RT_PRIO_LEVELS"
    and q: "mset (queues rq ! p) = add_mset t (mset q)"
  shows "rt_inv h (rt_drop p q rq)" and "rt_tasks rq = add_mset t (rt_tasks (rt_drop p q rq))"
proof -
  have set: "set (queues rq ! p) = insert t (set q)" using mset_eq_setD [OF q [folded mset.simps]] by simp
  then have ne: "queues rq ! p \<noteq> []" by auto
  have "u \<in> set q \<Longrightarrow> rt_prio h u = p" for u using rt_invD(3) [OF inv p] set by simp
  moreover have "bit (if q = [] then bitmap rq AND NOT (push_bit p 1) else bitmap rq) i \<longleftrightarrow>
      (if i = p then q \<noteq> [] else bit (bitmap rq) i)" for i
    using p ne rt_invD(2) [OF inv, of i] RT_PRIO_LEVELS_def
    by (auto simp: bit_and_iff bit_not_iff bit_level)
  ultimately show "rt_inv h (rt_drop p q rq)"
    unfolding rt_drop_def by (intro rt_inv_update [OF inv p]) auto
  show "rt_tasks rq = add_mset t (rt_tasks (rt_drop p q rq))"
    using rt_tasks_update [where q = q, OF inv p] q by (simp add: rt_drop_def)
qed

lemma rt_drop_count:
  assumes "rt_inv h rq" "rt_count rq" "p < RT_PRIO_LEVELS" "mset (queues rq ! p) = add_mset t (mset q)"
  shows "rt_count (rt_drop p q rq)"
proof -
  have "rt_nr_running (rt_drop p q rq) = sat_sub (rt_nr_running rq) 1" by (simp add: rt_drop_def)
  then show ?thesis
    using assms(2) rt_drop_spec(2) [OF assms(1,3,4)] by (simp add: rt_count_def)
qed

lemma rt_dequeue_queued:
  assumes inv: "rt_inv h rq" and t: "t \<in># rt_tasks rq"
    and ids: "inj_on (\<lambda>u. task_id (h u)) (set_mset (rt_tasks rq))"
  obtains k where "k < length (queues rq ! rt_prio h t)" and "queues rq ! rt_prio h t ! k = t"
    and "rt_dequeue h rq t = rt_drop (rt_prio h t) (remove_at k (queues rq ! rt_prio h t)) rq"
proof -
  let ?p = "rt_prio h t"
  let ?P = "\<lambda>u. task_id (h u) = task_id (h t)"
  have mem: "t \<in> set (queues rq ! ?p)" using t rt_queued_iff [OF inv] by simp
  have same: "u = t" if "u \<in># rt_tasks rq" "?P u" for u
    using inj_onD [OF ids that(2)] that(1) t by simp
  have lev: "u \<in># rt_tasks rq" if "q < RT_PRIO_LEVELS" "u \<in> set (queues rq ! q)" for q u
    using that rt_queued_iff [OF inv, of u] rt_invD(3) [OF inv that] by simp
  from mem obtain k where k: "position ?P (queues rq ! ?p) = Some k"
    using position_None [of ?P "queues rq ! ?p"] by auto
  then have len: "k < length (queues rq ! ?p)" and "?P (queues rq ! ?p ! k)"
    by (simp_all add: position_Some)
  moreover have "queues rq ! ?p ! k \<in># rt_tasks rq"
    by (rule lev [OF rt_prio_bound [of h t]]) (use len in simp)
  ultimately have "queues rq ! ?p ! k = t" using same by blast
  moreover have "task_id (h u) \<noteq> task_id (h t)"
    if "?p < q" "q < RT_PRIO_LEVELS" "u \<in> set (queues rq ! q)" for q u
    using that same [OF lev, of q u] rt_invD(3) [OF inv that(2,3)] by auto
  then have "rt_dequeue h rq t = rt_drop ?p (remove_at k (queues rq ! ?p)) rq"
    using rt_dequeue_from_hit [OF inv rt_prio_bound order_refl k]
    by (simp add: rt_dequeue_def rt_drop_def Let_def)
  ultimately show thesis using len that by blast
qed

lemma rt_dequeue_spec:
  assumes inv: "rt_inv h rq" and t: "t \<in># rt_tasks rq"
    and ids: "inj_on (\<lambda>u. task_id (h u)) (set_mset (rt_tasks rq))"
  shows "rt_inv h (rt_dequeue h rq t)" and "rt_tasks rq = add_mset t (rt_tasks (rt_dequeue h rq t))"
    and "rt_count rq \<Longrightarrow> rt_count (rt_dequeue h rq t)"
proof -
  obtain k where k: "k < length (queues rq ! rt_prio h t)" "queues rq ! rt_prio h t ! k = t"
    and d: "rt_dequeue h rq t = rt_drop (rt_prio h t) (remove_at k (queues rq ! rt_prio h t)) rq"
    by (rule rt_dequeue_queued [OF inv t ids])
  have m: "mset (queues rq ! rt_prio h t) = add_mset t (mset (remove_at k (queues rq ! rt_prio h t)))"
    using mset_remove_at [OF k(1)] k(2) by simp
  show "rt_inv h (rt_dequeue h rq t)" and "rt_tasks rq = add_mset t (rt_tasks (rt_dequeue h rq t))"
    and "rt_count rq \<Longrightarrow> rt_count (rt_dequeue h rq t)"
    using rt_drop_spec [OF inv rt_prio_bound m] rt_drop_count [OF inv _ rt_prio_bound m]
    by (simp_all add: d)
qed

lemma rt_dequeue_absent:
  assumes inv: "rt_inv h rq" and "\<forall>u \<in># rt_tasks rq. task_id (h u) \<noteq> task_id (h t)"
  shows "rt_dequeue h rq t = rq"
  unfolding rt_dequeue_def
proof (rule rt_dequeue_from_skip [OF inv order_refl])
  fix p u assume "p < RT_PRIO_LEVELS" "u \<in> set (queues rq ! p)"
  then show "task_id (h u) \<noteq> task_id (h t)"
    using assms(2) rt_queued_iff [OF inv, of u] rt_invD(3) [OF inv, of p u] by simp
qed

section \<open>Picking\<close>

lemma rt_pick_next_empty: "rt_inv h rq \<Longrightarrow> bitmap rq = 0 \<Longrightarrow> rt_tasks rq = {#}"
proof -
  assume inv: "rt_inv h rq" and "bitmap rq = 0"
  then have "p < RT_PRIO_LEVELS \<Longrightarrow> queues rq ! p = []" for p using rt_invD(2) [OF inv, of p] by simp
  then have "t \<notin># rt_tasks rq" for t
    using rt_queued_iff [OF inv, of t] rt_prio_bound [of h t] by simp
  then show ?thesis by blast
qed

text \<open>The level that \<open>leading_zeros\<close> selects is the highest non-empty one.\<close>

lemma rt_top_level:
  assumes inv: "rt_inv h rq" and ne: "bitmap rq \<noteq> 0"
  obtains p where "127 - leading_zeros (bitmap rq) = p" and "p < RT_PRIO_LEVELS"
    and "queues rq ! p \<noteq> []" and "\<forall>q. p < q \<longrightarrow> q < RT_PRIO_LEVELS \<longrightarrow> queues rq ! q = []"
proof -
  obtain p where p: "bit (bitmap rq) p" "\<And>q. p < q \<Longrightarrow> \<not> bit (bitmap rq) q"
    using word_top_bit [OF ne] by blast
  have "leading_zeros (bitmap rq) = 128 - Suc p" using leading_zeros_top [OF p] by simp
  moreover have "p < RT_PRIO_LEVELS" "queues rq ! p \<noteq> []" using p(1) rt_invD(2) [OF inv, of p] by simp_all
  moreover have "queues rq ! q = []" if "p < q" "q < RT_PRIO_LEVELS" for q
    using p(2) [OF that(1)] rt_invD(2) [OF inv, of q] that(2) by simp
  ultimately show thesis using that [of p] by (simp add: RT_PRIO_LEVELS_def)
qed

definition rt_top :: "RtRunQueue \<Rightarrow> nat \<Rightarrow> bool" where
  "rt_top rq p \<longleftrightarrow> p < RT_PRIO_LEVELS \<and> queues rq ! p \<noteq> [] \<and>
     (\<forall>q. p < q \<longrightarrow> q < RT_PRIO_LEVELS \<longrightarrow> queues rq ! q = [])"

lemma rt_top_unique: "rt_top rq p \<Longrightarrow> rt_top rq q \<Longrightarrow> p = q"
  unfolding rt_top_def by (metis linorder_neqE_nat)

lemma rt_pick_next_top:
  assumes inv: "rt_inv h rq" and top: "rt_top rq p" and q: "queues rq ! p = t # q"
  shows "rt_pick_next h rq =
    Some (Some t, if is_rr h t then rq\<lparr> queues := (queues rq)[p := q @ [t]] \<rparr> else rt_drop p q rq)"
proof -
  have "bit (bitmap rq) p" using rt_invD(2) [OF inv, of p] top by (simp add: rt_top_def)
  then have ne: "bitmap rq \<noteq> 0" by auto
  obtain p' where p': "127 - leading_zeros (bitmap rq) = p'" "rt_top rq p'"
    using rt_top_level [OF inv ne] unfolding rt_top_def by metis
  have "p' = p" using rt_top_unique [OF p'(2) top] .
  then have "vec_get (queues rq) (127 - leading_zeros (bitmap rq)) = Some (t # q)"
    using q p' top rt_invD(1) [OF inv] by (simp add: vec_get_def rt_top_def)
  then show ?thesis
    using ne p'(1) \<open>p' = p\<close> by (simp add: rt_pick_next_def rt_drop_def)
qed

lemma rt_pick_next_cases:
  assumes inv: "rt_inv h rq"
  obtains (none) "rt_tasks rq = {#}" "rt_pick_next h rq = Some (None, rq)"
  | (some) p t q where "rt_top rq p" "queues rq ! p = t # q"
      "rt_pick_next h rq =
        Some (Some t, if is_rr h t then rq\<lparr> queues := (queues rq)[p := q @ [t]] \<rparr> else rt_drop p q rq)"
proof (cases "bitmap rq = 0")
  case True
  then show ?thesis using none rt_pick_next_empty [OF inv] by (simp add: rt_pick_next_def)
next
  case False
  then obtain p where p: "rt_top rq p" using rt_top_level [OF inv] unfolding rt_top_def by metis
  then obtain t q where "queues rq ! p = t # q" by (metis rt_top_def list.exhaust)
  with p show ?thesis using some rt_pick_next_top [OF inv] by blast
qed

lemma rt_rotate_spec:
  assumes inv: "rt_inv h rq" and p: "p < RT_PRIO_LEVELS" and q: "mset q = mset (queues rq ! p)"
  shows "rt_inv h (rq\<lparr> queues := (queues rq)[p := q] \<rparr>)"
    and "rt_tasks (rq\<lparr> queues := (queues rq)[p := q] \<rparr>) = rt_tasks rq"
proof -
  have "set q = set (queues rq ! p)" using mset_eq_setD [OF q] .
  then have "\<forall>u \<in> set q. rt_prio h u = p" and "q = [] \<longleftrightarrow> queues rq ! p = []"
    using rt_invD(3) [OF inv p] by (simp, metis set_empty)
  then have "rt_inv h (rq\<lparr> queues := (queues rq)[p := q], bitmap := bitmap rq,
      rt_nr_running := rt_nr_running rq \<rparr>)"
    using rt_invD(2) [OF inv, of p] p by (intro rt_inv_update [OF inv p]) auto
  then show "rt_inv h (rq\<lparr> queues := (queues rq)[p := q] \<rparr>)" by simp
  show "rt_tasks (rq\<lparr> queues := (queues rq)[p := q] \<rparr>) = rt_tasks rq"
    using rt_tasks_update [where q = q and b = "bitmap rq" and n = "rt_nr_running rq", OF inv p] q
    by simp
qed

lemma rt_top_prio: "rt_inv h rq \<Longrightarrow> rt_top rq p \<Longrightarrow> u \<in># rt_tasks rq \<Longrightarrow> rt_prio h u \<le> p"
  using rt_queued_iff [of h rq u] rt_prio_bound [of h u]
  by (metis empty_iff list.set(1) not_le rt_top_def)

lemma rt_pick_next_spec:
  assumes inv: "rt_inv h rq" and pick: "rt_pick_next h rq = Some (Some t, rq')"
  shows "t \<in># rt_tasks rq" and "\<forall>u \<in># rt_tasks rq. rt_prio h u \<le> rt_prio h t"
    and "rt_tasks rq' = (if is_rr h t then rt_tasks rq else rt_tasks rq - {# t #})"
    and "rt_inv h rq'"
proof -
  obtain p q where top: "rt_top rq p" and q: "queues rq ! p = t # q"
    and rq': "rq' = (if is_rr h t then rq\<lparr> queues := (queues rq)[p := q @ [t]] \<rparr> else rt_drop p q rq)"
    using inv pick by (cases rule: rt_pick_next_cases) auto
  have p: "p < RT_PRIO_LEVELS" using top by (simp add: rt_top_def)
  then have prio: "rt_prio h t = p" using rt_invD(3) [OF inv p, of t] q by simp
  then show "t \<in># rt_tasks rq" using rt_queued_iff [OF inv, of t] q by simp
  show "\<forall>u \<in># rt_tasks rq. rt_prio h u \<le> rt_prio h t" using rt_top_prio [OF inv top] prio by simp
  have m: "mset (queues rq ! p) = add_mset t (mset q)" "mset (q @ [t]) = mset (queues rq ! p)"
    using q by simp_all
  show "rt_tasks rq' = (if is_rr h t then rt_tasks rq else rt_tasks rq - {# t #})"
    using rt_rotate_spec(2) [OF inv p m(2)] rt_drop_spec(2) [OF inv p m(1)] rq' by simp
  show "rt_inv h rq'"
    using rt_rotate_spec(1) [OF inv p m(2)] rt_drop_spec(1) [OF inv p m(1)] rq' by simp
qed

interpretation rt_q: class_queue rt_tasks "\<lambda>h q. set_mset (rt_tasks q)"
  "\<lambda>h q t u. rt_prio h u \<le> rt_prio h t" "\<lambda>h q. the (rt_pick_next h q)" rt_inv
proof
  fix h rq t rq'
  assume inv: "rt_inv h rq"
  have total: "the (rt_pick_next h rq) = r \<Longrightarrow> rt_pick_next h rq = Some r" for r
    using inv by (cases rule: rt_pick_next_cases) auto
  show "the (rt_pick_next h rq) = (None, rq') \<Longrightarrow> set_mset (rt_tasks rq) = {} \<and> rt_tasks rq' = rt_tasks rq"
    using inv by (cases rule: rt_pick_next_cases) auto
  show "rt_inv h (snd (the (rt_pick_next h rq)))"
  proof (cases "the (rt_pick_next h rq)")
    case (Pair r rq'')
    with inv total [OF Pair] rt_pick_next_spec(4) [OF inv] show ?thesis
      by (cases r) (use inv in \<open>cases rule: rt_pick_next_cases, auto\<close>)
  qed
  assume p: "the (rt_pick_next h rq) = (Some t, rq')"
  show "t \<in> set_mset (rt_tasks rq) \<and> (\<forall>u \<in> set_mset (rt_tasks rq). rt_prio h u \<le> rt_prio h t)"
    using rt_pick_next_spec(1,2) [OF inv total [OF p]] by simp
  show "rt_tasks rq = add_mset t (rt_tasks rq') \<or> rt_tasks rq' = rt_tasks rq"
    using rt_pick_next_spec(1,3) [OF inv total [OF p]] by simp
qed simp

section \<open>Reachable queues\<close>

text \<open>
  The queues that the operations produce from \<open>RtRunQueue::new\<close>, with ticks of the running task
  interleaved.  Distinct tasks have distinct ids; the counter bound is the size of \<open>usize\<close>.
\<close>

inductive rt_reach :: "heap \<Rightarrow> RtRunQueue \<Rightarrow> bool" where
  rt_new: "rt_reach h rt_new"
| rt_enqueue: "rt_reach h rq \<Longrightarrow> ids_unique h (insert t (set_mset (rt_tasks rq))) \<Longrightarrow>
    size (rt_tasks rq) + 1 < 2 ^ 64 \<Longrightarrow> rt_reach h (rt_enqueue h rq t)"
| rt_dequeue: "rt_reach h rq \<Longrightarrow> ids_unique h (insert t (set_mset (rt_tasks rq))) \<Longrightarrow>
    rt_reach h (rt_dequeue h rq t)"
| rt_pick: "rt_reach h rq \<Longrightarrow> rt_pick_next h rq = Some (r, rq') \<Longrightarrow> rt_reach h rq'"
| rt_tick: "rt_reach h rq \<Longrightarrow> rt_tick h t e = (h', b) \<Longrightarrow> rt_reach h' rq"

lemma rt_tick_frame:
  "rt_tick h t e = (h', b) \<Longrightarrow> task_id (h' u) = task_id (h u) \<and>
     rt_priority (sched (h' u)) = rt_priority (sched (h u)) \<and> policy (sched (h' u)) = policy (sched (h u))"
  by (cases "policy (sched (h t))") (auto simp: rt_tick_def Let_def split: if_splits)

lemma rt_dequeue_cases:
  assumes "ids_unique h (insert t (set_mset (rt_tasks rq)))"
  shows "t \<in># rt_tasks rq \<or> (\<forall>u \<in># rt_tasks rq. task_id (h u) \<noteq> task_id (h t))"
proof (rule ccontr)
  assume "\<not> ?thesis"
  then obtain u where u: "u \<in># rt_tasks rq" "task_id (h u) = task_id (h t)" "t \<notin># rt_tasks rq" by blast
  then have "u = t" using inj_onD [OF assms [unfolded ids_unique_def], of u t] by simp
  with u show False by simp
qed

lemma rt_pick_next_count:
  assumes inv: "rt_inv h rq" and "rt_count rq" and "rt_pick_next h rq = Some (r, rq')"
  shows "rt_count rq'"
  using inv assms(3)
proof (cases rule: rt_pick_next_cases)
  case none
  then show ?thesis using assms by simp
next
  case (some p t q)
  have p: "p < RT_PRIO_LEVELS" using some(1) by (simp add: rt_top_def)
  have m: "mset (queues rq ! p) = add_mset t (mset q)" "mset (q @ [t]) = mset (queues rq ! p)"
    using some(2) by simp_all
  show ?thesis
    using rt_rotate_spec(2) [OF inv p m(2)] rt_drop_count [OF inv assms(2) p m(1)] some(3) assms(2,3)
    by (simp add: rt_count_def split: if_splits)
qed

lemma rt_pick_next_inv: "rt_inv h rq \<Longrightarrow> rt_pick_next h rq = Some (r, rq') \<Longrightarrow> rt_inv h rq'"
  using rt_q.pick_inv [of h rq] by simp

lemma rt_pick_next_queued:
  "rt_inv h rq \<Longrightarrow> rt_pick_next h rq = Some (r, rq') \<Longrightarrow> set_mset (rt_tasks rq') \<subseteq> set_mset (rt_tasks rq)"
  using rt_q.pick_no_new_tasks [of h rq] by (simp add: set_mset_mono)

lemma rt_reach_inv:
  "rt_reach h rq \<Longrightarrow> rt_inv h rq \<and> rt_count rq \<and> ids_unique h (set_mset (rt_tasks rq))"
proof (induction rule: rt_reach.induct)
  case (rt_new h)
  then show ?case by (simp add: rt_inv_new rt_count_new ids_unique_def)
next
  case (rt_enqueue h rq t)
  then show ?case by (simp add: rt_enqueue_inv rt_enqueue_count rt_enqueue_tasks)
next
  case (rt_dequeue h rq t)
  note I = rt_dequeue.IH
  from rt_dequeue_cases [OF rt_dequeue.hyps(2)] show ?case
  proof
    assume t: "t \<in># rt_tasks rq"
    have inv: "rt_inv h rq" and ids: "ids_unique h (set_mset (rt_tasks rq))" using I by simp_all
    note S = rt_dequeue_spec [OF inv t ids [unfolded ids_unique_def]]
    have "set_mset (rt_tasks (rt_dequeue h rq t)) \<subseteq> set_mset (rt_tasks rq)"
      using S(2) by (metis diff_subset_eq_self add_mset_remove_trivial set_mset_mono)
    from ids_unique_mono [OF ids this] show ?thesis using S(1,3) I by blast
  next
    assume "\<forall>u \<in># rt_tasks rq. task_id (h u) \<noteq> task_id (h t)"
    then show ?thesis using I rt_dequeue_absent [of h rq t] by simp
  qed
next
  case (rt_pick h rq r rq')
  then have inv: "rt_inv h rq" and cnt: "rt_count rq" and ids: "ids_unique h (set_mset (rt_tasks rq))"
    by simp_all
  note P = rt_pick.hyps(2)
  show ?case
    using rt_pick_next_inv [OF inv P] rt_pick_next_count [OF inv cnt P]
      ids_unique_mono [OF ids rt_pick_next_queued [OF inv P]] by simp
next
  case (rt_tick h rq t e h' b)
  have "rt_prio h' = rt_prio h" "(\<lambda>t. task_id (h' t)) = (\<lambda>t. task_id (h t))"
    using rt_tick_frame [OF rt_tick.hyps(2)] by (simp_all add: fun_eq_iff rt_prio_def)
  with rt_tick.IH show ?case by (simp add: rt_inv_def ids_unique_def)
qed

section \<open>Round-robin rotation\<close>

text \<open>\<open>n\<close> successive picks and the tasks they return.\<close>

primrec rt_picks :: "heap \<Rightarrow> nat \<Rightarrow> RtRunQueue \<Rightarrow> (taskref option list \<times> RtRunQueue) option" where
  "rt_picks h 0 rq = Some ([], rq)"
| "rt_picks h (Suc n) rq =
     do { (t, rq1) \<leftarrow> rt_pick_next h rq; (ts, rq2) \<leftarrow> rt_picks h n rq1; Some (t # ts, rq2) }"

lemma rt_picks_rotate:
  assumes "rt_inv h rq" and "rt_top rq p" and "\<forall>t \<in> set (queues rq ! p). is_rr h t"
  shows "rt_picks h n rq =
    Some (map (\<lambda>i. Some (hd (rotate i (queues rq ! p)))) [0..<n],
          rq\<lparr> queues := (queues rq)[p := rotate n (queues rq ! p)] \<rparr>)"
  using assms
proof (induction n arbitrary: rq)
  case 0
  then show ?case by simp
next
  case (Suc n)
  obtain t q where q: "queues rq ! p = t # q" using Suc.prems(2) by (metis list.exhaust rt_top_def)
  let ?rq = "rq\<lparr> queues := (queues rq)[p := q @ [t]] \<rparr>"
  have p: "p < RT_PRIO_LEVELS" "p < length (queues rq)"
    using Suc.prems(2) rt_invD(1) [OF Suc.prems(1)] by (simp_all add: rt_top_def)
  have pick: "rt_pick_next h rq = Some (Some t, ?rq)"
    using rt_pick_next_top [OF Suc.prems(1,2) q] Suc.prems(3) q by simp
  have "rt_inv h ?rq" using rt_rotate_spec(1) [OF Suc.prems(1) p(1)] q by simp
  moreover have "rt_top ?rq p" using Suc.prems(2) p by (simp add: rt_top_def)
  moreover have "\<forall>t \<in> set (queues ?rq ! p). is_rr h t" using Suc.prems(3) p q by auto
  ultimately have IH: "rt_picks h n ?rq =
      Some (map (\<lambda>i. Some (hd (rotate i (q @ [t])))) [0..<n], rq\<lparr> queues := (queues rq)[p := rotate n (q @ [t])] \<rparr>)"
    using Suc.IH [of ?rq] p by simp
  have "rotate i (q @ [t]) = rotate (Suc i) (t # q)" for i
    by (simp add: rotate1_rotate_swap)
  moreover have "[0..<Suc n] = 0 # map Suc [0..<n]" by (simp add: map_Suc_upt upt_conv_Cons)
  ultimately show ?case using pick IH q by simp
qed

section \<open>Correctness of the real-time queue\<close>

text \<open>
  C16: On every reachable real-time queue \<open>pick_next\<close> returns without a panic.  It returns
  nothing only from an empty queue; otherwise it returns the task at the front of the highest
  non-empty priority level, removes it from that level when it is \<open>SCHED_FIFO\<close>, moves it to the
  back of that level when it is \<open>SCHED_RR\<close>, and leaves every other level alone.
\<close>

theorem rt_pick_next_correct:
  assumes reach: "rt_reach h rq"
  shows "\<exists>r rq'. rt_pick_next h rq = Some (r, rq') \<and>
    (case r of
       None \<Rightarrow> rt_tasks rq = {#} \<and> rq' = rq
     | Some t \<Rightarrow>
         (\<forall>u \<in># rt_tasks rq. rt_prio h u \<le> rt_prio h t) \<and>
         (\<exists>q. queues rq ! rt_prio h t = t # q \<and>
              queues rq' = (queues rq)[rt_prio h t := q @ (if is_rr h t then [t] else [])]) \<and>
         unat (rt_nr_running rq') = size (rt_tasks rq'))"
proof -
  have inv: "rt_inv h rq" and cnt: "rt_count rq" using rt_reach_inv [OF reach] by simp_all
  show ?thesis using inv
  proof (cases rule: rt_pick_next_cases)
    case none
    then show ?thesis by simp
  next
    case (some p t q)
    have p: "rt_prio h t = p"
      using rt_invD(3) [OF inv, of p t] some(1,2) by (simp add: rt_top_def)
    have "queues (if is_rr h t then rq\<lparr> queues := (queues rq)[p := q @ [t]] \<rparr> else rt_drop p q rq)
        = (queues rq)[p := q @ (if is_rr h t then [t] else [])]" by (simp add: rt_drop_def)
    with some p rt_top_prio [OF inv some(1)] rt_pick_next_count [OF inv cnt some(3)] show ?thesis
      by (simp add: rt_count_def)
  qed
qed

text \<open>
  C17: \<open>SCHED_RR\<close> is fair.  When the highest non-empty level of a reachable queue holds only
  round-robin tasks, the i-th of any number of successive picks returns the task at position
  \<open>i mod n\<close> of that level, where n is its length: every task runs once in each n picks.
\<close>

theorem rt_round_robin_fair:
  assumes "rt_reach h rq" and "rt_top rq p" and "\<forall>t \<in> set (queues rq ! p). is_rr h t"
  shows "map_option fst (rt_picks h n rq) =
    Some (map (\<lambda>i. Some (queues rq ! p ! (i mod length (queues rq ! p)))) [0..<n])"
proof -
  have "queues rq ! p \<noteq> []" using assms(2) by (simp add: rt_top_def)
  then show ?thesis
    using rt_picks_rotate [OF _ assms(2,3)] rt_reach_inv [OF assms(1)]
    by (simp add: hd_rotate_conv_nth)
qed

text \<open>
  Dequeueing a task right after it was enqueued restores the real-time queue exactly (lists,
  bit mask and counter), whenever no queued task carries its id.
\<close>

theorem rt_enqueue_dequeue_roundtrip:
  assumes reach: "rt_reach h rq" and new: "\<forall>u \<in># rt_tasks rq. task_id (h u) \<noteq> task_id (h t)"
    and room: "size (rt_tasks rq) + 1 < 2 ^ 64"
  shows "rt_dequeue h (rt_enqueue h rq t) t = rq"
proof -
  let ?p = "rt_prio h t" and ?q = "queues rq ! rt_prio h t" and ?rq = "rt_enqueue h rq t"
  have inv: "rt_inv h rq" and cnt: "rt_count rq" and ids: "ids_unique h (set_mset (rt_tasks rq))"
    using rt_reach_inv [OF reach] by simp_all
  have inv': "rt_inv h ?rq" and tasks: "rt_tasks ?rq = add_mset t (rt_tasks rq)"
    using rt_enqueue_inv [OF inv] rt_enqueue_tasks [OF inv] by simp_all
  have len: "?p < length (queues rq)" using rt_invD(1) [OF inv] rt_prio_bound [of h t] by simp
  have q: "queues ?rq ! ?p = ?q @ [t]" using len by (simp add: rt_enqueue_def Let_def)
  have "\<forall>u \<in> set ?q. task_id (h u) \<noteq> task_id (h t)"
    using new rt_queued_iff [OF inv] rt_invD(3) [OF inv rt_prio_bound [of h t]] by metis
  then have pos: "position (\<lambda>u. task_id (h u) = task_id (h t)) (queues ?rq ! ?p) = Some (length ?q)"
    unfolding q by (intro position_append_new) auto
  have "task_id (h u) \<noteq> task_id (h t)"
    if "?p < q" "q < RT_PRIO_LEVELS" "u \<in> set (queues ?rq ! q)" for q u
    using that new rt_queued_iff [OF inv, of u] rt_invD(3) [OF inv that(2), of u]
    by (simp add: rt_enqueue_def Let_def)
  then have d: "rt_dequeue h ?rq t = rt_drop ?p ?q ?rq"
    using rt_dequeue_from_hit [OF inv' rt_prio_bound order_refl pos] q
    by (simp add: rt_dequeue_def rt_drop_def Let_def)
  have "unat (rt_nr_running rq) + 1 < 2 ^ 64" using cnt room by (simp add: rt_count_def)
  then have n: "sat_sub (rt_nr_running rq + 1) 1 = rt_nr_running rq"
    by (simp add: word_unat_eq_iff unat_add_one)
  have "bit (if ?q = [] then (bitmap rq OR push_bit ?p 1) AND NOT (push_bit ?p 1)
      else bitmap rq OR push_bit ?p 1) i = bit (bitmap rq) i" for i
    using rt_invD(2) [OF inv, of i] rt_prio_bound [of h t]
    by (auto simp: bit_and_iff bit_or_iff bit_not_iff bit_level RT_PRIO_LEVELS_def)
  then have b: "(if ?q = [] then (bitmap rq OR push_bit ?p 1) AND NOT (push_bit ?p 1)
      else bitmap rq OR push_bit ?p 1) = bitmap rq"
    by (intro bit_word_eqI) simp
  show ?thesis
    unfolding d using n b
    by (cases "?q = []")
      (simp_all add: rt_drop_def rt_enqueue_def Let_def list_update_same_conv len del: push_bit_of_1)
qed

text \<open>A tick of a round-robin task, on its remaining slice only.\<close>

lemma rt_tick_rr:
  assumes "policy (sched (h t)) = RoundRobin x"
  shows "policy (sched (fst (rt_tick h t e) t)) = RoundRobin x"
    and "rr_timeslice_remaining (sched (fst (rt_tick h t e) t)) =
           (if e < rr_timeslice_remaining (sched (h t)) then rr_timeslice_remaining (sched (h t)) - e
            else RT_RR_TIMESLICE_NS)"
    and "snd (rt_tick h t e) \<longleftrightarrow> rr_timeslice_remaining (sched (h t)) \<le> e"
  using assms by (auto simp: rt_tick_def Let_def)

lemma rt_ticks_rr:
  assumes "policy (sched (h t)) = RoundRobin x"
    and "k * unat e < unat (rr_timeslice_remaining (sched (h t)))"
  shows "policy (sched (((\<lambda>h. fst (rt_tick h t e)) ^^ k) h t)) = RoundRobin x \<and>
    unat (rr_timeslice_remaining (sched (((\<lambda>h. fst (rt_tick h t e)) ^^ k) h t))) =
      unat (rr_timeslice_remaining (sched (h t))) - k * unat e"
  using assms(2)
proof (induction k)
  case 0
  then show ?case using assms(1) by simp
next
  case (Suc k)
  let ?h = "((\<lambda>h. fst (rt_tick h t e)) ^^ k) h"
  have IH: "policy (sched (?h t)) = RoundRobin x"
    "unat (rr_timeslice_remaining (sched (?h t))) = unat (rr_timeslice_remaining (sched (h t))) - k * unat e"
    using Suc by simp_all
  with Suc.prems have "e < rr_timeslice_remaining (sched (?h t))"
    by (simp add: word_less_nat_alt)
  then show ?case
    using rt_tick_rr [of ?h t x e, OF IH(1)] IH(2) by (simp add: unat_sub)
qed

text \<open>
  The \<open>SCHED_RR\<close> time slice is accounted exactly.  While k ticks of \<open>e\<close> nanoseconds do not
  use up the slice, they preempt nothing and leave the slice shorter by \<open>k e\<close>; the next tick
  asks for preemption exactly when it uses the slice up, and then grants a fresh one.
\<close>

theorem rt_tick_slice:
  assumes "policy (sched (h t)) = RoundRobin x"
    and "k * unat e < unat (rr_timeslice_remaining (sched (h t)))"
    and "h' = ((\<lambda>h. fst (rt_tick h t e)) ^^ k) h"
  shows "unat (rr_timeslice_remaining (sched (h' t))) =
      unat (rr_timeslice_remaining (sched (h t))) - k * unat e \<and>
    (snd (rt_tick h' t e) \<longleftrightarrow> unat (rr_timeslice_remaining (sched (h t))) \<le> (k + 1) * unat e) \<and>
    (snd (rt_tick h' t e) \<longrightarrow>
      rr_timeslice_remaining (sched (fst (rt_tick h' t e) t)) = RT_RR_TIMESLICE_NS)"
proof -
  have p: "policy (sched (h' t)) = RoundRobin x"
    and r: "unat (rr_timeslice_remaining (sched (h' t))) =
      unat (rr_timeslice_remaining (sched (h t))) - k * unat e"
    using rt_ticks_rr [of h t x k e, OF assms(1,2)] by (simp_all add: assms(3))
  have "snd (rt_tick h' t e) \<longleftrightarrow> unat (rr_timeslice_remaining (sched (h t))) \<le> (k + 1) * unat e"
    using rt_tick_rr(3) [of h' t x e, OF p] r by (simp add: word_le_nat_alt) arith
  moreover have "snd (rt_tick h' t e) \<longrightarrow>
      rr_timeslice_remaining (sched (fst (rt_tick h' t e) t)) = RT_RR_TIMESLICE_NS"
    using rt_tick_rr(2,3) [of h' t x e, OF p] by (simp add: leD)
  ultimately show ?thesis using r by simp
qed

section \<open>Witnesses\<close>

definition rt_ex_heap :: heap where
  "rt_ex_heap = (\<lambda>i. (Task_new i ''rt'')\<lparr> sched := TaskSchedInfo_default
     \<lparr> policy := RoundRobin 100000000, rt_priority := of_nat (if i < 5 then 10 else 20) \<rparr> \<rparr>)"

definition rt_ex_rq :: RtRunQueue where
  "rt_ex_rq = rt_enqueue rt_ex_heap (rt_enqueue rt_ex_heap rt_new 6) 7"

lemma rt_ex_prio: "rt_prio rt_ex_heap i = (if i < 5 then 10 else 20)"
  by (simp add: rt_prio_def rt_ex_heap_def clamp_def)

lemma rt_ex_rr: "is_rr rt_ex_heap i"
  by (simp add: is_rr_def rt_ex_heap_def)

lemma rt_ex_ids: "ids_unique rt_ex_heap T"
  by (simp add: ids_unique_def inj_on_def rt_ex_heap_def Task_new_def)

lemma rt_ex_reach: "rt_reach rt_ex_heap rt_ex_rq"
  unfolding rt_ex_rq_def
  by (intro rt_reach.rt_enqueue rt_reach.rt_new rt_ex_ids)
    (simp_all add: rt_enqueue_tasks [OF rt_inv_new])

lemma rt_ex_queues: "queues rt_ex_rq ! 20 = [6, 7]" "p \<noteq> 20 \<Longrightarrow> p < RT_PRIO_LEVELS \<Longrightarrow> queues rt_ex_rq ! p = []"
  by (simp_all add: rt_ex_rq_def rt_enqueue_def rt_ex_prio rt_new_def RT_PRIO_LEVELS_def)

lemma rt_ex_tasks: "rt_tasks rt_ex_rq = {# 6, 7 #}"
  unfolding rt_ex_rq_def
  by (simp add: rt_enqueue_tasks rt_enqueue_inv rt_inv_new add_mset_commute)

lemma rt_ex_top: "rt_top rt_ex_rq 20"
  using rt_ex_queues by (simp add: rt_top_def RT_PRIO_LEVELS_def)

theorem rt_pick_next_correct_witness:
  "rt_reach rt_ex_heap rt_ex_rq \<and> (\<exists>r rq'. rt_pick_next rt_ex_heap rt_ex_rq = Some (r, rq') \<and> r \<noteq> None)"
  using rt_pick_next_correct [OF rt_ex_reach] rt_ex_reach
  by (auto simp: rt_ex_tasks split: option.splits)

theorem rt_round_robin_fair_witness:
  "map_option fst (rt_picks rt_ex_heap 3 rt_ex_rq) = Some [Some 6, Some 7, Some 6]"
  using rt_round_robin_fair [OF rt_ex_reach rt_ex_top, of 3] rt_ex_rr
  by (simp add: rt_ex_queues upt_rec)

theorem rt_enqueue_dequeue_roundtrip_witness:
  "rt_dequeue rt_ex_heap (rt_enqueue rt_ex_heap rt_ex_rq 3) 3 = rt_ex_rq"
  by (rule rt_enqueue_dequeue_roundtrip [OF rt_ex_reach])
    (simp_all add: rt_ex_tasks rt_ex_heap_def Task_new_def)

theorem rt_tick_slice_witness:
  "unat (rr_timeslice_remaining (sched (((\<lambda>h. fst (rt_tick h 6 30000000)) ^^ 3) rt_ex_heap 6))) = 10000000
   \<and> snd (rt_tick (((\<lambda>h. fst (rt_tick h 6 30000000)) ^^ 3) rt_ex_heap) 6 30000000)"
proof -
  have p: "policy (sched (rt_ex_heap 6)) = RoundRobin 100000000"
    and r: "unat (rr_timeslice_remaining (sched (rt_ex_heap 6))) = 100000000"
    by (simp_all add: rt_ex_heap_def TaskSchedInfo_default_def)
  then show ?thesis
    using rt_tick_slice [of rt_ex_heap 6 "100000000" 3 30000000, OF p] by simp
qed

end
