(* ===== verification/Deadline_Bw.thy ===== *)
theory Deadline_Bw
  imports Mks_Params
begin

text \<open>
  The system-wide deadline bandwidth of \<open>kernel/mks/src/deadline.rs\<close>: parameter validation, and
  the lock-free admission loop on \<open>GLOBAL_DL_BANDWIDTH\<close>.  The loop is modelled twice: as the
  function one CPU computes when it runs alone, and as a step relation in which any number of
  CPUs interleave their loads and compare-and-swaps.
\<close>

section \<open>Validation and sequential admission\<close>

definition MAX_BW :: u64 where
  "MAX_BW = SCHED_DL_BANDWIDTH_NUM * 1000000 div SCHED_DL_BANDWIDTH_DEN"

datatype dl_param_error =
  PeriodZero | RuntimeZero | DeadlineAbovePeriod | RuntimeAboveDeadline | PeriodTooShort

definition validate_dl_params :: "u64 \<Rightarrow> u64 \<Rightarrow> u64 \<Rightarrow> dl_param_error + unit" where
  "validate_dl_params runtime deadline period =
     (if period = 0 then Inl PeriodZero
      else if runtime = 0 then Inl RuntimeZero
      else if period < deadline then Inl DeadlineAbovePeriod
      else if deadline < runtime then Inl RuntimeAboveDeadline
      else if period < 1000000 then Inl PeriodTooShort
      else Inr ())"

text \<open>The outer \<open>None\<close> is the panic of the division by a zero period.\<close>

definition contribution :: "u64 \<Rightarrow> u64 \<Rightarrow> u64 option" where
  "contribution runtime period = (if period = 0 then None else Some (runtime * 1000000 div period))"

definition admit_bandwidth :: "u64 \<Rightarrow> u64 \<Rightarrow> u64 \<Rightarrow> (u64 option \<times> u64) option" where
  "admit_bandwidth runtime period global =
     do {
       c \<leftarrow> contribution runtime period;
       if MAX_BW < global + c then Some (None, global) else Some (Some c, global + c)
     }"

definition release_bandwidth :: "u64 \<Rightarrow> u64 \<Rightarrow> u64" where
  "release_bandwidth c global = global - c"

definition bandwidth_utilization_permille :: "u64 \<Rightarrow> u64" where
  "bandwidth_utilization_permille global = global * 1000 div max MAX_BW 1"

datatype DlOverrunAction = Throttle | Kill | WarnAndContinue

definition DlOverrunAction_default :: DlOverrunAction where
  "DlOverrunAction_default = Throttle"

section \<open>Interleaved admission\<close>

text \<open>
  A caller is about to load the counter, has loaded it and is about to compare-and-swap, has
  been admitted (and holds its contribution until it releases it) or has been refused.
\<close>

datatype bw_caller =
    AtLoad (want: u64)
  | AtCas (want: u64) (seen: u64)
  | Admitted (want: u64)
  | Refused
  | Released

inductive bw_step :: "u64 \<times> bw_caller list \<Rightarrow> u64 \<times> bw_caller list \<Rightarrow> bool" where
  load_refuse: "i < length cs \<Longrightarrow> cs ! i = AtLoad c \<Longrightarrow> MAX_BW < g + c \<Longrightarrow>
    bw_step (g, cs) (g, cs[i := Refused])"
| load_ok: "i < length cs \<Longrightarrow> cs ! i = AtLoad c \<Longrightarrow> \<not> MAX_BW < g + c \<Longrightarrow>
    bw_step (g, cs) (g, cs[i := AtCas c g])"
| cas_ok: "i < length cs \<Longrightarrow> cs ! i = AtCas c v \<Longrightarrow> g = v \<Longrightarrow>
    bw_step (g, cs) (v + c, cs[i := Admitted c])"
| cas_retry: "i < length cs \<Longrightarrow> cs ! i = AtCas c v \<Longrightarrow>
    bw_step (g, cs) (g, cs[i := AtLoad c])"
| release: "i < length cs \<Longrightarrow> cs ! i = Admitted c \<Longrightarrow>
    bw_step (g, cs) (release_bandwidth c g, cs[i := Released])"

text \<open>\<open>cas_retry\<close> does not ask that the values differ: \<open>compare_exchange_weak\<close> may fail spuriously.\<close>

definition held :: "bw_caller \<Rightarrow> nat" where
  "held c = (case c of Admitted w \<Rightarrow> unat w | _ \<Rightarrow> 0)"

definition total_held :: "bw_caller list \<Rightarrow> nat" where
  "total_held cs = sum_list (map held cs)"

text \<open>
  A contribution of a task whose parameters pass \<open>validate_dl_params\<close> cannot make the sum wrap,
  because the period is at least \<open>10^6\<close>; \<open>small\<close> is that bound.
\<close>

definition small :: "bw_caller \<Rightarrow> bool" where
  "small c = (case c of AtLoad w \<Rightarrow> unat w \<le> 2 ^ 63 | AtCas w v \<Rightarrow> unat w \<le> 2 ^ 63 \<and> v + w \<le> MAX_BW \<and> v \<le> MAX_BW
     | _ \<Rightarrow> True)"

definition bw_inv :: "u64 \<times> bw_caller list \<Rightarrow> bool" where
  "bw_inv s \<longleftrightarrow> (case s of (g, cs) \<Rightarrow> total_held cs = unat g \<and> g \<le> MAX_BW \<and> list_all small cs)"

lemma MAX_BW_eq: "MAX_BW = 950000"
  by (simp add: MAX_BW_def sched_consts)

lemma contribution_small:
  assumes "validate_dl_params r d p = Inr ()"
  obtains c where "contribution r p = Some c" "unat c \<le> 2 ^ 63"
proof -
  have p: "p \<noteq> 0" "\<not> p < 1000000" using assms by (auto simp: validate_dl_params_def split: if_splits)
  have "unat (r * 1000000 div p) = unat (r * 1000000) div unat p" by (simp add: unat_div_distrib)
  also have "\<dots> \<le> unat (r * 1000000) div 2"
    using p(2) by (intro div_le_mono2) (simp_all add: word_less_nat_alt)
  also have "\<dots> \<le> 2 ^ 63"
  proof -
    have "unat (r * 1000000) < 2 ^ 64" using unsigned_less [of "r * 1000000"] by simp
    then show ?thesis by simp
  qed
  finally show thesis using that p(1) by (simp add: contribution_def)
qed

lemma total_held_update:
  "i < length cs \<Longrightarrow> total_held (cs[i := c]) + held (cs ! i) = total_held cs + held c"
  unfolding total_held_def by (induction cs arbitrary: i) (auto simp: nth_Cons' less_Suc_eq_0_disj)

lemma list_all_update: "list_all P xs \<Longrightarrow> P x \<Longrightarrow> list_all P (xs[i := x])"
  by (induction xs arbitrary: i) (auto split: nat.splits)

lemma list_all_nthD: "list_all P xs \<Longrightarrow> i < length xs \<Longrightarrow> P (xs ! i)"
  by (simp add: list_all_iff)

lemma bw_sum: "unat g + unat c < 2 ^ 64 \<Longrightarrow> unat (g + c) = unat g + unat (c :: u64)"
  by (intro unat_add_nowrap) simp

lemma bw_step_inv:
  assumes step: "bw_step (g, cs) (g', cs')" and inv: "bw_inv (g, cs)"
  shows "bw_inv (g', cs')"
proof -
  have I: "total_held cs = unat g" "g \<le> MAX_BW" "list_all small cs" using inv by (simp_all add: bw_inv_def)
  note U = total_held_update and N = list_all_nthD [OF I(3)] and L = list_all_update [OF I(3)]
  from step show ?thesis
  proof cases
    case (load_refuse i c)
    then show ?thesis using I U [of i cs Refused] L [of Refused i]
      by (simp add: bw_inv_def held_def small_def)
  next
    case (load_ok i c)
    then show ?thesis using I U [of i cs "AtCas c g"] N [of i] L [of "AtCas c g" i]
      by (simp add: bw_inv_def held_def small_def not_less)
  next
    case (cas_ok i c v)
    have b: "unat c \<le> 2 ^ 63" "g + c \<le> MAX_BW"
      using N [OF cas_ok(3)] cas_ok(4,5) by (simp_all add: small_def)
    have "unat g \<le> 950000" using I(2) by (simp add: MAX_BW_eq word_le_nat_alt)
    then have "unat (g + c) = unat g + unat c" using b(1) by (intro bw_sum) simp
    then show ?thesis using cas_ok b I U [OF cas_ok(3), of "Admitted c"] L [of "Admitted c" i]
      by (simp add: bw_inv_def held_def small_def)
  next
    case (cas_retry i c v)
    then show ?thesis using I U [of i cs "AtLoad c"] N [of i] L [of "AtLoad c" i]
      by (simp add: bw_inv_def held_def small_def)
  next
    case (release i c)
    have h: "total_held (cs[i := Released]) + unat c = unat g"
      using I U [OF release(3), of Released] release(4) by (simp add: held_def)
    then have "c \<le> g" by (simp add: word_le_nat_alt)
    then have "unat (g - c) = unat g - unat c" "g - c \<le> g" by (simp_all add: unat_sub word_le_nat_alt)
    moreover have "total_held (cs[i := Released]) = unat g - unat c" using h by arith
    moreover have "g - c \<le> MAX_BW" using calculation(2) I(2) by (rule order_trans)
    ultimately show ?thesis using release L [of Released i]
      by (simp add: bw_inv_def small_def release_bandwidth_def)
  qed
qed

text \<open>Reachable configurations: callers start at the load with a validated contribution.\<close>

inductive bw_reach :: "u64 \<times> bw_caller list \<Rightarrow> bool" where
  bw_init: "list_all (\<lambda>c. \<exists>r d p w. c = AtLoad w \<and> validate_dl_params r d p = Inr () \<and>
      contribution r p = Some w) cs \<Longrightarrow> bw_reach (0, cs)"
| bw_next: "bw_reach s \<Longrightarrow> bw_step s s' \<Longrightarrow> bw_reach s'"

lemma bw_reach_inv: "bw_reach s \<Longrightarrow> bw_inv s"
proof (induction rule: bw_reach.induct)
  case (bw_init cs)
  then have c: "\<forall>c \<in> set cs. \<exists>w. c = AtLoad w \<and> unat w \<le> 2 ^ 63"
    unfolding list_all_iff by (metis contribution_small option.inject)
  then have "list_all small cs" and "\<forall>c \<in> set cs. held c = 0"
    by (auto simp: list_all_iff small_def held_def)
  then show ?case by (simp add: bw_inv_def total_held_def)
next
  case (bw_next s s')
  then show ?case using bw_step_inv by (metis surj_pair)
qed

section \<open>Correctness of global admission\<close>


text \<open>A run of one caller to completion computes \<open>admit_bandwidth\<close>.\<close>

lemma admit_bandwidth_is_run:
  assumes "contribution r p = Some c"
  shows "\<exists>s. bw_step\<^sup>*\<^sup>* (g, [AtLoad c]) s \<and>
    (admit_bandwidth r p g = Some (Some c, fst s) \<and> snd s = [Admitted c] \<or>
     admit_bandwidth r p g = Some (None, fst s) \<and> snd s = [Refused])"
proof (cases "MAX_BW < g + c")
  case True
  have "bw_step (g, [AtLoad c]) (g, [Refused])"
    using bw_step.load_refuse [of 0 "[AtLoad c]" c g] True by simp
  then show ?thesis
    using True assms by (intro exI [of _ "(g, [Refused])"]) (simp add: admit_bandwidth_def r_into_rtranclp)
next
  case False
  have "bw_step (g, [AtLoad c]) (g, [AtCas c g])"
    using bw_step.load_ok [of 0 "[AtLoad c]" c g] False by simp
  moreover have "bw_step (g, [AtCas c g]) (g + c, [Admitted c])"
    using bw_step.cas_ok [of 0 "[AtCas c g]" c g g] by simp
  ultimately have "bw_step\<^sup>*\<^sup>* (g, [AtLoad c]) (g + c, [Admitted c])"
    by (meson converse_rtranclp_into_rtranclp r_into_rtranclp)
  then show ?thesis
    using False assms by (intro exI [of _ "(g + c, [Admitted c])"]) (simp add: admit_bandwidth_def)
qed


end
