(* ===== verification/Deadline_Queue.thy ===== *)
theory Deadline_Queue
  imports Class_Queue Deadline_Bw
begin

text \<open>
  The deadline run queue of \<open>kernel/mks/src/realtime.rs\<close> (\<open>SCHED_DEADLINE\<close>): entries ordered by
  absolute deadline, a runtime budget per entry and the admitted bandwidth in permille.
\<close>

section \<open>State and operations\<close>

record DlTask =
  dl_task :: taskref
  abs_deadline :: u64
  budget_remaining :: u64

record DeadlineRunQueue =
  dl_entries :: "(u64 \<times> nat, DlTask) btree"
  admitted_bandwidth :: u64
  dl_nr_running :: usize

datatype dl_error = NotDeadline | ZeroPeriod | BandwidthExceeded

definition dl_new :: DeadlineRunQueue where
  "dl_new = \<lparr> dl_entries = [], admitted_bandwidth = 0, dl_nr_running = 0 \<rparr>"

definition dl_enqueue ::
  "heap \<Rightarrow> DeadlineRunQueue \<Rightarrow> taskref \<Rightarrow> u64 \<Rightarrow> dl_error + DeadlineRunQueue" where
  "dl_enqueue h rq task now_ns =
     (case policy (sched (h task)) of
        Deadline runtime deadline period \<Rightarrow>
          if period = 0 then Inl ZeroPeriod
          else
            let bw = runtime * 1000 div period;
                new_bw = admitted_bandwidth rq + bw;
                max_bw = SCHED_DL_BANDWIDTH_NUM * 10
            in if max_bw < new_bw then Inl BandwidthExceeded
               else
                 let d = now_ns + deadline;
                     entry = \<lparr> dl_task = task, abs_deadline = d, budget_remaining = runtime \<rparr>
                 in Inr (rq\<lparr> admitted_bandwidth := new_bw,
                             dl_entries := bt_insert (d, task_id (h task)) entry (dl_entries rq),
                             dl_nr_running := dl_nr_running rq + 1 \<rparr>)
      | _ \<Rightarrow> Inl NotDeadline)"

text \<open>\<open>keys().find(|k| k.1 == task_id)\<close>.\<close>

definition dl_find_key :: "nat \<Rightarrow> DeadlineRunQueue \<Rightarrow> (u64 \<times> nat) option" where
  "dl_find_key tid rq = List.find (\<lambda>k. snd k = tid) (map fst (dl_entries rq))"

definition dl_dequeue :: "heap \<Rightarrow> DeadlineRunQueue \<Rightarrow> taskref \<Rightarrow> DeadlineRunQueue" where
  "dl_dequeue h rq task =
     (case dl_find_key (task_id (h task)) rq of
        None \<Rightarrow> rq
      | Some key \<Rightarrow>
          (case bt_get key (dl_entries rq) of
             None \<Rightarrow> rq
           | Some entry \<Rightarrow>
               let (runtime, period) = (case policy (sched (h (dl_task entry))) of
                     Deadline runtime _ period \<Rightarrow> (runtime, period)
                   | _ \<Rightarrow> (0, 1));
                   bw = runtime * 1000 div max period 1
               in rq\<lparr> dl_entries := bt_remove key (dl_entries rq),
                      admitted_bandwidth := sat_sub (admitted_bandwidth rq) bw,
                      dl_nr_running := sat_sub (dl_nr_running rq) 1 \<rparr>))"

definition dl_pick_next :: "heap \<Rightarrow> DeadlineRunQueue \<Rightarrow> taskref option \<times> DeadlineRunQueue" where
  "dl_pick_next h rq =
     (case bt_first (dl_entries rq) of
        None \<Rightarrow> (None, rq)
      | Some (key, entry) \<Rightarrow>
          let rq1 = rq\<lparr> dl_entries := bt_remove key (dl_entries rq) \<rparr>
          in if budget_remaining entry = 0 then
               (case policy (sched (h (dl_task entry))) of
                  Deadline runtime _ period \<Rightarrow>
                    let new_deadline = abs_deadline entry + period;
                        re = \<lparr> dl_task = dl_task entry, abs_deadline = new_deadline,
                               budget_remaining = runtime \<rparr>
                    in (None, rq1\<lparr> dl_entries :=
                          bt_insert (new_deadline, task_id (h (dl_task entry))) re (dl_entries rq1) \<rparr>)
                | _ \<Rightarrow> (None, rq1))
             else (Some (dl_task entry),
                   rq1\<lparr> dl_nr_running := sat_sub (dl_nr_running rq1) 1 \<rparr>))"

definition dl_tick :: "heap \<Rightarrow> DeadlineRunQueue \<Rightarrow> taskref \<Rightarrow> u64 \<Rightarrow> DeadlineRunQueue \<times> bool" where
  "dl_tick h rq task elapsed_ns =
     (case dl_find_key (task_id (h task)) rq of
        None \<Rightarrow> (rq, False)
      | Some key \<Rightarrow>
          (case bt_get key (dl_entries rq) of
             None \<Rightarrow> (rq, False)
           | Some entry \<Rightarrow>
               if elapsed_ns < budget_remaining entry
               then (rq\<lparr> dl_entries := bt_insert key
                           (entry\<lparr> budget_remaining := budget_remaining entry - elapsed_ns \<rparr>)
                           (dl_entries rq) \<rparr>, False)
               else (rq\<lparr> dl_entries := bt_insert key (entry\<lparr> budget_remaining := 0 \<rparr>)
                           (dl_entries rq) \<rparr>, True)))"

section \<open>The invariant\<close>

text \<open>
  Keys mirror the entries, a task has at most one entry, ids identify tasks, and every queued
  task still has a deadline policy.
\<close>

definition is_dl :: "heap \<Rightarrow> taskref \<Rightarrow> bool" where
  "is_dl h t = (case policy (sched (h t)) of Deadline _ _ p \<Rightarrow> p \<noteq> 0 | _ \<Rightarrow> False)"

definition dl_tasks :: "DeadlineRunQueue \<Rightarrow> taskref multiset" where
  "dl_tasks rq = image_mset (\<lambda>e. dl_task (snd e)) (mset (dl_entries rq))"

definition dl_inv :: "heap \<Rightarrow> DeadlineRunQueue \<Rightarrow> bool" where
  "dl_inv h rq \<longleftrightarrow>
     bt_ok (dl_entries rq) \<and>
     (\<forall>(k, e) \<in> set (dl_entries rq). k = (abs_deadline e, task_id (h (dl_task e))) \<and> is_dl h (dl_task e)) \<and>
     distinct (map (\<lambda>e. dl_task (snd e)) (dl_entries rq)) \<and>
     ids_unique h (set_mset (dl_tasks rq))"

lemma dl_invD:
  assumes "dl_inv h rq"
  shows "bt_ok (dl_entries rq)"
    and "(k, e) \<in> set (dl_entries rq) \<Longrightarrow> k = (abs_deadline e, task_id (h (dl_task e)))"
    and "(k, e) \<in> set (dl_entries rq) \<Longrightarrow> is_dl h (dl_task e)"
    and "distinct (map (\<lambda>e. dl_task (snd e)) (dl_entries rq))"
    and "ids_unique h (set_mset (dl_tasks rq))"
  using assms by (auto simp: dl_inv_def)

lemma dl_tasks_iff: "t \<in># dl_tasks rq \<longleftrightarrow> (\<exists>k e. (k, e) \<in> set (dl_entries rq) \<and> dl_task e = t)"
  by (force simp: dl_tasks_def)

lemma dl_tasks_new [simp]: "dl_tasks dl_new = {#}"
  by (simp add: dl_new_def dl_tasks_def)

lemma dl_inv_new: "dl_inv h dl_new"
  by (simp add: dl_inv_def ids_unique_def) (simp add: dl_new_def bt_ok_def)

text \<open>The key of a task that has no entry is free.\<close>

lemma dl_entry_fresh:
  assumes inv: "dl_inv h rq" and ids: "ids_unique h (insert t (set_mset (dl_tasks rq)))"
    and new: "t \<notin># dl_tasks rq" and k: "snd k = task_id (h t)"
  shows "bt_get k (dl_entries rq) = None"
proof (rule ccontr)
  assume "bt_get k (dl_entries rq) \<noteq> None"
  then obtain e where e: "(k, e) \<in> set (dl_entries rq)"
    using dl_invD(1) [OF inv] by (auto simp: btm.get_iff)
  then have q: "dl_task e \<in># dl_tasks rq" unfolding dl_tasks_iff by blast
  have "task_id (h (dl_task e)) = task_id (h t)" using dl_invD(2) [OF inv e] k by simp
  then have "dl_task e = t" using inj_onD [OF ids [unfolded ids_unique_def], of "dl_task e" t] q by simp
  with q new show False by simp
qed

lemma dl_tasks_mset: "dl_tasks rq = mset (map (\<lambda>e. dl_task (snd e)) (dl_entries rq))"
  by (simp add: dl_tasks_def)

lemma dl_insert_spec:
  assumes inv: "dl_inv h rq" and ids: "ids_unique h (insert t (set_mset (dl_tasks rq)))"
    and new: "t \<notin># dl_tasks rq" and dl: "is_dl h t"
    and rq': "dl_entries rq' = bt_insert (abs_deadline e, task_id (h t)) e (dl_entries rq)"
    and e: "dl_task e = t"
  shows "dl_inv h rq'" and "dl_tasks rq' = add_mset t (dl_tasks rq)"
proof -
  note D = dl_invD [OF inv]
  have fresh: "bt_get (abs_deadline e, task_id (h t)) (dl_entries rq) = None"
    using dl_entry_fresh [OF inv ids new] by simp
  show tasks: "dl_tasks rq' = add_mset t (dl_tasks rq)"
    using btm.mset_entries_insert [OF D(1) fresh] e by (simp add: dl_tasks_def rq')
  have "distinct (map (\<lambda>e. dl_task (snd e)) (dl_entries rq'))"
    using distinct_mset_add [OF tasks [unfolded dl_tasks_mset]] D(4) new by (simp add: dl_tasks_mset)
  moreover have "bt_ok (dl_entries rq')" using D(1) by (simp add: rq' bt_ok_insert)
  moreover have "set (dl_entries rq') = insert ((abs_deadline e, task_id (h t)), e) (set (dl_entries rq))"
    using set_bt_insert_new [OF D(1) fresh] by (simp add: rq')
  ultimately show "dl_inv h rq'"
    using D(2,3) e dl ids tasks by (auto simp: dl_inv_def)
qed

lemma dl_remove_spec:
  assumes inv: "dl_inv h rq" and mem: "(k, e) \<in> set (dl_entries rq)"
    and rq': "dl_entries rq' = bt_remove k (dl_entries rq)"
  shows "dl_inv h rq'" and "dl_tasks rq = add_mset (dl_task e) (dl_tasks rq')"
proof -
  note D = dl_invD [OF inv]
  show tasks: "dl_tasks rq = add_mset (dl_task e) (dl_tasks rq')"
    using btm.mset_entries_remove [OF D(1) mem] by (simp add: dl_tasks_def rq')
  have "distinct (map (\<lambda>e. dl_task (snd e)) (dl_entries rq'))"
    using distinct_mset_add [OF tasks [unfolded dl_tasks_mset]] D(4) by simp
  moreover have "bt_ok (dl_entries rq')" using D(1) by (simp add: rq' bt_ok_remove)
  moreover have "set (dl_entries rq') \<subseteq> set (dl_entries rq)" by (auto simp: rq' bt_remove_def)
  moreover have "ids_unique h (set_mset (dl_tasks rq'))"
    using ids_unique_mono [OF D(5)] tasks by (metis set_mset_add_mset_insert subset_insertI)
  ultimately show "dl_inv h rq'"
    using D(2,3) by (auto simp: dl_inv_def)
qed

lemma dl_remove_fresh:
  assumes inv: "dl_inv h rq" and mem: "(k, e) \<in> set (dl_entries rq)"
    and rq': "dl_entries rq' = bt_remove k (dl_entries rq)"
  shows "dl_task e \<notin># dl_tasks rq'" and "ids_unique h (insert (dl_task e) (set_mset (dl_tasks rq')))"
proof -
  note T = dl_remove_spec(2) [OF assms]
  show "dl_task e \<notin># dl_tasks rq'"
    using distinct_mset_add [OF T [unfolded dl_tasks_mset]] dl_invD(4) [OF inv] by (simp add: dl_tasks_mset)
  show "ids_unique h (insert (dl_task e) (set_mset (dl_tasks rq')))"
    using dl_invD(5) [OF inv] by (simp add: T)
qed

text \<open>Operations that replace the entry under its own key keep the tasks.\<close>

lemma dl_update_spec:
  assumes inv: "dl_inv h rq" and mem: "(k, e) \<in> set (dl_entries rq)"
    and rq': "dl_entries rq' = bt_insert k e' (dl_entries rq)"
    and e': "dl_task e' = dl_task e" "abs_deadline e' = abs_deadline e"
  shows "dl_inv h rq'" and "dl_tasks rq' = dl_tasks rq"
proof -
  note D = dl_invD [OF inv]
  let ?m = "dl_entries rq"
  have ok: "bt_ok (bt_remove k ?m)" using D(1) by (rule bt_ok_remove)
  have same: "set (bt_insert k e' ?m) = set (bt_insert k e' (bt_remove k ?m))"
    using D(1) ok by (auto simp: set_bt_insert bt_remove_def)
  have dist: "bt_ok m \<Longrightarrow> distinct m" for m :: "(u64 \<times> nat, DlTask) btree"
    using btm.distinct_keys [of m] by (simp add: distinct_map)
  have "mset (bt_insert k e' ?m) = mset (bt_insert k e' (bt_remove k ?m))"
    using same dist bt_ok_insert [OF D(1)] bt_ok_insert [OF ok] set_eq_iff_mset_eq_distinct by blast
  also have "\<dots> = add_mset (k, e') (mset (bt_remove k ?m))"
    by (intro btm.mset_entries_insert [OF ok]) (simp add: btm.get_remove [OF D(1)])
  finally have m: "mset (dl_entries rq') = add_mset (k, e') (mset (bt_remove k ?m))" by (simp add: rq')
  show tasks: "dl_tasks rq' = dl_tasks rq"
    using m btm.mset_entries_remove [OF D(1) mem] e' by (simp add: dl_tasks_def)
  have "distinct (map (\<lambda>e. dl_task (snd e)) (dl_entries rq'))"
    using mset_eq_imp_distinct_iff [OF tasks [unfolded dl_tasks_mset]] D(4) by simp
  moreover have "set (dl_entries rq') \<subseteq> insert (k, e') (set ?m)"
    using D(1) by (auto simp: rq' set_bt_insert)
  moreover have "bt_ok (dl_entries rq')" using D(1) by (simp add: rq' bt_ok_insert)
  ultimately show "dl_inv h rq'"
    using D(2,3,5) D(2,3) [OF mem] e' tasks by (auto simp: dl_inv_def)
qed

lemma dl_find_key_spec:
  assumes inv: "dl_inv h rq"
  shows "dl_find_key i rq = Some k \<Longrightarrow> \<exists>e. (k, e) \<in> set (dl_entries rq) \<and> task_id (h (dl_task e)) = i"
    and "dl_find_key i rq = None \<longleftrightarrow> (\<forall>t \<in># dl_tasks rq. task_id (h t) \<noteq> i)"
proof -
  note D = dl_invD [OF inv]
  assume "dl_find_key i rq = Some k"
  then obtain e where "(k, e) \<in> set (dl_entries rq)" "snd k = i"
    unfolding dl_find_key_def by (auto simp: find_Some_iff) (metis fst_conv nth_mem prod.collapse)
  then show "\<exists>e. (k, e) \<in> set (dl_entries rq) \<and> task_id (h (dl_task e)) = i"
    using D(2) by fastforce
next
  note D = dl_invD [OF inv]
  have "dl_find_key i rq = None \<longleftrightarrow> (\<forall>(k, e) \<in> set (dl_entries rq). snd k \<noteq> i)"
    by (auto simp: dl_find_key_def find_None_iff)
  also have "\<dots> \<longleftrightarrow> (\<forall>t \<in># dl_tasks rq. task_id (h t) \<noteq> i)"
    using D(2) by (fastforce simp: dl_tasks_iff)
  finally show "dl_find_key i rq = None \<longleftrightarrow> (\<forall>t \<in># dl_tasks rq. task_id (h t) \<noteq> i)" .
qed

section \<open>The operations keep the invariant\<close>

lemma dl_enqueue_ok_iff:
  "dl_enqueue h rq t now = Inr rq' \<longleftrightarrow>
     (\<exists>r d p. policy (sched (h t)) = Deadline r d p \<and> p \<noteq> 0 \<and>
        admitted_bandwidth rq + r * 1000 div p \<le> 950 \<and>
        rq' = rq\<lparr> admitted_bandwidth := admitted_bandwidth rq + r * 1000 div p,
                  dl_entries := bt_insert (now + d, task_id (h t))
                    \<lparr> dl_task = t, abs_deadline = now + d, budget_remaining = r \<rparr> (dl_entries rq),
                  dl_nr_running := dl_nr_running rq + 1 \<rparr>)"
  by (cases "policy (sched (h t))")
    (auto simp: dl_enqueue_def Let_def sched_consts not_less)

lemma dl_enqueue_spec:
  assumes inv: "dl_inv h rq" and ids: "ids_unique h (insert t (set_mset (dl_tasks rq)))"
    and new: "t \<notin># dl_tasks rq" and enq: "dl_enqueue h rq t now = Inr rq'"
  shows "dl_inv h rq'" and "dl_tasks rq' = add_mset t (dl_tasks rq)"
proof -
  obtain r d p where p: "policy (sched (h t)) = Deadline r d p" "p \<noteq> 0"
    and e: "dl_entries rq' = bt_insert (now + d, task_id (h t))
      \<lparr> dl_task = t, abs_deadline = now + d, budget_remaining = r \<rparr> (dl_entries rq)"
    using enq by (auto simp: dl_enqueue_ok_iff)
  have "is_dl h t" using p by (simp add: is_dl_def)
  from dl_insert_spec [OF inv ids new this, of rq'
      "\<lparr> dl_task = t, abs_deadline = now + d, budget_remaining = r \<rparr>"]
  show "dl_inv h rq'" and "dl_tasks rq' = add_mset t (dl_tasks rq)" by (simp_all add: e)
qed

text \<open>The permille share that admission control charges for a task.\<close>

definition dl_bw :: "heap \<Rightarrow> taskref \<Rightarrow> u64" where
  "dl_bw h t = (case policy (sched (h t)) of Deadline r _ p \<Rightarrow> r * 1000 div p | _ \<Rightarrow> 0)"

lemma dl_dequeue_cases:
  assumes inv: "dl_inv h rq"
  obtains (absent) "\<forall>u \<in># dl_tasks rq. task_id (h u) \<noteq> task_id (h t)" "dl_dequeue h rq t = rq"
  | (found) k e where "(k, e) \<in> set (dl_entries rq)" "task_id (h (dl_task e)) = task_id (h t)"
      "dl_dequeue h rq t = rq\<lparr> dl_entries := bt_remove k (dl_entries rq),
         admitted_bandwidth := sat_sub (admitted_bandwidth rq) (dl_bw h (dl_task e)),
         dl_nr_running := sat_sub (dl_nr_running rq) 1 \<rparr>"
proof (cases "dl_find_key (task_id (h t)) rq")
  case None
  then show ?thesis
    by (intro absent dl_find_key_spec(2) [OF inv, THEN iffD1]) (simp_all add: dl_dequeue_def)
next
  case (Some k)
  then obtain e where e: "(k, e) \<in> set (dl_entries rq)" "task_id (h (dl_task e)) = task_id (h t)"
    using dl_find_key_spec(1) [OF inv] by blast
  then have get: "bt_get k (dl_entries rq) = Some e" using dl_invD(1) [OF inv] by (simp add: btm.get_iff)
  obtain r d p where p: "policy (sched (h (dl_task e))) = Deadline r d p" "p \<noteq> 0"
    using dl_invD(3) [OF inv e(1)] by (auto simp: is_dl_def split: SchedClass.splits)
  then have "max p 1 = p" by (simp add: max_absorb1 word_le_nat_alt unat_gt_0 Suc_le_eq)
  with e get p Some show ?thesis
    by (intro found [OF e]) (simp add: dl_dequeue_def dl_bw_def)
qed

lemma dl_dequeue_spec:
  assumes inv: "dl_inv h rq" and ids: "ids_unique h (insert t (set_mset (dl_tasks rq)))"
  shows "dl_inv h (dl_dequeue h rq t)"
    and "t \<in># dl_tasks rq \<Longrightarrow> dl_tasks rq = add_mset t (dl_tasks (dl_dequeue h rq t))"
    and "t \<notin># dl_tasks rq \<Longrightarrow> dl_dequeue h rq t = rq"
proof -
  have same: "u = t" if "u \<in># dl_tasks rq" "task_id (h u) = task_id (h t)" for u
    using inj_onD [OF ids [unfolded ids_unique_def], of u t] that by simp
  have "dl_inv h (dl_dequeue h rq t) \<and>
    (t \<in># dl_tasks rq \<longrightarrow> dl_tasks rq = add_mset t (dl_tasks (dl_dequeue h rq t))) \<and>
    (t \<notin># dl_tasks rq \<longrightarrow> dl_dequeue h rq t = rq)"
    using inv
  proof (cases rule: dl_dequeue_cases [of h rq t])
    case absent
    then show ?thesis using inv by auto
  next
    case (found k e)
    have "dl_task e \<in># dl_tasks rq" using found(1) unfolding dl_tasks_iff by blast
    then have "dl_task e = t" using same found(2) by blast
    with \<open>dl_task e \<in># dl_tasks rq\<close> dl_remove_spec [OF inv found(1), of "dl_dequeue h rq t"]
    show ?thesis by (simp add: found(3))
  qed
  then show "dl_inv h (dl_dequeue h rq t)"
    and "t \<in># dl_tasks rq \<Longrightarrow> dl_tasks rq = add_mset t (dl_tasks (dl_dequeue h rq t))"
    and "t \<notin># dl_tasks rq \<Longrightarrow> dl_dequeue h rq t = rq" by simp_all
qed

lemma dl_tick_cases:
  assumes inv: "dl_inv h rq"
  obtains (absent) "dl_tick h rq t x = (rq, False)"
    "\<forall>u \<in># dl_tasks rq. task_id (h u) \<noteq> task_id (h t)"
  | (found) k e where "(k, e) \<in> set (dl_entries rq)" "task_id (h (dl_task e)) = task_id (h t)"
      "dl_tick h rq t x =
         (rq\<lparr> dl_entries := bt_insert k (e\<lparr> budget_remaining := sat_sub (budget_remaining e) x \<rparr>)
                (dl_entries rq) \<rparr>, budget_remaining e \<le> x)"
proof (cases "dl_find_key (task_id (h t)) rq")
  case None
  then show ?thesis
    by (intro absent dl_find_key_spec(2) [OF inv, THEN iffD1]) (simp_all add: dl_tick_def)
next
  case (Some k)
  then obtain e where e: "(k, e) \<in> set (dl_entries rq)" "task_id (h (dl_task e)) = task_id (h t)"
    using dl_find_key_spec(1) [OF inv] by blast
  then have get: "bt_get k (dl_entries rq) = Some e" using dl_invD(1) [OF inv] by (simp add: btm.get_iff)
  have "x < budget_remaining e \<Longrightarrow> sat_sub (budget_remaining e) x = budget_remaining e - x"
    and "\<not> x < budget_remaining e \<Longrightarrow> sat_sub (budget_remaining e) x = 0"
    by (auto simp: sat_sub_def)
  with e get Some show ?thesis
    by (intro found [OF e]) (auto simp: dl_tick_def)
qed

lemma dl_tick_spec:
  assumes inv: "dl_inv h rq" and tick: "dl_tick h rq t x = (rq', b)"
  shows "dl_inv h rq'" and "dl_tasks rq' = dl_tasks rq"
proof -
  have "dl_inv h rq' \<and> dl_tasks rq' = dl_tasks rq"
    using inv
  proof (cases rule: dl_tick_cases [of h rq t x])
    case absent
    then show ?thesis using inv tick by simp
  next
    case (found k e)
    then show ?thesis using tick by (auto intro!: dl_update_spec [OF inv found(1)])
  qed
  then show "dl_inv h rq'" and "dl_tasks rq' = dl_tasks rq" by simp_all
qed

section \<open>Picking\<close>

definition dl_renewed :: "heap \<Rightarrow> DlTask \<Rightarrow> DlTask" where
  "dl_renewed h e =
     \<lparr> dl_task = dl_task e, abs_deadline = abs_deadline e + dl_period (policy (sched (h (dl_task e)))),
       budget_remaining = dl_runtime (policy (sched (h (dl_task e)))) \<rparr>"

lemma dl_pick_next_cases:
  assumes inv: "dl_inv h rq"
  obtains (empty) "dl_entries rq = []" "dl_pick_next h rq = (None, rq)"
  | (throttled) k e es where "dl_entries rq = (k, e) # es" "budget_remaining e = 0"
      "dl_pick_next h rq = (None, rq\<lparr> dl_entries :=
         bt_insert (abs_deadline (dl_renewed h e), task_id (h (dl_task e))) (dl_renewed h e) es \<rparr>)"
  | (some) k e es where "dl_entries rq = (k, e) # es" "budget_remaining e \<noteq> 0"
      "dl_pick_next h rq = (Some (dl_task e),
         rq\<lparr> dl_entries := es, dl_nr_running := sat_sub (dl_nr_running rq) 1 \<rparr>)"
proof (cases "dl_entries rq")
  case Nil
  then show ?thesis by (intro empty) (simp_all add: dl_pick_next_def)
next
  case (Cons a es)
  obtain k e where a: "a = (k, e)" by fastforce
  have rem: "bt_remove k (dl_entries rq) = es"
    using bt_remove_first [of a es] dl_invD(1) [OF inv] by (simp add: Cons a)
  obtain r d p where p: "policy (sched (h (dl_task e))) = Deadline r d p"
    using dl_invD(3) [OF inv, of k e] by (auto simp: Cons a is_dl_def split: SchedClass.splits)
  show ?thesis
  proof (cases "budget_remaining e = 0")
    case True
    then show ?thesis
      using rem by (intro throttled [of k e es]) (simp_all add: Cons a dl_pick_next_def dl_renewed_def p Let_def)
  next
    case False
    then show ?thesis using rem by (intro some [of k e es]) (simp_all add: Cons a dl_pick_next_def)
  qed
qed

text \<open>
  A queue whose earliest entry has used up its budget offers nothing: \<open>pick_next\<close> renews that
  entry and reports \<open>None\<close>, so the other entries wait for the next call.
\<close>

definition dl_ready :: "heap \<Rightarrow> DeadlineRunQueue \<Rightarrow> taskref set" where
  "dl_ready h rq = (case dl_entries rq of
       [] \<Rightarrow> {}
     | (_, e) # _ \<Rightarrow> if budget_remaining e = 0 then {} else set_mset (dl_tasks rq))"

definition dl_before :: "heap \<Rightarrow> DeadlineRunQueue \<Rightarrow> taskref \<Rightarrow> taskref \<Rightarrow> bool" where
  "dl_before h rq t u \<longleftrightarrow>
     (\<forall>k e k' e'. (k, e) \<in> set (dl_entries rq) \<longrightarrow> dl_task e = t \<longrightarrow>
        (k', e') \<in> set (dl_entries rq) \<longrightarrow> dl_task e' = u \<longrightarrow> abs_deadline e \<le> abs_deadline e')"

lemma dl_entry_unique:
  assumes inv: "dl_inv h rq" and "(k, e) \<in> set (dl_entries rq)" "(k', e') \<in> set (dl_entries rq)"
    and "dl_task e = dl_task e'"
  shows "k = k' \<and> e = e'"
proof -
  have "inj_on (\<lambda>e. dl_task (snd e)) (set (dl_entries rq))"
    using dl_invD(4) [OF inv] by (simp add: distinct_map)
  from inj_onD [OF this, of "(k, e)" "(k', e')"] assms(2-4) show ?thesis by simp
qed

lemma dl_head_earliest:
  assumes inv: "dl_inv h rq" and hd: "dl_entries rq = (k, e) # es" and mem: "(k', e') \<in> set (dl_entries rq)"
  shows "abs_deadline e \<le> abs_deadline e'"
proof -
  have "k \<le> k'" using btm.first_least [OF dl_invD(1) [OF inv] hd mem] by simp
  then show ?thesis
    using dl_invD(2) [OF inv mem] dl_invD(2) [OF inv, of k e] hd by (auto simp: less_eq_prod_def)
qed

lemma dl_pick_next_spec:
  assumes inv: "dl_inv h rq"
  shows "dl_pick_next h rq = (Some t, rq') \<Longrightarrow> t \<in> dl_ready h rq \<and> (\<forall>u \<in> dl_ready h rq. dl_before h rq t u)
      \<and> dl_tasks rq = add_mset t (dl_tasks rq') \<and> dl_inv h rq'"
    and "dl_pick_next h rq = (None, rq') \<Longrightarrow> dl_ready h rq = {} \<and> dl_tasks rq' = dl_tasks rq \<and> dl_inv h rq'"
proof -
  assume p: "dl_pick_next h rq = (Some t, rq')"
  obtain k e es where e: "dl_entries rq = (k, e) # es" "budget_remaining e \<noteq> 0" "dl_task e = t"
    and rq': "dl_entries rq' = es"
    using inv p by (cases rule: dl_pick_next_cases) auto
  have mem: "(k, e) \<in> set (dl_entries rq)" by (simp add: e(1))
  have "bt_remove k (dl_entries rq) = es"
    using bt_remove_first [of "(k, e)" es] dl_invD(1) [OF inv] by (simp add: e(1))
  with rq' have R: "dl_entries rq' = bt_remove k (dl_entries rq)" by simp
  have t: "t \<in># dl_tasks rq" using e(3) mem unfolding dl_tasks_iff by blast
  have "abs_deadline a \<le> abs_deadline b"
    if "(ka, a) \<in> set (dl_entries rq)" "dl_task a = t" "(kb, b) \<in> set (dl_entries rq)" for ka a kb b
    using dl_entry_unique [OF inv mem that(1)] e(3) that(2) dl_head_earliest [OF inv e(1) that(3)] by simp
  then have "dl_before h rq t u" for u unfolding dl_before_def by blast
  then show "t \<in> dl_ready h rq \<and> (\<forall>u \<in> dl_ready h rq. dl_before h rq t u)
      \<and> dl_tasks rq = add_mset t (dl_tasks rq') \<and> dl_inv h rq'"
    using dl_remove_spec [OF inv mem R] e t by (simp add: dl_ready_def)
next
  assume p: "dl_pick_next h rq = (None, rq')"
  show "dl_ready h rq = {} \<and> dl_tasks rq' = dl_tasks rq \<and> dl_inv h rq'"
    using inv
  proof (cases rule: dl_pick_next_cases)
    case empty
    then show ?thesis using p inv by (simp add: dl_ready_def)
  next
    case (throttled k e es)
    let ?rq1 = "rq\<lparr> dl_entries := es \<rparr>"
    have mem: "(k, e) \<in> set (dl_entries rq)" by (simp add: throttled(1))
    have R: "dl_entries ?rq1 = bt_remove k (dl_entries rq)"
      using bt_remove_first [of "(k, e)" es] dl_invD(1) [OF inv] by (simp add: throttled(1))
    have "dl_entries rq' =
        bt_insert (abs_deadline (dl_renewed h e), task_id (h (dl_task e))) (dl_renewed h e) (dl_entries ?rq1)"
      using throttled(3) p by simp
    from dl_insert_spec [OF dl_remove_spec(1) [OF inv mem R] dl_remove_fresh(2,1) [OF inv mem R]
        dl_invD(3) [OF inv mem] this]
    show ?thesis
      using dl_remove_spec(2) [OF inv mem R] throttled(1,2) by (simp add: dl_ready_def dl_renewed_def)
  next
    case (some k e es)
    then show ?thesis using p by simp
  qed
qed

interpretation dl_q: class_queue dl_tasks dl_ready dl_before dl_pick_next dl_inv
proof
  fix h rq t rq'
  assume inv: "dl_inv h rq"
  show "dl_ready h rq \<subseteq> set_mset (dl_tasks rq)" by (auto simp: dl_ready_def split: list.splits if_splits)
  show "dl_inv h (snd (dl_pick_next h rq))"
    using dl_pick_next_spec [OF inv] by (metis option.exhaust prod.collapse)
  show "dl_pick_next h rq = (None, rq') \<Longrightarrow> dl_ready h rq = {} \<and> dl_tasks rq' = dl_tasks rq"
    using dl_pick_next_spec(2) [OF inv] by blast
  assume "dl_pick_next h rq = (Some t, rq')"
  from dl_pick_next_spec(1) [OF inv this]
  show "t \<in> dl_ready h rq \<and> (\<forall>u \<in> dl_ready h rq. dl_before h rq t u)"
    and "dl_tasks rq = add_mset t (dl_tasks rq') \<or> dl_tasks rq' = dl_tasks rq" by blast+
qed

section \<open>Admitted bandwidth\<close>

text \<open>
  \<open>dl_util\<close> is the share of a task in permille, computed without wrap-around.  \<open>dl_ok\<close>: the
  parameters pass \<open>validate_dl_params\<close> and the product \<open>runtime * 1000\<close> fits in 64 bits.
\<close>

definition dl_util :: "heap \<Rightarrow> taskref \<Rightarrow> nat" where
  "dl_util h t =
     (case policy (sched (h t)) of Deadline r _ p \<Rightarrow> unat r * 1000 div unat p | _ \<Rightarrow> 0)"

definition dl_ok :: "heap \<Rightarrow> taskref \<Rightarrow> bool" where
  "dl_ok h t = (case policy (sched (h t)) of
     Deadline r d p \<Rightarrow> validate_dl_params r d p = Inr () \<and> unat r * 1000 < 2 ^ 64 | _ \<Rightarrow> False)"

lemma dl_ok_bw:
  assumes "dl_ok h t"
  shows "unat (dl_bw h t) = dl_util h t" and "dl_util h t \<le> 1000" and "is_dl h t"
proof -
  obtain r d p where pol: "policy (sched (h t)) = Deadline r d p"
    and v: "validate_dl_params r d p = Inr ()" and r: "unat r * 1000 < 2 ^ 64"
    using assms by (auto simp: dl_ok_def split: SchedClass.splits)
  have p: "p \<noteq> 0" "r \<le> p"
    using v by (auto simp: validate_dl_params_def not_less split: if_splits)
  have "unat (r * 1000) = unat r * 1000" using unat_mult_nowrap [of r 1000] r by simp
  then show "unat (dl_bw h t) = dl_util h t"
    by (simp add: dl_bw_def dl_util_def pol unat_div_distrib)
  have "unat r * 1000 div unat p \<le> unat p * 1000 div unat p"
    using p(2) by (intro div_le_mono) (simp add: word_le_nat_alt)
  then show "dl_util h t \<le> 1000" using p(1) by (simp add: dl_util_def pol unat_eq_zero)
  show "is_dl h t" using p(1) by (simp add: is_dl_def pol)
qed

definition dl_load :: "heap \<Rightarrow> DeadlineRunQueue \<Rightarrow> nat" where
  "dl_load h rq = (\<Sum>t \<in># dl_tasks rq. dl_util h t)"

definition dl_bw_inv :: "heap \<Rightarrow> DeadlineRunQueue \<Rightarrow> bool" where
  "dl_bw_inv h rq \<longleftrightarrow> dl_load h rq \<le> unat (admitted_bandwidth rq) \<and>
     unat (admitted_bandwidth rq) \<le> 950 \<and> (\<forall>t \<in># dl_tasks rq. dl_ok h t)"

lemma dl_enqueue_decision:
  assumes ok: "dl_ok h t" and adm: "unat (admitted_bandwidth rq) \<le> 950"
  shows "unat (admitted_bandwidth rq) + dl_util h t \<le> 950 \<Longrightarrow>
      \<exists>rq'. dl_enqueue h rq t now = Inr rq' \<and>
        unat (admitted_bandwidth rq') = unat (admitted_bandwidth rq) + dl_util h t"
    and "950 < unat (admitted_bandwidth rq) + dl_util h t \<Longrightarrow> dl_enqueue h rq t now = Inl BandwidthExceeded"
proof -
  obtain r d p where pol: "policy (sched (h t)) = Deadline r d p" and p: "p \<noteq> 0"
    using dl_ok_bw(3) [OF ok] by (auto simp: is_dl_def split: SchedClass.splits)
  have "unat (admitted_bandwidth rq + dl_bw h t) = unat (admitted_bandwidth rq) + dl_util h t"
    using unat_add_nowrap [of "admitted_bandwidth rq" "dl_bw h t"] dl_ok_bw(1,2) [OF ok] adm by simp
  moreover have "dl_bw h t = r * 1000 div p" by (simp add: dl_bw_def pol)
  ultimately have sum: "unat (admitted_bandwidth rq + r * 1000 div p) = unat (admitted_bandwidth rq) + dl_util h t"
    by simp
  show "unat (admitted_bandwidth rq) + dl_util h t \<le> 950 \<Longrightarrow>
      \<exists>rq'. dl_enqueue h rq t now = Inr rq' \<and>
        unat (admitted_bandwidth rq') = unat (admitted_bandwidth rq) + dl_util h t"
    using pol p sum by (simp add: dl_enqueue_def Let_def sched_consts word_less_nat_alt)
  show "950 < unat (admitted_bandwidth rq) + dl_util h t \<Longrightarrow> dl_enqueue h rq t now = Inl BandwidthExceeded"
    using pol p sum by (simp add: dl_enqueue_def Let_def sched_consts word_less_nat_alt)
qed

lemma dl_bw_inv_smaller:
  assumes "dl_bw_inv h rq" and "dl_tasks rq = add_mset t (dl_tasks rq')"
    and "unat (admitted_bandwidth rq) - dl_util h t \<le> unat (admitted_bandwidth rq')"
    and "admitted_bandwidth rq' \<le> admitted_bandwidth rq"
  shows "dl_bw_inv h rq'"
  using assms by (auto simp: dl_bw_inv_def dl_load_def word_le_nat_alt)

text \<open>The queues the operations produce from \<open>DeadlineRunQueue::new\<close>.\<close>

inductive dl_reach :: "heap \<Rightarrow> DeadlineRunQueue \<Rightarrow> bool" for h where
  dl_new: "dl_reach h dl_new"
| dl_enqueue: "dl_reach h rq \<Longrightarrow> ids_unique h (insert t (set_mset (dl_tasks rq))) \<Longrightarrow> t \<notin># dl_tasks rq \<Longrightarrow>
    dl_ok h t \<Longrightarrow> dl_enqueue h rq t now = Inr rq' \<Longrightarrow> dl_reach h rq'"
| dl_dequeue: "dl_reach h rq \<Longrightarrow> ids_unique h (insert t (set_mset (dl_tasks rq))) \<Longrightarrow>
    dl_reach h (dl_dequeue h rq t)"
| dl_pick: "dl_reach h rq \<Longrightarrow> dl_pick_next h rq = (r, rq') \<Longrightarrow> dl_reach h rq'"
| dl_tick: "dl_reach h rq \<Longrightarrow> dl_tick h rq t e = (rq', b) \<Longrightarrow> dl_reach h rq'"

lemma dl_enqueue_bw_inv:
  assumes inv: "dl_bw_inv h rq" and ok: "dl_ok h t" and enq: "dl_enqueue h rq t now = Inr rq'"
    and tasks: "dl_tasks rq' = add_mset t (dl_tasks rq)"
  shows "dl_bw_inv h rq'"
proof -
  have adm: "unat (admitted_bandwidth rq) \<le> 950" using inv by (simp add: dl_bw_inv_def)
  have "unat (admitted_bandwidth rq) + dl_util h t \<le> 950"
    using dl_enqueue_decision(2) [OF ok adm, of now] enq by (simp add: not_less [symmetric]) (meson not_less)
  with dl_enqueue_decision(1) [OF ok adm, of now] enq inv ok tasks show ?thesis
    by (simp add: dl_bw_inv_def dl_load_def)
qed

lemma dl_dequeue_bw_inv:
  assumes inv: "dl_inv h rq" and bw: "dl_bw_inv h rq"
  shows "dl_bw_inv h (dl_dequeue h rq t)"
  using inv
proof (cases rule: dl_dequeue_cases [of h rq t])
  case absent
  then show ?thesis using bw by simp
next
  case (found k e)
  have "dl_task e \<in># dl_tasks rq" using found(1) unfolding dl_tasks_iff by blast
  then have "dl_ok h (dl_task e)" using bw by (simp add: dl_bw_inv_def)
  then have u: "unat (dl_bw h (dl_task e)) = dl_util h (dl_task e)" by (rule dl_ok_bw(1))
  show ?thesis
    by (rule dl_bw_inv_smaller [OF bw dl_remove_spec(2) [OF inv found(1)]])
      (simp_all add: found(3) u sat_sub_le)
qed

lemma dl_pick_bandwidth: "admitted_bandwidth (snd (dl_pick_next h rq)) = admitted_bandwidth rq"
  by (simp add: dl_pick_next_def Let_def split: option.splits SchedClass.splits)

lemma dl_tick_bandwidth: "admitted_bandwidth (fst (dl_tick h rq t e)) = admitted_bandwidth rq"
  by (simp add: dl_tick_def split: option.splits)

lemma dl_reach_inv: "dl_reach h rq \<Longrightarrow> dl_inv h rq \<and> dl_bw_inv h rq"
proof (induction rule: dl_reach.induct)
  case dl_new
  show ?case by (simp add: dl_inv_new dl_bw_inv_def dl_load_def) (simp add: dl_new_def)
next
  case (dl_enqueue rq t now rq')
  then show ?case
    using dl_enqueue_spec [of h rq t now rq'] dl_enqueue_bw_inv [of h rq t now rq'] by simp
next
  case (dl_dequeue rq t)
  then show ?case using dl_dequeue_spec(1) [of h rq t] dl_dequeue_bw_inv [of h rq t] by simp
next
  case (dl_pick rq r rq')
  then have inv: "dl_inv h rq" and bw: "dl_bw_inv h rq" by simp_all
  have adm: "admitted_bandwidth rq' = admitted_bandwidth rq"
    using dl_pick_bandwidth [of h rq] dl_pick.hyps(2) by simp
  show ?case
  proof (cases r)
    case None
    then show ?thesis using dl_pick_next_spec(2) [OF inv, of rq'] dl_pick.hyps(2) bw adm
      by (simp add: dl_bw_inv_def dl_load_def)
  next
    case (Some t)
    then show ?thesis
      using dl_pick_next_spec(1) [OF inv, of t rq'] dl_pick.hyps(2) dl_bw_inv_smaller [OF bw, of t rq'] adm
      by simp
  qed
next
  case (dl_tick rq t e rq' b)
  then show ?case
    using dl_tick_spec [of h rq t e rq' b] dl_tick_bandwidth [of h rq t e] by (simp add: dl_bw_inv_def dl_load_def)
qed

section \<open>Correctness of the deadline queue\<close>

text \<open>
  C18: \<open>pick_next\<close> is earliest-deadline-first on every reachable queue.  A returned task leaves
  the queue, had budget left, and no entry has an earlier absolute deadline.  Nothing is
  returned from an empty queue, or when the earliest entry has no budget: that entry is then
  renewed (deadline one period later, full budget) and every task stays queued.
\<close>

theorem dl_pick_next_edf:
  assumes reach: "dl_reach h rq" and pick: "dl_pick_next h rq = (r, rq')"
  shows "case r of
      Some t \<Rightarrow> dl_tasks rq = add_mset t (dl_tasks rq') \<and>
        (\<exists>k e. (k, e) \<in> set (dl_entries rq) \<and> dl_task e = t \<and> budget_remaining e \<noteq> 0 \<and>
          (\<forall>(k', e') \<in> set (dl_entries rq). abs_deadline e \<le> abs_deadline e'))
    | None \<Rightarrow> dl_tasks rq' = dl_tasks rq \<and>
        (dl_tasks rq = {#} \<or>
         (\<exists>k e. (k, e) \<in> set (dl_entries rq) \<and> budget_remaining e = 0 \<and>
           (\<forall>(k', e') \<in> set (dl_entries rq). abs_deadline e \<le> abs_deadline e') \<and>
           dl_renewed h e \<in> snd ` set (dl_entries rq')))"
proof -
  have inv: "dl_inv h rq" using dl_reach_inv [OF reach] by simp
  show ?thesis using inv
  proof (cases rule: dl_pick_next_cases)
    case empty
    then show ?thesis using pick by (auto simp: dl_tasks_def)
  next
    case (throttled k e es)
    have r: "r = None" using throttled(3) pick by simp
    have "bt_ok es" using dl_invD(1) [OF inv] by (simp add: throttled(1) bt_ok_def)
    then have "dl_renewed h e \<in> snd ` set (dl_entries rq')"
      using throttled(3) pick by (auto simp: set_bt_insert)
    moreover have "(k, e) \<in> set (dl_entries rq)" by (simp add: throttled(1))
    moreover have "\<forall>(k', e') \<in> set (dl_entries rq). abs_deadline e \<le> abs_deadline e'"
      using dl_head_earliest [OF inv throttled(1)] by blast
    ultimately have "\<exists>k e. (k, e) \<in> set (dl_entries rq) \<and> budget_remaining e = 0 \<and>
        (\<forall>(k', e') \<in> set (dl_entries rq). abs_deadline e \<le> abs_deadline e') \<and>
        dl_renewed h e \<in> snd ` set (dl_entries rq')"
      using throttled(2) by blast
    then show ?thesis
      using dl_pick_next_spec(2) [OF inv, of rq'] pick r by simp
  next
    case (some k e es)
    have "(k, e) \<in> set (dl_entries rq)" by (simp add: some(1))
    moreover have "\<forall>(k', e') \<in> set (dl_entries rq). abs_deadline e \<le> abs_deadline e'"
      using dl_head_earliest [OF inv some(1)] by blast
    ultimately have "\<exists>k' e'. (k', e') \<in> set (dl_entries rq) \<and> dl_task e' = dl_task e \<and>
        budget_remaining e' \<noteq> 0 \<and> (\<forall>(k', f) \<in> set (dl_entries rq). abs_deadline e' \<le> abs_deadline f)"
      using some(2) by blast
    moreover have "r = Some (dl_task e)" using some(3) pick by simp
    ultimately show ?thesis
      using dl_pick_next_spec(1) [OF inv, of "dl_task e" rq'] pick by simp
  qed
qed


text \<open>
  The constant-bandwidth server is not enforced on the running task, and picking leaks its
  bandwidth.  Once \<open>pick_next\<close> has returned a task, its ticks find no entry: they charge no
  budget and never ask for throttling.  The share of the picked task stays admitted, so putting
  the task back is refused whenever the bandwidth cannot hold its share a second time.
\<close>

theorem dl_running_task_uncharged:
  assumes reach: "dl_reach h rq" and pick: "dl_pick_next h rq = (Some t, rq')"
  shows "dl_tick h rq' t elapsed = (rq', False) \<and>
    (950 < unat (admitted_bandwidth rq) + dl_util h t \<longrightarrow> dl_enqueue h rq' t now = Inl BandwidthExceeded)"
proof -
  have inv: "dl_inv h rq" and bw: "dl_bw_inv h rq" using dl_reach_inv [OF reach] by simp_all
  note P = dl_pick_next_spec(1) [OF inv pick]
  have inv': "dl_inv h rq'" using P by simp
  have "t \<notin># dl_tasks rq'"
    using P distinct_mset_add [of _ t] dl_invD(4) [OF inv] by (metis dl_tasks_mset set_mset_mset)
  moreover have "ids_unique h (insert t (set_mset (dl_tasks rq')))"
    using dl_invD(5) [OF inv] P by simp
  ultimately have "\<forall>u \<in># dl_tasks rq'. task_id (h u) \<noteq> task_id (h t)"
    by (metis ids_unique_def inj_on_eq_iff insertCI)
  then have "dl_find_key (task_id (h t)) rq' = None" using dl_find_key_spec(2) [OF inv'] by blast
  then have tick: "dl_tick h rq' t elapsed = (rq', False)" by (simp add: dl_tick_def)
  have adm: "admitted_bandwidth rq' = admitted_bandwidth rq" using dl_pick_bandwidth [of h rq] pick by simp
  have "dl_ok h t" and "unat (admitted_bandwidth rq) \<le> 950" using bw P by (simp_all add: dl_bw_inv_def)
  with tick dl_enqueue_decision(2) [of h t rq' now] adm show ?thesis by simp
qed

text \<open>
  Without the bound on the runtime in \<open>dl_ok\<close>, admission can be passed by wrap-around: a task
  that wants the whole CPU, with runtime, deadline and period \<open>2^61\<close>, is charged nothing.
\<close>

lemma dl_overflow_admitted:
  assumes "policy (sched (h t)) = Deadline (2 ^ 61) (2 ^ 61) (2 ^ 61)" and "admitted_bandwidth rq \<le> 950"
  shows "\<exists>rq'. dl_enqueue h rq t now = Inr rq' \<and> admitted_bandwidth rq' = admitted_bandwidth rq"
  using assms by (simp add: dl_enqueue_ok_iff)

section \<open>Witnesses\<close>

definition dl_ex_heap :: heap where
  "dl_ex_heap = (\<lambda>i. (Task_new i ''dl'')\<lparr> sched := TaskSchedInfo_default
     \<lparr> policy := Deadline 6000000 10000000 10000000 \<rparr> \<rparr>)"

definition dl_ex_rq :: DeadlineRunQueue where
  "dl_ex_rq = \<lparr> dl_entries = [((10000005, 2), \<lparr> dl_task = 2, abs_deadline = 10000005, budget_remaining = 6000000 \<rparr>)],
                admitted_bandwidth = 600, dl_nr_running = 1 \<rparr>"

lemma dl_ex_ok: "dl_ok dl_ex_heap t" and dl_ex_util: "dl_util dl_ex_heap t = 600"
  by (simp_all add: dl_ok_def dl_util_def dl_ex_heap_def validate_dl_params_def)

lemma dl_ex_enqueue: "dl_enqueue dl_ex_heap dl_new 2 5 = Inr dl_ex_rq"
  by (simp add: dl_enqueue_def dl_ex_heap_def dl_new_def dl_ex_rq_def sched_consts Task_new_def)

lemma dl_ex_reach: "dl_reach dl_ex_heap dl_ex_rq"
  by (rule dl_reach.dl_enqueue [OF dl_reach.dl_new _ _ dl_ex_ok dl_ex_enqueue])
    (simp_all add: ids_unique_def)

lemma dl_ex_pick: "dl_pick_next dl_ex_heap dl_ex_rq = (Some 2, dl_ex_rq\<lparr> dl_entries := [], dl_nr_running := 0 \<rparr>)"
  by (simp add: dl_pick_next_def dl_ex_rq_def bt_remove_def sat_sub_def)

theorem dl_pick_next_edf_witness: "dl_tasks dl_ex_rq = {# 2 #}"
  using dl_pick_next_edf [OF dl_ex_reach dl_ex_pick] by (simp add: dl_tasks_def)


theorem dl_running_task_uncharged_witness:
  "snd (dl_tick dl_ex_heap (dl_ex_rq\<lparr> dl_entries := [], dl_nr_running := 0 \<rparr>) 2 7000000) = False \<and>
   dl_enqueue dl_ex_heap (dl_ex_rq\<lparr> dl_entries := [], dl_nr_running := 0 \<rparr>) 2 8000000 = Inl BandwidthExceeded"
  using dl_running_task_uncharged [OF dl_ex_reach dl_ex_pick, of 7000000 8000000] dl_ex_util [of 2]
  by (simp add: dl_ex_rq_def)

end
