(* ===== verification/Runqueue.thy ===== *)
theory Runqueue
  imports Eevdf Realtime Deadline_Queue
begin

text \<open>
  The per-CPU run queue of \<open>kernel/mks/src/runqueue.rs\<close>, which dispatches on the scheduling class
  of a task, and the per-CPU statistics of \<open>kernel/mks/src/stats.rs\<close>.  The clock is read from
  the time-stamp counter, so the operations that need it take the reading \<open>now\<close> as an argument.
\<close>

section \<open>Statistics\<close>

record CpuStats =
  stats_cpu_id :: nat
  switches :: u64
  run_time_ns :: u64
  idle_time_ns :: u64
  tasks_stolen_out :: u64
  tasks_stolen_in :: u64
  avg_wakeup_latency_ns :: u64
  max_wakeup_latency_ns :: u64
  deadline_misses :: u64

definition CpuStats_new :: "nat \<Rightarrow> CpuStats" where
  "CpuStats_new cpu =
     \<lparr> stats_cpu_id = cpu, switches = 0, run_time_ns = 0, idle_time_ns = 0, tasks_stolen_out = 0,
       tasks_stolen_in = 0, avg_wakeup_latency_ns = 0, max_wakeup_latency_ns = 0, deadline_misses = 0 \<rparr>"

text \<open>The two halves that \<open>rdtsc\<close> returns are the arguments.\<close>

definition monotonic_ns :: "u32 \<Rightarrow> u32 \<Rightarrow> u64" where
  "monotonic_ns lo hi = (push_bit 32 (ucast hi) OR ucast lo) div 3"

definition record_switch :: "u64 \<Rightarrow> Task \<Rightarrow> Task \<Rightarrow> CpuStats \<Rightarrow> CpuStats" where
  "record_switch now from to st =
     (let st1 = st\<lparr> switches := switches st + 1 \<rparr>;
          wakeup_ns = wakeup_time_ns (sched to)
      in if 0 < wakeup_ns \<and> wakeup_ns \<le> now then
           let latency = now - wakeup_ns;
               st2 = st1\<lparr> avg_wakeup_latency_ns := (avg_wakeup_latency_ns st1 * 7 + latency) div 8 \<rparr>
           in if max_wakeup_latency_ns st2 < latency then st2\<lparr> max_wakeup_latency_ns := latency \<rparr> else st2
         else st1)"

section \<open>The per-CPU run queue\<close>

datatype SchedClassId = ClsDeadline | ClsCompute | ClsRealTime | ClsNormal | ClsBatch | ClsIdle

fun class_of :: "SchedClass \<Rightarrow> SchedClassId" where
  "class_of (Deadline _ _ _) = ClsDeadline"
| "class_of Compute = ClsCompute"
| "class_of Fifo = ClsRealTime"
| "class_of (RoundRobin _) = ClsRealTime"
| "class_of Normal = ClsNormal"
| "class_of Batch = ClsBatch"
| "class_of Idle = ClsIdle"

record PerCpuRunQueue =
  cpu_id :: nat
  deadline_rq :: DeadlineRunQueue
  rt_rq :: RtRunQueue
  cfs_rq :: EevdfRunQueue
  idle_task :: "taskref option"
  load_count :: usize
  stats :: CpuStats
  current :: "taskref option"
  need_resched :: bool

definition rq_new :: "nat \<Rightarrow> PerCpuRunQueue" where
  "rq_new cpu =
     \<lparr> cpu_id = cpu, deadline_rq = dl_new, rt_rq = rt_new, cfs_rq = eevdf_new, idle_task = None,
       load_count = 0, stats = CpuStats_new cpu, current = None, need_resched = False \<rparr>"

definition set_idle_task :: "taskref \<Rightarrow> taskref option \<Rightarrow> taskref option" where
  "set_idle_task task q = Some task"

definition idle_pick_next :: "taskref option \<Rightarrow> taskref option" where
  "idle_pick_next q = q"

definition task_class :: "heap \<Rightarrow> taskref \<Rightarrow> SchedClassId" where
  "task_class h task = class_of (policy (sched (h task)))"

text \<open>
  \<open>None\<close> is the panic of the slice division in the EEVDF queue.  The result of the deadline
  queue is discarded by the code (\<open>let _ = ...\<close>): a refused task leaves the queue unchanged.
\<close>

definition cfs_enqueue ::
  "heap \<Rightarrow> PerCpuRunQueue \<Rightarrow> taskref \<Rightarrow> (heap \<times> PerCpuRunQueue) option" where
  "cfs_enqueue h rq task =
     do { (h', q) \<leftarrow> eevdf_enqueue h (cfs_rq rq) task True; Some (h', rq\<lparr> cfs_rq := q \<rparr>) }"

definition rq_enqueue ::
  "u64 \<Rightarrow> heap \<Rightarrow> PerCpuRunQueue \<Rightarrow> taskref \<Rightarrow> (heap \<times> PerCpuRunQueue) option" where
  "rq_enqueue now h rq task =
     (if task_class h task = ClsIdle
      then Some (h, rq\<lparr> idle_task := set_idle_task task (idle_task rq) \<rparr>)
      else do {
        (h', rq') \<leftarrow>
          (case task_class h task of
             ClsDeadline \<Rightarrow>
               (case dl_enqueue h (deadline_rq rq) task now of
                  Inr q \<Rightarrow> Some (h, rq\<lparr> deadline_rq := q \<rparr>)
                | Inl _ \<Rightarrow> Some (h, rq))
           | ClsRealTime \<Rightarrow> Some (h, rq\<lparr> rt_rq := rt_enqueue h (rt_rq rq) task \<rparr>)
           | _ \<Rightarrow> cfs_enqueue h rq task);
        Some (h', rq'\<lparr> load_count := load_count rq' + 1 \<rparr>)
      })"

definition cfs_dequeue :: "heap \<Rightarrow> PerCpuRunQueue \<Rightarrow> taskref \<Rightarrow> heap \<times> PerCpuRunQueue" where
  "cfs_dequeue h rq task =
     (let (h', q) = eevdf_dequeue h (cfs_rq rq) task in (h', rq\<lparr> cfs_rq := q \<rparr>))"

definition rq_dequeue :: "heap \<Rightarrow> PerCpuRunQueue \<Rightarrow> taskref \<Rightarrow> heap \<times> PerCpuRunQueue" where
  "rq_dequeue h rq task =
     (if task_class h task = ClsIdle then (h, rq)
      else
        let (h', rq') =
          (case task_class h task of
             ClsDeadline \<Rightarrow> (h, rq\<lparr> deadline_rq := dl_dequeue h (deadline_rq rq) task \<rparr>)
           | ClsRealTime \<Rightarrow> (h, rq\<lparr> rt_rq := rt_dequeue h (rt_rq rq) task \<rparr>)
           | _ \<Rightarrow> cfs_dequeue h rq task)
        in (h', rq'\<lparr> load_count := load_count rq' - 1 \<rparr>))"

definition rq_tick :: "heap \<Rightarrow> PerCpuRunQueue \<Rightarrow> u64 \<Rightarrow> heap \<times> PerCpuRunQueue" where
  "rq_tick h rq elapsed_ns =
     (case current rq of
        None \<Rightarrow> (h, rq)
      | Some c \<Rightarrow>
          let (h', rq', should_preempt) =
            (case task_class h c of
               ClsDeadline \<Rightarrow>
                 (let (q, b) = dl_tick h (deadline_rq rq) c elapsed_ns in (h, rq\<lparr> deadline_rq := q \<rparr>, b))
             | ClsRealTime \<Rightarrow> (let (h', b) = rt_tick h c elapsed_ns in (h', rq, b))
             | ClsIdle \<Rightarrow> (h, rq, False)
             | _ \<Rightarrow> (let (h', q, b) = eevdf_tick h (cfs_rq rq) c elapsed_ns
                     in (h', rq\<lparr> cfs_rq := q \<rparr>, b)))
          in (h', if should_preempt then rq'\<lparr> need_resched := True \<rparr> else rq'))"

definition yield_current ::
  "u64 \<Rightarrow> heap \<Rightarrow> PerCpuRunQueue \<Rightarrow> (heap \<times> PerCpuRunQueue) option" where
  "yield_current now h rq =
     (let rq1 = rq\<lparr> current := None \<rparr>
      in case current rq of
           None \<Rightarrow> Some (h, rq1)
         | Some task \<Rightarrow> if runstate (h task) = Runnable then rq_enqueue now h rq1 task else Some (h, rq1))"

definition set_current :: "heap \<Rightarrow> PerCpuRunQueue \<Rightarrow> taskref \<Rightarrow> heap \<times> PerCpuRunQueue" where
  "set_current h rq task =
     (h(task := h task\<lparr> sched := sched (h task)\<lparr> last_cpu := cpu_id rq \<rparr> \<rparr>),
      rq\<lparr> current := Some task, need_resched := False \<rparr>)"

definition rq_steal_one :: "heap \<Rightarrow> PerCpuRunQueue \<Rightarrow> taskref option \<times> PerCpuRunQueue" where
  "rq_steal_one h rq =
     (case eevdf_steal_one h (cfs_rq rq) of
        (None, q) \<Rightarrow> (None, rq\<lparr> cfs_rq := q \<rparr>)
      | (Some task, q) \<Rightarrow> (Some task, rq\<lparr> cfs_rq := q, load_count := load_count rq - 1 \<rparr>))"

definition rq_load :: "PerCpuRunQueue \<Rightarrow> usize" where
  "rq_load rq = load_count rq"

section \<open>Statistics lemmas\<close>

lemma record_switch_max_mono: "max_wakeup_latency_ns st \<le> max_wakeup_latency_ns (record_switch now f t st)"
  by (auto simp: record_switch_def Let_def)

text \<open>The clock cannot exceed a third of the counter range, so sums of a few readings fit.\<close>

lemma monotonic_ns_bound: "unat (monotonic_ns lo hi) \<le> (2 ^ 64 - 1) div 3"
proof -
  let ?t = "push_bit 32 (ucast hi) OR ucast lo :: u64"
  have "unat ?t < 2 ^ 64" using unsigned_less [of ?t] by simp
  then have "unat ?t div 3 \<le> (2 ^ 64 - 1) div 3" by (intro div_le_mono) simp
  then show ?thesis unfolding monotonic_ns_def by (simp only: unat_div_distrib) simp
qed

section \<open>Dispatch\<close>

text \<open>The tasks queued on a CPU, by class queue.\<close>

definition rq_tasks :: "PerCpuRunQueue \<Rightarrow> taskref multiset" where
  "rq_tasks rq = dl_tasks (deadline_rq rq) + rt_tasks (rt_rq rq) + eevdf_tasks (cfs_rq rq)"

definition rq_inv :: "heap \<Rightarrow> PerCpuRunQueue \<Rightarrow> bool" where
  "rq_inv h rq \<longleftrightarrow> dl_inv h (deadline_rq rq) \<and> rt_inv h (rt_rq rq) \<and> eevdf_inv h (cfs_rq rq) \<and>
     ids_unique h (set_mset (rq_tasks rq))"

definition cfs_class :: "SchedClassId \<Rightarrow> bool" where
  "cfs_class c \<longleftrightarrow> c = ClsCompute \<or> c = ClsNormal \<or> c = ClsBatch"

lemma class_cases:
  obtains "c = ClsDeadline" | "c = ClsRealTime" | "c = ClsIdle" | "cfs_class c"
  by (cases c) (auto simp: cfs_class_def)

lemma rq_enqueue_cfs:
  "cfs_class (task_class h t) \<Longrightarrow> rq_enqueue now h rq t =
     (case eevdf_enqueue h (cfs_rq rq) t True of
        None \<Rightarrow> None
      | Some (h', q) \<Rightarrow> Some (h', rq\<lparr> cfs_rq := q, load_count := load_count rq + 1 \<rparr>))"
  by (auto simp: rq_enqueue_def cfs_enqueue_def cfs_class_def split: option.splits)

lemma rq_dequeue_cfs:
  "cfs_class (task_class h t) \<Longrightarrow> rq_dequeue h rq t =
     (fst (eevdf_dequeue h (cfs_rq rq) t),
      rq\<lparr> cfs_rq := snd (eevdf_dequeue h (cfs_rq rq) t), load_count := load_count rq - 1 \<rparr>)"
  by (auto simp: rq_dequeue_def cfs_dequeue_def cfs_class_def split: prod.splits)

text \<open>The EEVDF queue writes only the scheduling record of its task, not its class.\<close>

lemma eevdf_enqueue_policy:
  "eevdf_enqueue h q t wk = Some (h', q') \<Longrightarrow> policy (sched (h' u)) = policy (sched (h u)) \<and>
     rt_priority (sched (h' u)) = rt_priority (sched (h u))"
  by (erule eevdf_enqueue_SomeD) (auto simp: place_vruntime_def)

lemma dl_inv_cong:
  assumes "\<And>t. task_id (h' t) = task_id (h t)" "\<And>t. policy (sched (h' t)) = policy (sched (h t))"
  shows "dl_inv h' q \<longleftrightarrow> dl_inv h q"
  using assms by (simp add: dl_inv_def ids_unique_def is_dl_def)

lemma rt_inv_cong:
  assumes "\<And>t. rt_priority (sched (h' t)) = rt_priority (sched (h t))"
  shows "rt_inv h' q \<longleftrightarrow> rt_inv h q"
  using assms by (simp add: rt_inv_def rt_prio_def)

lemma ids_unique_cong: "(\<And>t. task_id (h' t) = task_id (h t)) \<Longrightarrow> ids_unique h' T \<longleftrightarrow> ids_unique h T"
  by (simp add: ids_unique_def)

lemma ids_unique_eevdf: "ids_unique h (insert t (set_mset (rq_tasks rq))) \<Longrightarrow>
    inj_on (\<lambda>t. task_id (h t)) (insert t (eevdf_queued (cfs_rq rq)))"
  by (erule ids_unique_mono [THEN ids_unique_def [THEN iffD1]]) (auto simp: rq_tasks_def)

lemma ids_unique_dl: "ids_unique h (insert t (set_mset (rq_tasks rq))) \<Longrightarrow>
    ids_unique h (insert t (set_mset (dl_tasks (deadline_rq rq))))"
  by (erule ids_unique_mono) (auto simp: rq_tasks_def)

text \<open>Every queue holds tasks of its own class, and EEVDF tasks are marked as queued.\<close>

definition rq_class_ok :: "heap \<Rightarrow> PerCpuRunQueue \<Rightarrow> bool" where
  "rq_class_ok h rq \<longleftrightarrow>
     (\<forall>t \<in># dl_tasks (deadline_rq rq). task_class h t = ClsDeadline) \<and>
     (\<forall>t \<in># rt_tasks (rt_rq rq). task_class h t = ClsRealTime) \<and>
     (\<forall>t \<in># eevdf_tasks (cfs_rq rq). cfs_class (task_class h t) \<and> on_rq (sched (h t)))"

definition rq_refused :: "u64 \<Rightarrow> heap \<Rightarrow> PerCpuRunQueue \<Rightarrow> taskref \<Rightarrow> bool" where
  "rq_refused now h rq t \<longleftrightarrow> task_class h t = ClsDeadline \<and> isl (dl_enqueue h (deadline_rq rq) t now)"

text \<open>What an enqueue of a new task does in each class.\<close>

definition rq_enqueued :: "u64 \<Rightarrow> heap \<Rightarrow> PerCpuRunQueue \<Rightarrow> taskref \<Rightarrow> heap \<Rightarrow> PerCpuRunQueue \<Rightarrow> bool" where
  "rq_enqueued now h rq t h' rq' \<longleftrightarrow>
     rq_inv h' rq' \<and>
     rq_tasks rq' = (if task_class h t = ClsIdle \<or> rq_refused now h rq t then rq_tasks rq
                     else add_mset t (rq_tasks rq)) \<and>
     load_count rq' = load_count rq + (if task_class h t = ClsIdle then 0 else 1) \<and>
     (rq_class_ok h rq \<longrightarrow> rq_class_ok h' rq')"

lemma rq_inv_cfs_enqueue:
  assumes inv: "rq_inv h rq" and new: "t \<notin># rq_tasks rq"
    and ids: "ids_unique h (insert t (set_mset (rq_tasks rq)))"
    and enq: "eevdf_enqueue h (cfs_rq rq) t True = Some (h', q)"
  shows "rq_inv h' (rq\<lparr> cfs_rq := q, load_count := n \<rparr>)"
    and "rq_tasks (rq\<lparr> cfs_rq := q, load_count := n \<rparr>) = add_mset t (rq_tasks rq)"
    and "cfs_class (task_class h t) \<Longrightarrow> rq_class_ok h rq \<Longrightarrow> rq_class_ok h' (rq\<lparr> cfs_rq := q, load_count := n \<rparr>)"
proof -
  have new': "t \<notin> eevdf_queued (cfs_rq rq)"
    using new by (auto simp: rq_tasks_def simp flip: set_mset_eevdf_tasks)
  have inv': "eevdf_inv h (cfs_rq rq)" using inv by (simp add: rq_inv_def)
  note E = eevdf_enqueue_inv [OF inv' new' ids_unique_eevdf [OF ids] enq]
  show tasks: "rq_tasks (rq\<lparr> cfs_rq := q, load_count := n \<rparr>) = add_mset t (rq_tasks rq)"
    using E(2) by (simp add: rq_tasks_def)
  have same: "task_id (h' u) = task_id (h u)" "policy (sched (h' u)) = policy (sched (h u))"
    "rt_priority (sched (h' u)) = rt_priority (sched (h u))" for u
    using eevdf_enqueue_frame(2) [OF enq] eevdf_enqueue_policy [OF enq] by simp_all
  have "ids_unique h' (set_mset (rq_tasks (rq\<lparr> cfs_rq := q, load_count := n \<rparr>)))"
    unfolding tasks using ids by (simp add: ids_unique_cong [OF same(1)])
  with E(1) inv show "rq_inv h' (rq\<lparr> cfs_rq := q, load_count := n \<rparr>)"
    by (simp add: rq_inv_def dl_inv_cong [OF same(1,2)] rt_inv_cong [OF same(3)])
  have cls: "task_class h' u = task_class h u" for u by (simp add: task_class_def same(2))
  have on: "u = t \<or> on_rq (sched (h u)) \<Longrightarrow> on_rq (sched (h' u))" for u
    using eevdf_enqueue_frame(1,4) [OF enq] by (cases "u = t") simp_all
  show "cfs_class (task_class h t) \<Longrightarrow> rq_class_ok h rq \<Longrightarrow> rq_class_ok h' (rq\<lparr> cfs_rq := q, load_count := n \<rparr>)"
    using on by (simp add: rq_class_ok_def cls E(2))
qed

lemma rq_enqueue_spec:
  assumes inv: "rq_inv h rq" and new: "t \<notin># rq_tasks rq"
    and ids: "ids_unique h (insert t (set_mset (rq_tasks rq)))"
    and room: "unat (total_weight (cfs_rq rq)) + 88761 < 2 ^ 64"
  shows "\<exists>h' rq'. rq_enqueue now h rq t = Some (h', rq') \<and> rq_enqueued now h rq t h' rq'"
proof (cases "task_class h t" rule: class_cases)
  case 1
  have dl: "dl_inv h (deadline_rq rq)" using inv by (simp add: rq_inv_def)
  have new': "t \<notin># dl_tasks (deadline_rq rq)" using new by (simp add: rq_tasks_def)
  show ?thesis
  proof (cases "dl_enqueue h (deadline_rq rq) t now")
    case (Inl e)
    then show ?thesis
      using 1 inv
      by (simp add: rq_enqueue_def rq_enqueued_def rq_refused_def rq_inv_def rq_tasks_def rq_class_ok_def)
  next
    case (Inr q)
    note E = dl_enqueue_spec [OF dl ids_unique_dl [OF ids] new' Inr]
    show ?thesis
      using 1 inv ids E Inr
      by (simp add: rq_enqueue_def rq_enqueued_def rq_refused_def rq_inv_def rq_tasks_def rq_class_ok_def)
  qed
next
  case 2
  have "rt_inv h (rt_rq rq)" using inv by (simp add: rq_inv_def)
  with 2 inv ids show ?thesis
    by (simp add: rq_enqueue_def rq_enqueued_def rq_refused_def rq_inv_def rq_tasks_def rq_class_ok_def
        rt_enqueue_inv rt_enqueue_tasks)
next
  case 3
  then show ?thesis
    using inv by (simp add: rq_enqueue_def rq_enqueued_def rq_inv_def rq_tasks_def rq_class_ok_def)
next
  case 4
  obtain h' q where enq: "eevdf_enqueue h (cfs_rq rq) t True = Some (h', q)"
    using eevdf_enqueue_total [OF room] by blast
  have "task_class h t \<noteq> ClsIdle" "\<not> rq_refused now h rq t"
    using 4 by (auto simp: cfs_class_def rq_refused_def)
  then show ?thesis
    using rq_inv_cfs_enqueue [OF inv new ids enq] enq 4
    by (simp add: rq_enqueue_cfs [OF 4] rq_enqueued_def)
qed

text \<open>Dequeueing a queued task removes it from the queue of its class.\<close>

lemma rq_dequeue_tasks:
  assumes inv: "rq_inv h rq" and cls: "rq_class_ok h rq" and t: "t \<in># rq_tasks rq"
  shows "rq_tasks rq = add_mset t (rq_tasks (snd (rq_dequeue h rq t))) \<and>
    load_count (snd (rq_dequeue h rq t)) = load_count rq - 1"
proof (cases "task_class h t" rule: class_cases)
  case 1
  then have q: "t \<in># dl_tasks (deadline_rq rq)"
    using t cls by (auto simp: rq_tasks_def rq_class_ok_def cfs_class_def)
  have "dl_inv h (deadline_rq rq)" using inv by (simp add: rq_inv_def)
  from dl_dequeue_spec(2) [OF this _ q] dl_invD(5) [OF this] q
  have "dl_tasks (deadline_rq rq) = add_mset t (dl_tasks (dl_dequeue h (deadline_rq rq) t))"
    by (simp add: insert_absorb)
  with 1 show ?thesis by (simp add: rq_dequeue_def rq_tasks_def)
next
  case 2
  then have q: "t \<in># rt_tasks (rt_rq rq)"
    using t cls by (auto simp: rq_tasks_def rq_class_ok_def cfs_class_def)
  have "inj_on (\<lambda>u. task_id (h u)) (set_mset (rt_tasks (rt_rq rq)))"
    using inv by (auto simp: rq_inv_def rq_tasks_def ids_unique_def intro: inj_on_subset)
  with rt_dequeue_spec(2) [OF _ q, of h] inv
  have "rt_tasks (rt_rq rq) = add_mset t (rt_tasks (rt_dequeue h (rt_rq rq) t))" by (simp add: rq_inv_def)
  with 2 show ?thesis by (simp add: rq_dequeue_def rq_tasks_def)
next
  case 3
  then show ?thesis using t cls by (auto simp: rq_tasks_def rq_class_ok_def cfs_class_def)
next
  case 4
  then have q: "t \<in># eevdf_tasks (cfs_rq rq)"
    using t cls by (auto simp: rq_tasks_def rq_class_ok_def cfs_class_def)
  have "eevdf_inv h (cfs_rq rq)" using inv by (simp add: rq_inv_def)
  from eevdf_dequeue_tasks [OF this, of t] q cls
  have "eevdf_tasks (cfs_rq rq) = add_mset t (eevdf_tasks (snd (eevdf_dequeue h (cfs_rq rq) t)))"
    by (simp add: rq_class_ok_def)
  then show ?thesis by (simp add: rq_dequeue_cfs [OF 4] rq_tasks_def)
qed

lemma rq_tasks_new [simp]: "rq_tasks (rq_new c) = {#}"
  by (simp add: rq_tasks_def rq_new_def eevdf_tasks_def) (simp add: eevdf_new_def)

lemma rq_new_ok: "rq_inv h (rq_new c)" "rq_class_ok h (rq_new c)"
proof -
  have "eevdf_tasks eevdf_new = {#}" by (simp add: eevdf_new_def eevdf_tasks_def)
  then show "rq_inv h (rq_new c)" "rq_class_ok h (rq_new c)"
    unfolding rq_inv_def rq_tasks_new
    by (simp_all add: ids_unique_def rq_class_ok_def rq_new_def dl_inv_new rt_inv_new eevdf_inv_new)
qed

section \<open>Correctness of the per-CPU queue\<close>


text \<open>
  A deadline task that admission control refuses is lost.  The error of the deadline queue
  is discarded: the task is filed nowhere, and yet the load of the CPU is increased.
\<close>

theorem rq_refused_task_lost:
  assumes "task_class h t = ClsDeadline" and "dl_enqueue h (deadline_rq rq) t now = Inl e"
  shows "rq_enqueue now h rq t = Some (h, rq\<lparr> load_count := load_count rq + 1 \<rparr>) \<and>
    rq_tasks (rq\<lparr> load_count := load_count rq + 1 \<rparr>) = rq_tasks rq"
  using assms by (simp add: rq_enqueue_def rq_tasks_def)

text \<open>
  A round-robin task that yields is queued twice.  \<open>pick_next\<close> leaves the picked round-robin
  task at the back of its level, and \<open>yield_current\<close> enqueues it again, so each cycle of picking,
  running and yielding adds one more reference to the same task.
\<close>

theorem rr_yield_duplicates:
  assumes inv: "rt_inv h (rt_rq rq)" and pick: "rt_pick_next h (rt_rq rq) = Some (Some t, q)"
    and rr: "is_rr h t" and run: "runstate (h t) = Runnable"
    and cur: "set_current h (rq\<lparr> rt_rq := q \<rparr>) t = (h1, rq1)"
  shows "\<exists>rq2. yield_current now h1 rq1 = Some (h1, rq2) \<and>
    count (rt_tasks (rt_rq rq2)) t = count (rt_tasks (rt_rq rq)) t + 1"
proof -
  have h1: "h1 = h(t := h t\<lparr> sched := sched (h t)\<lparr> last_cpu := cpu_id rq \<rparr> \<rparr>)"
    and rq1: "rq1 = rq\<lparr> rt_rq := q, current := Some t, need_resched := False \<rparr>"
    using cur by (simp_all add: set_current_def)
  have cls: "task_class h1 t = ClsRealTime" and run1: "runstate (h1 t) = Runnable"
    using rr run by (auto simp: h1 is_rr_def task_class_def split: SchedClass.splits)
  have "rt_inv h1 q"
    using rt_pick_next_spec(4) [OF inv pick] by (subst rt_inv_cong [of _ h]) (simp_all add: h1)
  then have "rt_tasks (rt_enqueue h1 q t) = add_mset t (rt_tasks (rt_rq rq))"
    using rt_pick_next_spec(3) [OF inv pick] rr by (simp add: rt_enqueue_tasks)
  then show ?thesis
    using cls run1 by (simp add: yield_current_def rq_enqueue_def rq1)
qed

section \<open>Witnesses\<close>


theorem rq_refused_task_lost_witness:
  "rq_enqueue 7 dl_ex_heap ((rq_new 0)\<lparr> deadline_rq := dl_ex_rq \<rparr>) 3 =
     Some (dl_ex_heap, (rq_new 0)\<lparr> deadline_rq := dl_ex_rq, load_count := 1 \<rparr>)"
proof -
  have "dl_enqueue dl_ex_heap dl_ex_rq 3 7 = Inl BandwidthExceeded"
    using dl_enqueue_decision(2) [OF dl_ex_ok [of 3], of dl_ex_rq 7] dl_ex_util [of 3]
    by (simp add: dl_ex_rq_def)
  then show ?thesis
    using rq_refused_task_lost [of dl_ex_heap 3 "(rq_new 0)\<lparr> deadline_rq := dl_ex_rq \<rparr>" 7 BandwidthExceeded]
    by (simp add: task_class_def dl_ex_heap_def rq_new_def)
qed

theorem rr_yield_duplicates_witness:
  "\<exists>q h1 rq1 rq2. set_current rt_ex_heap ((rq_new 0)\<lparr> rt_rq := q \<rparr>) 6 = (h1, rq1) \<and>
     yield_current 5 h1 rq1 = Some (h1, rq2) \<and> count (rt_tasks (rt_rq rq2)) 6 = 2"
proof -
  let ?rq = "(rq_new 0)\<lparr> rt_rq := rt_ex_rq \<rparr>"
  have inv: "rt_inv rt_ex_heap (rt_rq ?rq)" using rt_reach_inv [OF rt_ex_reach] by simp
  obtain q where pick: "rt_pick_next rt_ex_heap (rt_rq ?rq) = Some (Some 6, q)"
    using rt_pick_next_top [OF _ rt_ex_top rt_ex_queues(1), of rt_ex_heap] inv by auto
  obtain h1 rq1 where cur: "set_current rt_ex_heap (?rq\<lparr> rt_rq := q \<rparr>) 6 = (h1, rq1)" by fastforce
  have "runstate (rt_ex_heap 6) = Runnable" by (simp add: rt_ex_heap_def Task_new_def)
  from rr_yield_duplicates [OF inv pick rt_ex_rr this cur, of 5]
  obtain rq2 where "yield_current 5 h1 rq1 = Some (h1, rq2)" "count (rt_tasks (rt_rq rq2)) 6 = 2"
    by (auto simp: rt_ex_tasks)
  with cur show ?thesis by auto
qed

end
