(* ===== verification/Topology.thy ===== *)
theory Topology
  imports Prelude
begin

text \<open>
  The CPU topology of \<open>kernel/mks/src/topology.rs\<close>: cache distances and the precomputed steal
  orders.  \<open>sort_unstable_by_key\<close> on the full key \<open>(distance, id)\<close> is the sort of the pairs.
\<close>

datatype CacheDistance = HyperThread | SameCore | SameL3 | CrossNuma

fun cache_rank :: "CacheDistance \<Rightarrow> nat" where
  "cache_rank HyperThread = 0"
| "cache_rank SameCore = 1"
| "cache_rank SameL3 = 2"
| "cache_rank CrossNuma = 3"

lemma cache_rank_inj: "cache_rank a = cache_rank b \<longleftrightarrow> a = b"
  by (cases a; cases b) simp_all

instantiation CacheDistance :: linorder
begin

definition less_eq_CacheDistance :: "CacheDistance \<Rightarrow> CacheDistance \<Rightarrow> bool" where
  "less_eq_CacheDistance a b \<longleftrightarrow> cache_rank a \<le> cache_rank b"

definition less_CacheDistance :: "CacheDistance \<Rightarrow> CacheDistance \<Rightarrow> bool" where
  "less_CacheDistance a b \<longleftrightarrow> cache_rank a < cache_rank b"

instance
  by standard (auto simp: less_eq_CacheDistance_def less_CacheDistance_def cache_rank_inj)

end

record CpuInfo =
  logical_id :: nat
  core_id :: u32
  package_id :: u32
  numa_node :: nat
  l3_group :: u32

definition CpuInfo_unknown :: "nat \<Rightarrow> CpuInfo" where
  "CpuInfo_unknown i =
     \<lparr> logical_id = i, core_id = of_nat i, package_id = 0, numa_node = 0, l3_group = 0 \<rparr>"

record CpuTopology =
  cpus :: "CpuInfo list"
  steal_orders :: "nat list list"

definition distance :: "CpuInfo \<Rightarrow> CpuInfo \<Rightarrow> CacheDistance" where
  "distance a b =
     (if numa_node a \<noteq> numa_node b then CrossNuma
      else if l3_group a \<noteq> l3_group b then CrossNuma
      else if core_id a \<noteq> core_id b then SameL3
      else if logical_id a \<noteq> logical_id b then HyperThread
      else HyperThread)"

definition from_cpus :: "CpuInfo list \<Rightarrow> CpuTopology" where
  "from_cpus cs =
     (let num = length cs;
          others = (\<lambda>me. map (\<lambda>i. (distance (cs ! me) (cs ! i), i)) (filter (\<lambda>i. i \<noteq> me) [0..<num]))
      in \<lparr> cpus = cs, steal_orders = map (\<lambda>me. map snd (sort (others me))) [0..<num] \<rparr>)"

definition uniform :: "nat \<Rightarrow> CpuTopology" where
  "uniform num_cpus =
     from_cpus (map (\<lambda>i. \<lparr> logical_id = i, core_id = of_nat (i div 2), package_id = 0,
                           numa_node = 0, l3_group = 0 \<rparr>) [0..<num_cpus])"

definition cpu_to_numa :: "CpuTopology \<Rightarrow> nat \<Rightarrow> nat" where
  "cpu_to_numa topo cpu = (case vec_get (cpus topo) cpu of Some c \<Rightarrow> numa_node c | None \<Rightarrow> 0)"

definition steal_order :: "CpuTopology \<Rightarrow> nat \<Rightarrow> nat list" where
  "steal_order topo cpu_id = (case vec_get (steal_orders topo) cpu_id of Some v \<Rightarrow> v | None \<Rightarrow> [])"

definition cpus_in_numa :: "CpuTopology \<Rightarrow> nat \<Rightarrow> nat list" where
  "cpus_in_numa topo node = map logical_id (filter (\<lambda>c. numa_node c = node) (cpus topo))"

section \<open>Steal orders\<close>

lemma steal_order_from_cpus:
  "me < length cs \<Longrightarrow> steal_order (from_cpus cs) me =
     map snd (sort (map (\<lambda>i. (distance (cs ! me) (cs ! i), i)) (filter (\<lambda>i. i \<noteq> me) [0..<length cs])))"
  by (simp add: steal_order_def from_cpus_def vec_get_def Let_def)

lemma steal_order_beyond: "length cs \<le> me \<Longrightarrow> steal_order (from_cpus cs) me = []"
  by (simp add: steal_order_def from_cpus_def vec_get_def Let_def)

lemma sorted_tagged:
  assumes "sorted ps" "distinct ps" and "\<forall>p \<in> set ps. fst p = f (snd p)"
  shows "sorted_wrt (\<lambda>a b. (f a, a) < (f b, b)) (map snd ps)"
proof -
  have "sorted_wrt (<) ps" using assms(1,2) by (simp add: strict_sorted_iff)
  then have "sorted_wrt (\<lambda>a b. (f (snd a), snd a) < (f (snd b), snd b)) ps"
  proof (rule sorted_wrt_mono_rel [rotated])
    fix a b assume ab: "a \<in> set ps" "b \<in> set ps" "a < b"
    then have "a = (f (snd a), snd a)" "b = (f (snd b), snd b)"
      using assms(3) by (simp_all add: prod_eq_iff)
    with ab(3) show "(f (snd a), snd a) < (f (snd b), snd b)" by simp
  qed
  then show ?thesis by (simp add: sorted_wrt_map)
qed

text \<open>
  The steal order of a CPU lists every other CPU exactly once, never the CPU itself, from
  the nearest cache distance to the farthest, equal distances by ascending id; an id that is
  not in the topology has the empty order.
\<close>

lemma steal_order_correct:
  "set (steal_order (from_cpus cs) me) = (if me < length cs then {..<length cs} - {me} else {}) \<and>
   distinct (steal_order (from_cpus cs) me) \<and>
   sorted_wrt (\<lambda>a b. (distance (cs ! me) (cs ! a), a) < (distance (cs ! me) (cs ! b), b))
     (steal_order (from_cpus cs) me)"
proof (cases "me < length cs")
  case True
  let ?f = "\<lambda>i. (distance (cs ! me) (cs ! i), i)"
  let ?ps = "map ?f (filter (\<lambda>i. i \<noteq> me) [0..<length cs])"
  have inj: "inj_on ?f A" "inj_on snd (?f ` A)" for A by (auto simp: inj_on_def)
  have d: "distinct ?ps" using inj(1) by (simp add: distinct_map)
  then have "distinct (map snd (sort ?ps))" using inj(2) by (simp add: distinct_map)
  moreover have "sorted_wrt (\<lambda>a b. ?f a < ?f b) (map snd (sort ?ps))"
    by (rule sorted_tagged) (use d in auto)
  moreover have "set (map snd (sort ?ps)) = {..<length cs} - {me}" by force
  ultimately show ?thesis using True by (simp only: steal_order_from_cpus [OF True]) simp
next
  case False
  then show ?thesis by (simp add: steal_order_beyond)
qed

text \<open>\<open>SameCore\<close> is a declared distance that no pair of CPUs ever has.\<close>

lemma distance_never_SameCore: "distance a b \<noteq> SameCore"
  by (simp add: distance_def)

end
