(* ===== verification/Mks.thy ===== *)
theory Mks
  imports Runqueue Topology
begin

text \<open>
  The scheduler object of \<open>kernel/mks/src/lib.rs\<close>: per-CPU run queues, placement of tasks on
  CPUs, the class order of \<open>pick_next\<close> and work stealing.  \<open>None\<close> is a panic: an index outside
  the vector of run queues, a use before \<open>init\<close>, or a panic of a class queue.
\<close>

section \<open>State and operations\<close>

record MaiScheduler =
  rqs :: "PerCpuRunQueue list"
  topology_rw :: CpuTopology
  num_cpus :: nat
  global_task_count :: usize
  context_switches :: u64

definition mks_new :: "nat \<Rightarrow> CpuTopology \<Rightarrow> MaiScheduler" where
  "mks_new n topology =
     \<lparr> rqs = map rq_new [0..<n], topology_rw = topology, num_cpus = n, global_task_count = 0,
       context_switches = 0 \<rparr>"

text \<open>The global instance is a \<open>spin::Once\<close>: only the first \<open>init\<close> has an effect.\<close>

definition mks_init :: "nat \<Rightarrow> CpuTopology \<Rightarrow> MaiScheduler option \<Rightarrow> MaiScheduler option" where
  "mks_init n topology mks = (case mks of None \<Rightarrow> Some (mks_new n topology) | Some s \<Rightarrow> Some s)"

definition mks_get :: "MaiScheduler option \<Rightarrow> MaiScheduler option" where
  "mks_get mks = mks"

definition mks_expand :: "nat \<Rightarrow> CpuTopology \<Rightarrow> MaiScheduler \<Rightarrow> MaiScheduler" where
  "mks_expand n topology s =
     s\<lparr> rqs := rqs s @ map rq_new [length (rqs s)..<n], topology_rw := topology, num_cpus := n \<rparr>"

definition cpu_count :: "MaiScheduler \<Rightarrow> nat" where
  "cpu_count s = num_cpus s"

definition average_load_rqs :: "PerCpuRunQueue list \<Rightarrow> nat \<Rightarrow> usize" where
  "average_load_rqs qs nc = (if nc = 0 then 0 else sum_list (map rq_load qs) div of_nat nc)"

definition average_load :: "MaiScheduler \<Rightarrow> usize" where
  "average_load s =
     (let nc = cpu_count s
      in if nc = 0 then 0 else sum_list (map rq_load (rqs s)) div of_nat nc)"

text \<open>The load of a CPU as placement sees it: CPUs of the preferred NUMA node get a discount.\<close>

definition adjusted_load :: "CpuTopology \<Rightarrow> nat \<Rightarrow> nat \<Rightarrow> PerCpuRunQueue \<Rightarrow> usize" where
  "adjusted_load topo preferred_node cpu rq =
     (if cpu_to_numa topo cpu = preferred_node then rq_load rq * 4 div 5 else rq_load rq)"

primrec select_loop ::
  "CpuTopology \<Rightarrow> nat \<Rightarrow> PerCpuRunQueue list \<Rightarrow> nat list \<Rightarrow> nat \<Rightarrow> usize \<Rightarrow> nat" where
  "select_loop topo node qs [] best_cpu best_load = best_cpu"
| "select_loop topo node qs (cpu # cs) best_cpu best_load =
     (case vec_get qs cpu of
        None \<Rightarrow> select_loop topo node qs cs best_cpu best_load
      | Some rq \<Rightarrow>
          let adjusted = adjusted_load topo node cpu rq
          in if adjusted < best_load then select_loop topo node qs cs cpu adjusted
             else select_loop topo node qs cs best_cpu best_load)"

definition select_least_loaded :: "MaiScheduler \<Rightarrow> nat \<Rightarrow> nat" where
  "select_least_loaded s lc =
     select_loop (topology_rw s) (cpu_to_numa (topology_rw s) lc) (rqs s) [0..<cpu_count s] 0 (- 1)"

definition select_cpu_for_task :: "heap \<Rightarrow> MaiScheduler \<Rightarrow> taskref \<Rightarrow> nat option" where
  "select_cpu_for_task h s task =
     (let t = sched (h task); nc = cpu_count s
      in case pinned_cpu t of
           Some cpu \<Rightarrow> Some (min cpu (nc - 1))
         | None \<Rightarrow>
             (if last_cpu t < nc then do {
                rq \<leftarrow> vec_get (rqs s) (last_cpu t);
                if rq_load rq \<le> average_load_rqs (rqs s) nc + 1 then Some (last_cpu t)
                else Some (select_least_loaded s (last_cpu t))
              }
              else Some (select_least_loaded s (last_cpu t))))"

definition mks_enqueue ::
  "u64 \<Rightarrow> heap \<Rightarrow> MaiScheduler \<Rightarrow> taskref \<Rightarrow> (heap \<times> MaiScheduler) option" where
  "mks_enqueue now h s task =
     do {
       cpu \<leftarrow> select_cpu_for_task h s task;
       rq \<leftarrow> vec_get (rqs s) cpu;
       (h', rq') \<leftarrow> rq_enqueue now h rq task;
       Some (h', s\<lparr> rqs := (rqs s)[cpu := rq'], global_task_count := global_task_count s + 1 \<rparr>)
     }"

definition mks_dequeue :: "heap \<Rightarrow> MaiScheduler \<Rightarrow> taskref \<Rightarrow> (heap \<times> MaiScheduler) option" where
  "mks_dequeue h s task =
     (let cpu = last_cpu (sched (h task))
      in do {
        (h', s') \<leftarrow>
          (if cpu < cpu_count s then do {
             rq \<leftarrow> vec_get (rqs s) cpu;
             let (h', rq') = rq_dequeue h rq task;
             Some (h', s\<lparr> rqs := (rqs s)[cpu := rq'] \<rparr>)
           }
           else Some (h, s));
        Some (h', s'\<lparr> global_task_count := global_task_count s' - 1 \<rparr>)
      })"

primrec steal_loop ::
  "heap \<Rightarrow> nat \<Rightarrow> nat list \<Rightarrow> PerCpuRunQueue list \<Rightarrow> taskref option \<times> PerCpuRunQueue list" where
  "steal_loop h thief [] qs = (None, qs)"
| "steal_loop h thief (victim # vs) qs =
     (if victim = thief then steal_loop h thief vs qs
      else case vec_get qs victim of
        None \<Rightarrow> steal_loop h thief vs qs
      | Some rq \<Rightarrow>
          (if 2 \<le> rq_load rq then
             (case rq_steal_one h rq of
                (Some task, rq') \<Rightarrow> (Some task, qs[victim := rq'])
              | (None, rq') \<Rightarrow> steal_loop h thief vs (qs[victim := rq']))
           else steal_loop h thief vs qs))"

definition steal_task :: "heap \<Rightarrow> MaiScheduler \<Rightarrow> nat \<Rightarrow> taskref option \<times> MaiScheduler" where
  "steal_task h s thief =
     (let (r, qs) = steal_loop h thief (steal_order (topology_rw s) thief) (rqs s)
      in (r, s\<lparr> rqs := qs \<rparr>))"

definition mks_pick_next :: "heap \<Rightarrow> MaiScheduler \<Rightarrow> nat \<Rightarrow> (taskref option \<times> MaiScheduler) option" where
  "mks_pick_next h s cpu =
     do {
       rq \<leftarrow> vec_get (rqs s) cpu;
       let (r1, q1) = dl_pick_next h (deadline_rq rq);
       let rq1 = rq\<lparr> deadline_rq := q1 \<rparr>;
       if r1 \<noteq> None then Some (r1, s\<lparr> rqs := (rqs s)[cpu := rq1] \<rparr>)
       else do {
         (r2, q2) \<leftarrow> rt_pick_next h (rt_rq rq1);
         let rq2 = rq1\<lparr> rt_rq := q2 \<rparr>;
         if r2 \<noteq> None then Some (r2, s\<lparr> rqs := (rqs s)[cpu := rq2] \<rparr>)
         else do {
           let (r3, q3) = eevdf_pick_next h (cfs_rq rq2);
           let rq3 = rq2\<lparr> cfs_rq := q3 \<rparr>;
           let s3 = s\<lparr> rqs := (rqs s)[cpu := rq3] \<rparr>;
           if r3 \<noteq> None then Some (r3, s3)
           else do {
             let (r4, s4) = steal_task h s3 cpu;
             if r4 \<noteq> None then Some (r4, s4)
             else do {
               rq4 \<leftarrow> vec_get (rqs s4) cpu;
               Some (idle_pick_next (idle_task rq4), s4)
             }
           }
         }
       }
     }"

definition task_wakeup ::
  "u64 \<Rightarrow> heap \<Rightarrow> MaiScheduler \<Rightarrow> taskref \<Rightarrow> nat \<Rightarrow> (heap \<times> MaiScheduler) option" where
  "task_wakeup now h s task cpu =
     (let t = h task\<lparr> runstate := Runnable \<rparr>;
          t' = (case vec_get (rqs s) cpu of
                  None \<Rightarrow> t
                | Some rq \<Rightarrow>
                    let floor = sat_sub (min_vruntime (cfs_rq rq)) (SCHED_LATENCY_NS div 2)
                    in if vruntime (sched t) < floor
                       then t\<lparr> sched := sched t\<lparr> vruntime := floor \<rparr> \<rparr> else t)
      in mks_enqueue now (h(task := t')) s task)"

definition mks_tick :: "heap \<Rightarrow> MaiScheduler \<Rightarrow> nat \<Rightarrow> u64 \<Rightarrow> heap \<times> MaiScheduler" where
  "mks_tick h s cpu elapsed_ns =
     (case vec_get (rqs s) cpu of
        None \<Rightarrow> (h, s)
      | Some rq \<Rightarrow> let (h', rq') = rq_tick h rq elapsed_ns in (h', s\<lparr> rqs := (rqs s)[cpu := rq'] \<rparr>))"

definition record_context_switch :: "u64 \<Rightarrow> MaiScheduler \<Rightarrow> nat \<Rightarrow> Task \<Rightarrow> Task \<Rightarrow> MaiScheduler" where
  "record_context_switch now s cpu from to =
     (let s1 = s\<lparr> context_switches := context_switches s + 1 \<rparr>
      in case vec_get (rqs s1) cpu of
           None \<Rightarrow> s1
         | Some rq \<Rightarrow> s1\<lparr> rqs := (rqs s1)[cpu := rq\<lparr> stats := record_switch now from to (stats rq) \<rparr>] \<rparr>)"

section \<open>Well-formed schedulers\<close>

text \<open>One run queue per CPU, each knowing its own index.\<close>

definition mks_wf :: "MaiScheduler \<Rightarrow> bool" where
  "mks_wf s \<longleftrightarrow> length (rqs s) = num_cpus s \<and> (\<forall>i < num_cpus s. cpu_id (rqs s ! i) = i)"

lemma mks_wf_new: "mks_wf (mks_new n topo)"
  by (simp add: mks_wf_def mks_new_def rq_new_def)

lemma mks_wf_expand:
  assumes "mks_wf s" and "num_cpus s \<le> n"
  shows "mks_wf (mks_expand n topo s)"
  using assms by (auto simp: mks_wf_def mks_expand_def nth_append rq_new_def)

lemma rq_enqueue_cpu_id:
  assumes "rq_enqueue now h rq t = Some (h', rq')"
  shows "cpu_id rq' = cpu_id rq"
proof (cases "task_class h t" rule: class_cases)
  case 4
  then show ?thesis using assms by (auto simp: rq_enqueue_cfs split: option.splits)
qed (use assms in \<open>auto simp: rq_enqueue_def split: sum.splits\<close>)

lemma rq_dequeue_cpu_id: "cpu_id (snd (rq_dequeue h rq t)) = cpu_id rq"
proof (cases "task_class h t" rule: class_cases)
  case 4
  then show ?thesis by (simp add: rq_dequeue_cfs)
qed (simp_all add: rq_dequeue_def)

lemma rq_dequeue_load:
  assumes "task_class h t \<noteq> ClsIdle"
  shows "load_count (snd (rq_dequeue h rq t)) = load_count rq - 1"
proof (cases "task_class h t" rule: class_cases)
  case 4
  then show ?thesis by (simp add: rq_dequeue_cfs)
qed (use assms in \<open>simp_all add: rq_dequeue_def\<close>)

lemma mks_wf_update: "mks_wf s \<Longrightarrow> (cpu < num_cpus s \<Longrightarrow> cpu_id rq = cpu) \<Longrightarrow>
    mks_wf (s\<lparr> rqs := (rqs s)[cpu := rq] \<rparr>)"
  by (cases "cpu < num_cpus s") (auto simp: mks_wf_def nth_list_update list_update_beyond)

section \<open>Placement\<close>

text \<open>The loop returns a CPU of its list or the initial one, and no CPU of the list is less loaded.\<close>

lemma select_loop_Cons:
  "select_loop topo node qs (d # cs) b l =
     (if d < length qs \<and> adjusted_load topo node d (qs ! d) < l
      then select_loop topo node qs cs d (adjusted_load topo node d (qs ! d))
      else select_loop topo node qs cs b l)"
  by (simp add: vec_get_def)

lemma select_loop_mem:
  "select_loop topo node qs cs b l = b \<or>
     (select_loop topo node qs cs b l \<in> set cs \<and> select_loop topo node qs cs b l < length qs)"
proof (induction cs arbitrary: b l)
  case (Cons d cs)
  show ?case
    unfolding select_loop_Cons
    using Cons.IH [of b l] Cons.IH [of d "adjusted_load topo node d (qs ! d)"] by auto
qed simp

lemma select_loop_least:
  fixes topo node qs
  defines "A \<equiv> \<lambda>c. adjusted_load topo node c (qs ! c)"
  assumes "b < length qs" "A b \<le> l"
  shows "A (select_loop topo node qs cs b l) \<le> l \<and>
    (\<forall>c \<in> set cs. c < length qs \<longrightarrow> A (select_loop topo node qs cs b l) \<le> A c)"
  using assms(2,3)
proof (induction cs arbitrary: b l)
  case Nil
  then show ?case by simp
next
  case (Cons d cs)
  show ?case
  proof (cases "d < length qs \<and> A d < l")
    case True
    then have "select_loop topo node qs (d # cs) b l = select_loop topo node qs cs d (A d)"
      by (simp add: select_loop_Cons A_def del: select_loop.simps)
    with Cons.IH [of d "A d"] True show ?thesis
      by (auto intro: order_trans less_imp_le simp del: select_loop.simps)
  next
    case False
    then have "select_loop topo node qs (d # cs) b l = select_loop topo node qs cs b l"
      by (auto simp: select_loop_Cons A_def simp del: select_loop.simps)
    with Cons.IH [of b l] Cons.prems False show ?thesis
      by (auto simp: not_less intro: order_trans simp del: select_loop.simps)
  qed
qed

lemma select_least_loaded_spec:
  fixes lc
  assumes wf: "mks_wf s" and pos: "0 < num_cpus s"
  defines "A \<equiv> \<lambda>c. adjusted_load (topology_rw s) (cpu_to_numa (topology_rw s) lc) c (rqs s ! c)"
  shows "select_least_loaded s lc < num_cpus s" and "c < num_cpus s \<Longrightarrow> A (select_least_loaded s lc) \<le> A c"
proof -
  have len: "length (rqs s) = num_cpus s" using wf by (simp add: mks_wf_def)
  note M = select_loop_mem [of "topology_rw s" "cpu_to_numa (topology_rw s) lc" "rqs s" "[0..<num_cpus s]" 0 "- 1"]
  show "select_least_loaded s lc < num_cpus s"
    using M len pos by (auto simp: select_least_loaded_def cpu_count_def)
  show "c < num_cpus s \<Longrightarrow> A (select_least_loaded s lc) \<le> A c"
    using select_loop_least [of 0 "rqs s" "topology_rw s" "cpu_to_numa (topology_rw s) lc" "- 1" "[0..<num_cpus s]"]
      len pos by (simp add: select_least_loaded_def cpu_count_def A_def)
qed

lemma select_cpu_in_range:
  assumes wf: "mks_wf s" and pos: "0 < num_cpus s"
  shows "\<exists>cpu. select_cpu_for_task h s t = Some cpu \<and> cpu < num_cpus s"
proof -
  have len: "length (rqs s) = num_cpus s" using wf by (simp add: mks_wf_def)
  show ?thesis
    using select_least_loaded_spec(1) [OF wf pos] pos len
    by (auto simp: select_cpu_for_task_def cpu_count_def Let_def vec_get_def split: option.splits)
qed

section \<open>Stealing\<close>

lemma eevdf_steal_none_same:
  assumes inv: "eevdf_inv h q" and st: "eevdf_steal_one h q = (None, q')"
  shows "q' = q"
proof -
  have "bt_get (fst (last m)) m \<noteq> None" if "bt_ok m" "m \<noteq> []" for m :: "(VtKey, taskref) btree"
    using that btm.get_iff [of m "fst (last m)" "snd (last m)"] by simp
  from this [OF eevdf_invD(2) [OF inv]] this [OF eevdf_invD(1) [OF inv]] st show ?thesis
    by (auto simp: eevdf_steal_one_def bt_last_def split: if_splits option.splits prod.splits)
qed

lemma rq_steal_none_same:
  "eevdf_inv h (cfs_rq rq) \<Longrightarrow> rq_steal_one h rq = (None, rq') \<Longrightarrow> rq' = rq"
  using eevdf_steal_none_same [of h "cfs_rq rq"]
  by (auto simp: rq_steal_one_def split: prod.splits option.splits)

definition stealable :: "heap \<Rightarrow> PerCpuRunQueue list \<Rightarrow> nat \<Rightarrow> bool" where
  "stealable h qs v \<longleftrightarrow> v < length qs \<and> 2 \<le> rq_load (qs ! v) \<and> fst (rq_steal_one h (qs ! v)) \<noteq> None"

lemma steal_loop_spec:
  assumes "\<forall>q \<in> set qs. eevdf_inv h (cfs_rq q)"
  shows "steal_loop h thief vs qs =
    (case List.find (\<lambda>v. v \<noteq> thief \<and> stealable h qs v) vs of
       None \<Rightarrow> (None, qs)
     | Some v \<Rightarrow> (fst (rq_steal_one h (qs ! v)), qs[v := snd (rq_steal_one h (qs ! v))]))"
proof (induction vs)
  case Nil
  then show ?case by simp
next
  case (Cons v vs)
  consider "v = thief \<or> length qs \<le> v \<or> \<not> 2 \<le> rq_load (qs ! v)"
    | t q where "v \<noteq> thief" "v < length qs" "2 \<le> rq_load (qs ! v)" "rq_steal_one h (qs ! v) = (Some t, q)"
    | q where "v \<noteq> thief" "v < length qs" "2 \<le> rq_load (qs ! v)" "rq_steal_one h (qs ! v) = (None, q)"
    by (metis not_less option.exhaust surj_pair)
  then show ?case
  proof cases
    case 1
    then show ?thesis using Cons by (auto simp: stealable_def vec_get_def)
  next
    case 2
    then show ?thesis by (simp add: stealable_def vec_get_def)
  next
    case (3 q)
    then have "q = qs ! v" using assms rq_steal_none_same [of h "qs ! v" q] by simp
    then show ?thesis using 3 Cons by (simp add: stealable_def vec_get_def)
  qed
qed

lemma steal_task_spec:
  assumes inv: "\<forall>q \<in> set (rqs s). eevdf_inv h (cfs_rq q)" and st: "steal_task h s thief = (r, s')"
  shows "r = None \<Longrightarrow> s' = s \<and> (\<forall>v \<in> set (steal_order (topology_rw s) thief). v \<noteq> thief \<longrightarrow> \<not> stealable h (rqs s) v)"
    and "r = Some t \<Longrightarrow> \<exists>v q. List.find (\<lambda>v. v \<noteq> thief \<and> stealable h (rqs s) v) (steal_order (topology_rw s) thief) = Some v \<and>
      rq_steal_one h (rqs s ! v) = (Some t, q) \<and> s' = s\<lparr> rqs := (rqs s)[v := q] \<rparr>"
proof -
  let ?f = "List.find (\<lambda>v. v \<noteq> thief \<and> stealable h (rqs s) v) (steal_order (topology_rw s) thief)"
  note L = steal_loop_spec [OF inv, of thief "steal_order (topology_rw s) thief"]
  { assume r: "r = None"
    have "?f = None"
    proof (cases ?f)
      case (Some v)
      then have "fst (rq_steal_one h (rqs s ! v)) \<noteq> None" using find_SomeD [OF Some] by (simp add: stealable_def)
      then show ?thesis using st L r Some by (simp add: steal_task_def)
    qed
    with st L show "s' = s \<and> (\<forall>v \<in> set (steal_order (topology_rw s) thief). v \<noteq> thief \<longrightarrow> \<not> stealable h (rqs s) v)"
      by (auto simp: steal_task_def find_None_iff)
  next
    assume r: "r = Some t"
    then obtain v where v: "?f = Some v"
      using st L by (cases ?f) (auto simp: steal_task_def)
    then show "\<exists>v q. ?f = Some v \<and> rq_steal_one h (rqs s ! v) = (Some t, q) \<and> s' = s\<lparr> rqs := (rqs s)[v := q] \<rparr>"
      using st L r by (auto simp: steal_task_def prod_eq_iff) }
qed

lemma rq_steal_one_tasks:
  assumes "eevdf_inv h (cfs_rq rq)" and "rq_steal_one h rq = (Some t, rq')"
  shows "rq_tasks rq = add_mset t (rq_tasks rq')" and "load_count rq' = load_count rq - 1"
    and "t \<in># eevdf_tasks (cfs_rq rq)"
  using assms eevdf_steal_one_spec(2) [OF assms(1), of t]
  by (auto simp: rq_steal_one_def rq_tasks_def simp del: set_mset_eevdf_tasks
      split: prod.splits option.splits)

text \<open>The thief's own queue does not matter to stealing.\<close>

lemma steal_task_own_queue:
  assumes "\<forall>q \<in> set (rqs s). eevdf_inv h (cfs_rq q)" and "eevdf_inv h (cfs_rq q)"
  shows "fst (steal_task h (s\<lparr> rqs := (rqs s)[thief := q] \<rparr>) thief) = fst (steal_task h s thief)"
proof -
  have inv': "\<forall>q' \<in> set ((rqs s)[thief := q]). eevdf_inv h (cfs_rq q')"
    using assms set_update_subset_insert [of "rqs s" thief q] by auto
  have same: "(v \<noteq> thief \<and> stealable h ((rqs s)[thief := q]) v) = (v \<noteq> thief \<and> stealable h (rqs s) v)" for v
    by (auto simp: stealable_def)
  have find: "List.find (\<lambda>v. v \<noteq> thief \<and> stealable h ((rqs s)[thief := q]) v) vs =
      List.find (\<lambda>v. v \<noteq> thief \<and> stealable h (rqs s) v) vs" for vs
    by (simp only: same)
  show ?thesis
    using steal_loop_spec [OF assms(1), of thief] steal_loop_spec [OF inv', of thief]
    by (auto simp: steal_task_def find split: option.splits prod.splits dest!: find_SomeD)
qed

section \<open>Correctness of the scheduler\<close>

definition mks_inv :: "heap \<Rightarrow> MaiScheduler \<Rightarrow> bool" where
  "mks_inv h s \<longleftrightarrow> mks_wf s \<and> 0 < num_cpus s \<and> (\<forall>q \<in> set (rqs s). rq_inv h q)"

lemma mks_inv_rq: "mks_inv h s \<Longrightarrow> cpu < num_cpus s \<Longrightarrow> rq_inv h (rqs s ! cpu) \<and> cpu < length (rqs s)"
  by (simp add: mks_inv_def mks_wf_def)

lemma mks_inv_eevdf: "mks_inv h s \<Longrightarrow> \<forall>q \<in> set (rqs s). eevdf_inv h (cfs_rq q)"
  by (simp add: mks_inv_def rq_inv_def)

text \<open>The three class queues in the order \<open>pick_next\<close> asks them.\<close>

lemma pick_dl:
  assumes "cpu < length (rqs s)" and "dl_pick_next h (deadline_rq (rqs s ! cpu)) = (Some t, q)"
  shows "mks_pick_next h s cpu = Some (Some t, s\<lparr> rqs := (rqs s)[cpu := (rqs s ! cpu)\<lparr> deadline_rq := q \<rparr>] \<rparr>)"
  using assms by (simp add: mks_pick_next_def vec_get_def)

lemma pick_rt:
  assumes "cpu < length (rqs s)" and "dl_pick_next h (deadline_rq (rqs s ! cpu)) = (None, q1)"
    and "rt_pick_next h (rt_rq (rqs s ! cpu)) = Some (Some t, q2)"
  shows "\<exists>s'. mks_pick_next h s cpu = Some (Some t, s')"
  using assms by (simp add: mks_pick_next_def vec_get_def)

lemma pick_cfs:
  assumes "cpu < length (rqs s)" and "dl_pick_next h (deadline_rq (rqs s ! cpu)) = (None, q1)"
    and "rt_pick_next h (rt_rq (rqs s ! cpu)) = Some (None, q2)"
    and "eevdf_pick_next h (cfs_rq (rqs s ! cpu)) = (Some t, q3)"
  shows "\<exists>s'. mks_pick_next h s cpu = Some (Some t, s')"
  using assms by (simp add: mks_pick_next_def vec_get_def)

lemma pick_steal:
  assumes inv: "\<forall>q \<in> set (rqs s). eevdf_inv h (cfs_rq q)"
    and cpu: "cpu < length (rqs s)" and p1: "dl_pick_next h (deadline_rq (rqs s ! cpu)) = (None, q1)"
    and p2: "rt_pick_next h (rt_rq (rqs s ! cpu)) = Some (None, q2)"
    and p3: "eevdf_pick_next h (cfs_rq (rqs s ! cpu)) = (None, q3)"
  shows "\<exists>s'. mks_pick_next h s cpu =
    Some (case fst (steal_task h s cpu) of Some t \<Rightarrow> Some t | None \<Rightarrow> idle_task (rqs s ! cpu), s')"
proof -
  let ?rq = "(rqs s ! cpu)\<lparr> deadline_rq := q1, rt_rq := q2, cfs_rq := q3 \<rparr>"
  let ?s = "s\<lparr> rqs := (rqs s)[cpu := ?rq] \<rparr>"
  have "eevdf_inv h q3" using eevdf_q.pick_inv [of h "cfs_rq (rqs s ! cpu)"] inv cpu p3 by simp
  then have own: "fst (steal_task h ?s cpu) = fst (steal_task h s cpu)"
    by (intro steal_task_own_queue [OF inv]) simp
  have inv3: "\<forall>q \<in> set (rqs ?s). eevdf_inv h (cfs_rq q)"
    using inv \<open>eevdf_inv h q3\<close> set_update_subset_insert [of "rqs s" cpu ?rq] by auto
  obtain r s4 where st: "steal_task h ?s cpu = (r, s4)" by fastforce
  have none: "s4 = ?s" if "r = None" using steal_task_spec(1) [OF inv3 st that] by simp
  show ?thesis
    using own st none cpu p1 p2 p3
    by (cases r) (auto simp: mks_pick_next_def vec_get_def idle_pick_next_def)
qed

text \<open>
  C12: \<open>pick_next\<close> honours the class order.  On a well-formed scheduler it returns without a
  panic.  If the deadline queue of the CPU offers a task, the earliest deadline is picked; if
  not, the highest-priority real-time task; if there is none, the eligible task with the least
  virtual deadline; and only when no local task is ready, a task stolen from another CPU, or
  else the idle task.
\<close>

theorem mks_pick_next_class_order:
  assumes inv: "mks_inv h s" and cpu: "cpu < num_cpus s" and rq: "rq = rqs s ! cpu"
  shows "\<exists>r s'. mks_pick_next h s cpu = Some (r, s') \<and>
    (if dl_ready h (deadline_rq rq) \<noteq> {} then
       (\<exists>t \<in> dl_ready h (deadline_rq rq). r = Some t \<and>
          (\<forall>u \<in> dl_ready h (deadline_rq rq). dl_before h (deadline_rq rq) t u))
     else if rt_tasks (rt_rq rq) \<noteq> {#} then
       (\<exists>t. t \<in># rt_tasks (rt_rq rq) \<and> r = Some t \<and> (\<forall>u \<in># rt_tasks (rt_rq rq). rt_prio h u \<le> rt_prio h t))
     else if eevdf_ready h (cfs_rq rq) \<noteq> {} then
       (\<exists>t \<in> eevdf_ready h (cfs_rq rq). r = Some t \<and>
          (\<forall>u \<in> eevdf_ready h (cfs_rq rq). dl_key h t \<le> dl_key h u))
     else r = (case fst (steal_task h s cpu) of Some t \<Rightarrow> Some t | None \<Rightarrow> idle_task rq))"
proof -
  have I: "dl_inv h (deadline_rq rq)" "rt_inv h (rt_rq rq)" "eevdf_inv h (cfs_rq rq)" and len: "cpu < length (rqs s)"
    using mks_inv_rq [OF inv cpu] by (simp_all add: rq rq_inv_def)
  obtain r1 q1 where p1: "dl_pick_next h (deadline_rq rq) = (r1, q1)" by fastforce
  obtain r2 q2 where p2: "rt_pick_next h (rt_rq rq) = Some (r2, q2)"
    using I(2) by (cases rule: rt_pick_next_cases) auto
  obtain r3 q3 where p3: "eevdf_pick_next h (cfs_rq rq) = (r3, q3)" by fastforce
  note D1 = dl_q.pick_best [OF I(1), of _ q1] dl_q.pick_none [OF I(1), of q1]
  have D2: "r2 = Some t \<Longrightarrow> t \<in># rt_tasks (rt_rq rq) \<and> (\<forall>u \<in># rt_tasks (rt_rq rq). rt_prio h u \<le> rt_prio h t)"
    and D2': "r2 = None \<Longrightarrow> rt_tasks (rt_rq rq) = {#}" for t
    using rt_q.pick_best [OF I(2), of t q2] rt_q.pick_none [OF I(2), of q2] p2 by simp_all
  note D3 = eevdf_q.pick_best [OF I(3), of _ q3] eevdf_q.pick_none [OF I(3), of q3]
  note pick_lemmas = pick_dl [OF len] pick_rt [OF len] pick_cfs [OF len] pick_steal [OF mks_inv_eevdf [OF inv] len]
  show ?thesis
  proof (cases r1)
    case (Some t)
    then show ?thesis using D1(1) [of t] p1 pick_lemmas(1) by (force simp: rq)
  next
    case None
    note r1 = this
    then have dl: "dl_ready h (deadline_rq rq) = {}" using D1(2) p1 by simp
    show ?thesis
    proof (cases r2)
      case (Some t)
      then obtain s' where "mks_pick_next h s cpu = Some (Some t, s')"
        using pick_lemmas(2) r1 p1 p2 rq by blast
      then show ?thesis using dl D2 [OF Some] by auto
    next
      case None
      note r2 = this
      then have rt: "rt_tasks (rt_rq rq) = {#}" by (rule D2')
      show ?thesis
      proof (cases r3)
        case (Some t)
        then obtain s' where "mks_pick_next h s cpu = Some (Some t, s')"
          using pick_lemmas(3) r1 r2 p1 p2 p3 rq by blast
        then show ?thesis using dl rt D3(1) [of t] p3 Some by auto
      next
        case None
        then have "eevdf_ready h (cfs_rq rq) = {}" using D3(2) p3 by simp
        moreover obtain s' where "mks_pick_next h s cpu =
            Some (case fst (steal_task h s cpu) of Some t \<Rightarrow> Some t | None \<Rightarrow> idle_task rq, s')"
          using pick_lemmas(4) None r1 r2 p1 p2 p3 rq by blast
        ultimately show ?thesis using dl rt by simp
      qed
    qed
  qed
qed



text \<open>
  Stealing corrupts the load of the thief.  The victim's load is decreased, but the thief's
  is not increased; when the stolen task later runs on the thief and is dequeued there, the
  load counter of a thief without other tasks wraps to the largest \<open>usize\<close>.
\<close>

theorem stolen_task_load_wraps:
  assumes inv: "mks_inv h s" and thief: "thief < num_cpus s" and zero: "rq_load (rqs s ! thief) = 0"
    and st: "steal_task h s thief = (Some t, s1)" and cls: "task_class h t \<noteq> ClsIdle"
    and cur: "set_current h (rqs s1 ! thief) t = (h1, rq1)"
    and deq: "mks_dequeue h1 (s1\<lparr> rqs := (rqs s1)[thief := rq1] \<rparr>) t = Some (h2, s2)"
  shows "rq_load (rqs s2 ! thief) = - 1"
proof -
  have len: "length (rqs s) = num_cpus s" using inv by (simp add: mks_inv_def mks_wf_def)
  obtain v q where f: "List.find (\<lambda>v. v \<noteq> thief \<and> stealable h (rqs s) v) (steal_order (topology_rw s) thief) = Some v"
    and s1: "s1 = s\<lparr> rqs := (rqs s)[v := q] \<rparr>"
    using steal_task_spec(2) [OF mks_inv_eevdf [OF inv] st refl] by blast
  have "v \<noteq> thief" using find_SomeD [OF f] by simp
  then have own: "rqs s1 ! thief = rqs s ! thief" "num_cpus s1 = num_cpus s" "length (rqs s1) = num_cpus s"
    using len by (simp_all add: s1)
  have id: "cpu_id (rqs s ! thief) = thief" using inv thief by (simp add: mks_inv_def mks_wf_def)
  have h1: "last_cpu (sched (h1 t)) = thief" "task_class h1 t = task_class h t" "load_count rq1 = 0"
    using cur zero id own by (auto simp: set_current_def task_class_def rq_load_def)
  obtain hq rq2 where d: "rq_dequeue h1 rq1 t = (hq, rq2)" by fastforce
  have "load_count rq2 = - 1"
    using rq_dequeue_load [of h1 t rq1] d h1(2,3) cls by simp
  then show ?thesis
    using deq d h1(1) own thief by (auto simp: mks_dequeue_def cpu_count_def vec_get_def rq_load_def)
qed

section \<open>Witnesses\<close>

text \<open>Two CPUs; CPU 0 is idle and CPU 1 has two normal tasks, 2 and 3.\<close>

definition mks_ex_heap :: heap where
  "mks_ex_heap = (\<lambda>i. (Task_new i ''t'')\<lparr> sched := TaskSchedInfo_default\<lparr> vdeadline := 6000000, on_rq := True \<rparr> \<rparr>)"

definition mks_ex_cfs :: EevdfRunQueue where
  "mks_ex_cfs = \<lparr> eligible = [(VtKey 6000000 2, 2), (VtKey 6000000 3, 3)], ineligible = [],
                  min_vruntime = 0, total_weight = 2048, e_nr_running = 2 \<rparr>"

definition mks_ex :: MaiScheduler where
  "mks_ex = (mks_new 2 (uniform 2))\<lparr> rqs := [rq_new 0, (rq_new 1)\<lparr> cfs_rq := mks_ex_cfs, load_count := 2 \<rparr>] \<rparr>"

lemma mks_ex_eevdf: "eevdf_inv mks_ex_heap mks_ex_cfs"
  by (simp add: eevdf_inv_def mks_ex_cfs_def mks_ex_heap_def bt_ok_def less_VtKey_def dl_key_def
      eevdf_queued_def Task_new_def TaskSchedInfo_default_def)

lemma mks_ex_tasks: "rq_tasks ((rq_new 1)\<lparr> cfs_rq := mks_ex_cfs, load_count := 2 \<rparr>) = {# 2, 3 #}"
  by (simp add: rq_tasks_def rq_new_def mks_ex_cfs_def eevdf_tasks_def)

lemma mks_ex_ids: "ids_unique mks_ex_heap T"
  by (simp add: ids_unique_def mks_ex_heap_def Task_new_def)

lemma mks_ex_inv: "mks_inv mks_ex_heap mks_ex"
proof -
  have "rq_inv mks_ex_heap ((rq_new 1)\<lparr> cfs_rq := mks_ex_cfs, load_count := 2 \<rparr>)"
    unfolding rq_inv_def mks_ex_tasks
    using mks_ex_eevdf mks_ex_ids by (simp add: rq_new_def dl_inv_new rt_inv_new)
  then show ?thesis
    by (simp add: mks_inv_def mks_ex_def mks_wf_def rq_new_ok less_2_cases_iff)
      (auto simp: mks_new_def rq_new_def less_2_cases_iff)
qed

lemma mks_ex_num: "num_cpus mks_ex = 2"
  by (simp add: mks_ex_def mks_new_def)

theorem mks_pick_next_class_order_witness:
  "\<exists>t s'. mks_pick_next mks_ex_heap mks_ex (Suc 0) = Some (Some t, s') \<and> t \<in> {2, 3}"
proof -
  have r: "rqs mks_ex ! Suc 0 = (rq_new 1)\<lparr> cfs_rq := mks_ex_cfs, load_count := 2 \<rparr>" by (simp add: mks_ex_def)
  have "dl_ready mks_ex_heap (deadline_rq (rqs mks_ex ! Suc 0)) = {}" "rt_tasks (rt_rq (rqs mks_ex ! Suc 0)) = {#}"
    by (simp_all add: r) (simp_all add: rq_new_def dl_ready_def dl_new_def)
  moreover have "eevdf_ready mks_ex_heap (cfs_rq (rqs mks_ex ! Suc 0)) = {2, 3}"
    by (auto simp: r eevdf_ready_def eevdf_queued_def mks_ex_cfs_def mks_ex_heap_def TaskSchedInfo_default_def)
  ultimately show ?thesis
    using mks_pick_next_class_order [OF mks_ex_inv _ refl, of "Suc 0"] by (simp add: mks_ex_num) blast
qed


lemma mks_ex_steal: "\<exists>s'. steal_task mks_ex_heap mks_ex 0 = (Some 3, s')"
proof -
  have u: "uniform 2 = from_cpus (cpus (uniform 2))" and l: "length (cpus (uniform 2)) = 2"
    by (simp_all add: uniform_def from_cpus_def Let_def)
  have o: "steal_order (topology_rw mks_ex) 0 = [1]"
  proof -
    have t: "topology_rw mks_ex = from_cpus (cpus (uniform 2))"
      using u by (simp add: mks_ex_def mks_new_def)
    show ?thesis
      using steal_order_from_cpus [of 0 "cpus (uniform 2)"] by (simp add: t l upt_rec)
  qed
  have "rq_steal_one mks_ex_heap ((rq_new 1)\<lparr> cfs_rq := mks_ex_cfs, load_count := 2 \<rparr>) =
      (Some 3, (rq_new 1)\<lparr> cfs_rq := mks_ex_cfs\<lparr> eligible := [(VtKey 6000000 2, 2)],
         total_weight := 1024, e_nr_running := 1 \<rparr>, load_count := 1 \<rparr>)"
    by (simp add: rq_steal_one_def eevdf_steal_one_def mks_ex_cfs_def bt_last_def bt_get_def bt_remove_def
        mks_ex_heap_def TaskSchedInfo_default_def sat_sub_def word_le_nat_alt)
  then show ?thesis
    unfolding steal_task_def o by (simp add: mks_ex_def vec_get_def rq_load_def)
qed


theorem stolen_task_load_wraps_witness:
  "\<exists>s1 h1 rq1 h2 s2. steal_task mks_ex_heap mks_ex 0 = (Some 3, s1) \<and>
     set_current mks_ex_heap (rqs s1 ! 0) 3 = (h1, rq1) \<and>
     mks_dequeue h1 (s1\<lparr> rqs := (rqs s1)[0 := rq1] \<rparr>) 3 = Some (h2, s2) \<and> rq_load (rqs s2 ! 0) = - 1"
proof -
  obtain s1 where st: "steal_task mks_ex_heap mks_ex 0 = (Some 3, s1)" using mks_ex_steal by blast
  obtain h1 rq1 where cur: "set_current mks_ex_heap (rqs s1 ! 0) 3 = (h1, rq1)" by fastforce
  obtain v q where v: "List.find (\<lambda>v. v \<noteq> 0 \<and> stealable mks_ex_heap (rqs mks_ex) v) (steal_order (topology_rw mks_ex) 0) = Some v"
    and s1: "s1 = mks_ex\<lparr> rqs := (rqs mks_ex)[v := q] \<rparr>"
    using steal_task_spec(2) [OF mks_inv_eevdf [OF mks_ex_inv] st refl] by blast
  have len: "length (rqs s1) = 2" "num_cpus s1 = 2" "rqs s1 ! 0 = rq_new 0"
    using find_SomeD [OF v] by (simp_all add: s1 mks_ex_num) (simp_all add: mks_ex_def)
  have "last_cpu (sched (h1 3)) = 0" using cur by (auto simp: set_current_def len rq_new_def)
  then have "\<exists>h2 s2. mks_dequeue h1 (s1\<lparr> rqs := (rqs s1)[0 := rq1] \<rparr>) 3 = Some (h2, s2)"
    by (simp add: mks_dequeue_def cpu_count_def len vec_get_def split: prod.split)
  then obtain h2 s2 where deq: "mks_dequeue h1 (s1\<lparr> rqs := (rqs s1)[0 := rq1] \<rparr>) 3 = Some (h2, s2)" by blast
  have z: "rq_load (rqs mks_ex ! 0) = 0" "task_class mks_ex_heap 3 \<noteq> ClsIdle"
    by (simp_all add: mks_ex_def rq_load_def rq_new_def task_class_def mks_ex_heap_def TaskSchedInfo_default_def)
  from stolen_task_load_wraps [OF mks_ex_inv _ z(1) st z(2) cur deq] st cur deq show ?thesis
    by (auto simp: mks_ex_num)
qed

end
