(* ===== verification/Plugin.thy ===== *)
theory Plugin
  imports Mks_Params
begin

text \<open>
  Scheduling plugins of \<open>kernel/mks/src/plugin.rs\<close>.  A plugin is a trait object, modelled as the
  record of its methods; the hooks that return nothing have no effect on the modelled state.
  The registry measures each \<open>pick_next\<close> with two readings of the time-stamp counter, which are
  arguments here.  The contract of a plugin (pick only from the runnable tasks offered) is a
  locale; the built-in plugins are interpretations.
\<close>

section \<open>Plugins\<close>

definition PLUGIN_TIMEOUT_NS :: u64 where "PLUGIN_TIMEOUT_NS = 10000"

record SchedContext =
  ctx_cpu_id :: nat
  ctx_runnable :: "taskref list"
  ctx_now_ns :: u64
  ctx_prev_task :: "taskref option"

datatype PluginAction = Continue | Override | Block | Migrate nat

datatype BlockReason = Sleep | WaitingForIo | Futex | MutexContention | ChannelRecv | Explicit

record SchedPlugin =
  plugin_name :: string
  on_task_runnable :: "taskref \<Rightarrow> nat \<Rightarrow> PluginAction"
  plugin_pick :: "heap \<Rightarrow> SchedContext \<Rightarrow> taskref option"
  on_tick :: "taskref \<Rightarrow> u64 \<Rightarrow> bool"

text \<open>The default methods of the trait.\<close>

definition SchedPlugin_default :: "string \<Rightarrow> SchedPlugin" where
  "SchedPlugin_default n =
     \<lparr> plugin_name = n, on_task_runnable = (\<lambda>_ _. Continue), plugin_pick = (\<lambda>_ _. None),
       on_tick = (\<lambda>_ _. False) \<rparr>"

definition LatencyFirstPlugin :: SchedPlugin where
  "LatencyFirstPlugin = (SchedPlugin_default ''LatencyFirst'')
     \<lparr> plugin_pick := \<lambda>h ctx. min_by_key (\<lambda>t. wakeup_time_ns (sched (h t))) (ctx_runnable ctx) \<rparr>"

definition ThroughputFirstPlugin :: SchedPlugin where
  "ThroughputFirstPlugin = (SchedPlugin_default ''ThroughputFirst'')
     \<lparr> plugin_pick := \<lambda>h ctx. max_by_key (\<lambda>t. weight (sched (h t))) (ctx_runnable ctx) \<rparr>"

definition IsolatedCorePlugin :: "nat \<Rightarrow> SchedPlugin" where
  "IsolatedCorePlugin dedicated_cpu = (SchedPlugin_default ''IsolatedCore'')
     \<lparr> on_task_runnable := \<lambda>_ _. Migrate dedicated_cpu,
       plugin_pick := \<lambda>h ctx.
         if ctx_cpu_id ctx \<noteq> dedicated_cpu then None
         else min_by_key (\<lambda>t. wakeup_time_ns (sched (h t))) (ctx_runnable ctx) \<rparr>"

section \<open>The registry\<close>

record PluginRegistry =
  plugins :: "(u32, SchedPlugin) btree"
  runnable :: "(u32, taskref list) btree"

definition registry_new :: PluginRegistry where
  "registry_new = \<lparr> plugins = [], runnable = [] \<rparr>"

definition register :: "u32 \<Rightarrow> SchedPlugin \<Rightarrow> PluginRegistry \<Rightarrow> PluginRegistry" where
  "register grp plugin r = r\<lparr> plugins := bt_insert grp plugin (plugins r) \<rparr>"

definition unregister :: "u32 \<Rightarrow> PluginRegistry \<Rightarrow> PluginRegistry" where
  "unregister grp r =
     r\<lparr> plugins := bt_remove grp (plugins r), runnable := bt_remove grp (runnable r) \<rparr>"

definition registry_get :: "u32 \<Rightarrow> PluginRegistry \<Rightarrow> SchedPlugin option" where
  "registry_get grp r = bt_get grp (plugins r)"

text \<open>\<open>entry(group).or_default()\<close>: the stored list, or a new empty one.\<close>

definition group_runnable :: "u32 \<Rightarrow> PluginRegistry \<Rightarrow> taskref list" where
  "group_runnable grp r = (case bt_get grp (runnable r) of Some ts \<Rightarrow> ts | None \<Rightarrow> [])"

definition notify_runnable ::
  "u32 \<Rightarrow> taskref \<Rightarrow> nat \<Rightarrow> PluginRegistry \<Rightarrow> PluginAction \<times> PluginRegistry" where
  "notify_runnable grp task cpu r =
     (case bt_get grp (plugins r) of Some p \<Rightarrow> on_task_runnable p task cpu | None \<Rightarrow> Continue,
      r\<lparr> runnable := bt_insert grp (group_runnable grp r @ [task]) (runnable r) \<rparr>)"

definition read_tsc :: "u32 \<Rightarrow> u32 \<Rightarrow> u64" where
  "read_tsc lo hi = push_bit 32 (ucast hi) OR ucast lo"

definition tsc_to_ns :: "u64 \<Rightarrow> u64" where
  "tsc_to_ns tsc = tsc div 3"

definition registry_pick_next ::
  "heap \<Rightarrow> u32 \<Rightarrow> nat \<Rightarrow> taskref option \<Rightarrow> u64 \<Rightarrow> u64 \<Rightarrow> u64 \<Rightarrow> PluginRegistry
     \<Rightarrow> taskref option \<times> PluginRegistry" where
  "registry_pick_next h grp cpu prev now start stop r =
     (case bt_get grp (plugins r) of
        None \<Rightarrow> (None, r)
      | Some plugin \<Rightarrow>
          let ts = filter (\<lambda>t. runstate (h t) = Runnable) (group_runnable grp r);
              r1 = r\<lparr> runnable := bt_insert grp ts (runnable r) \<rparr>
          in if ts = [] then (None, r1)
             else
               let ctx = \<lparr> ctx_cpu_id = cpu, ctx_runnable = ts, ctx_now_ns = now, ctx_prev_task = prev \<rparr>;
                   result = plugin_pick plugin h ctx;
                   elapsed = tsc_to_ns (sat_sub stop start)
               in if PLUGIN_TIMEOUT_NS < elapsed then (None, r1)
                  else case result of
                    None \<Rightarrow> (None, r1)
                  | Some picked \<Rightarrow>
                      (Some picked,
                       r1\<lparr> runnable := bt_insert grp
                             (filter (\<lambda>t. task_id (h t) \<noteq> task_id (h picked)) ts) (runnable r1) \<rparr>))"

section \<open>The contract of a plugin\<close>

locale sched_plugin =
  fixes p :: SchedPlugin
    and prefers :: "heap \<Rightarrow> taskref \<Rightarrow> taskref \<Rightarrow> bool"
  assumes picks_offered: "plugin_pick p h ctx = Some t \<Longrightarrow> t \<in> set (ctx_runnable ctx)"
    and picks_best: "plugin_pick p h ctx = Some t \<Longrightarrow> u \<in> set (ctx_runnable ctx) \<Longrightarrow> prefers h t u"
begin

text \<open>What the registry returns for a group served by such a plugin.\<close>

lemma registry_pick:
  assumes ok: "bt_ok (runnable r)" and reg: "bt_get g (plugins r) = Some p"
    and pick: "registry_pick_next h g cpu prev now start stop r = (Some t, r')"
  shows "t \<in> set (group_runnable g r)" and "runstate (h t) = Runnable"
    and "u \<in> set (group_runnable g r) \<Longrightarrow> runstate (h u) = Runnable \<Longrightarrow> prefers h t u"
    and "group_runnable g r' =
      filter (\<lambda>u. runstate (h u) = Runnable \<and> task_id (h u) \<noteq> task_id (h t)) (group_runnable g r)"
    and "\<not> PLUGIN_TIMEOUT_NS < tsc_to_ns (sat_sub stop start)"
proof -
  let ?ts = "filter (\<lambda>t. runstate (h t) = Runnable) (group_runnable g r)"
  let ?ctx = "\<lparr> ctx_cpu_id = cpu, ctx_runnable = ?ts, ctx_now_ns = now, ctx_prev_task = prev \<rparr>"
  have p: "plugin_pick p h ?ctx = Some t" and fast: "\<not> PLUGIN_TIMEOUT_NS < tsc_to_ns (sat_sub stop start)"
    and r': "runnable r' = bt_insert g (filter (\<lambda>u. task_id (h u) \<noteq> task_id (h t)) ?ts) (bt_insert g ?ts (runnable r))"
    using pick reg by (auto simp: registry_pick_next_def Let_def split: if_splits option.splits)
  show "t \<in> set (group_runnable g r)" and "runstate (h t) = Runnable"
    using picks_offered [OF p] by simp_all
  show "u \<in> set (group_runnable g r) \<Longrightarrow> runstate (h u) = Runnable \<Longrightarrow> prefers h t u"
    using picks_best [OF p, of u] by simp
  show "group_runnable g r' =
      filter (\<lambda>u. runstate (h u) = Runnable \<and> task_id (h u) \<noteq> task_id (h t)) (group_runnable g r)"
    using ok by (simp add: group_runnable_def [of g r'] r' btm.get_insert bt_ok_insert conj_commute)
  show "\<not> PLUGIN_TIMEOUT_NS < tsc_to_ns (sat_sub stop start)" by (rule fast)
qed

end

definition woken_before :: "heap \<Rightarrow> taskref \<Rightarrow> taskref \<Rightarrow> bool" where
  "woken_before h t u \<longleftrightarrow> wakeup_time_ns (sched (h t)) \<le> wakeup_time_ns (sched (h u))"

interpretation latency_first: sched_plugin LatencyFirstPlugin woken_before
  by unfold_locales (auto simp: LatencyFirstPlugin_def woken_before_def dest: min_by_key_Some)

interpretation throughput_first: sched_plugin ThroughputFirstPlugin
  "\<lambda>h t u. weight (sched (h u)) \<le> weight (sched (h t))"
  by unfold_locales (auto simp: ThroughputFirstPlugin_def dest: max_by_key_Some)

interpretation isolated_core: sched_plugin "IsolatedCorePlugin c" woken_before for c
  by unfold_locales
    (auto simp: IsolatedCorePlugin_def woken_before_def dest: min_by_key_Some split: if_splits)

section \<open>Correctness of the registry\<close>

text \<open>
  C22: A pick through the registry for a group served by the latency-first plugin returns a
  registered task that is runnable and has waited longest, takes it off the group's runnable
  list together with every task that is no longer runnable, and happens only if the plugin met
  its time limit.
\<close>

theorem latency_first_pick:
  assumes "bt_ok (runnable r)" and "bt_get g (plugins r) = Some LatencyFirstPlugin"
    and "registry_pick_next h g cpu prev now start stop r = (Some t, r')"
  shows "t \<in> set (group_runnable g r) \<and> runstate (h t) = Runnable \<and>
    (\<forall>u \<in> set (group_runnable g r). runstate (h u) = Runnable \<longrightarrow>
       wakeup_time_ns (sched (h t)) \<le> wakeup_time_ns (sched (h u))) \<and>
    group_runnable g r' =
      filter (\<lambda>u. runstate (h u) = Runnable \<and> task_id (h u) \<noteq> task_id (h t)) (group_runnable g r) \<and>
    unat (sat_sub stop start) div 3 \<le> 10000"
proof -
  note L = latency_first.registry_pick [OF assms]
  have "unat (sat_sub stop start div 3) = unat (sat_sub stop start) div 3"
    by (simp add: unat_div_distrib)
  then have "unat (sat_sub stop start) div 3 \<le> 10000"
    using L(5) by (simp add: tsc_to_ns_def PLUGIN_TIMEOUT_NS_def word_less_nat_alt del: unat_sat_sub)
  then show ?thesis using L(1-4) by (simp add: woken_before_def)
qed

definition plug_ex :: PluginRegistry where
  "plug_ex = \<lparr> plugins = [(3, LatencyFirstPlugin)], runnable = [(3, [2, 4])] \<rparr>"

definition plug_ex_heap :: heap where
  "plug_ex_heap = (\<lambda>i. (Task_new i ''p'')\<lparr> sched := TaskSchedInfo_default\<lparr> wakeup_time_ns := of_nat (10 - i) \<rparr> \<rparr>)"

theorem latency_first_pick_witness:
  "\<exists>r'. registry_pick_next plug_ex_heap 3 0 None 7 100 400 plug_ex = (Some 4, r') \<and> group_runnable 3 r' = [2]"
proof -
  obtain r' where p: "registry_pick_next plug_ex_heap 3 0 None 7 100 400 plug_ex = (Some 4, r')"
    by (simp add: registry_pick_next_def plug_ex_def plug_ex_heap_def bt_get_def group_runnable_def Task_new_def
        LatencyFirstPlugin_def PLUGIN_TIMEOUT_NS_def tsc_to_ns_def sat_sub_def Let_def)
  have "bt_ok (runnable plug_ex)" "bt_get 3 (plugins plug_ex) = Some LatencyFirstPlugin"
    by (simp_all add: plug_ex_def bt_ok_def bt_get_def)
  moreover have "group_runnable 3 plug_ex = [2, 4]" by (simp add: group_runnable_def plug_ex_def bt_get_def)
  moreover have "runstate (plug_ex_heap u) = Runnable" "task_id (plug_ex_heap u) = u" for u
    by (simp_all add: plug_ex_heap_def Task_new_def)
  ultimately show ?thesis using latency_first_pick [OF _ _ p] p by simp
qed

end
