(* ===== verification/Task_Scheduler.thy ===== *)
theory Task_Scheduler
  imports Task_Struct
begin

text \<open>
  The trait \<open>Scheduler\<close> of \<open>kernel/task/src/scheduler.rs\<close> as a locale: the methods a policy
  provides and the laws the rest of the kernel relies on.  \<open>TaskRef\<close>s are compared by task id
  (\<open>impl PartialEq for Task\<close>).  The round-robin, epoch and priority policies and their union, the
  trait object, are interpretations.
\<close>

definition task_eq :: "heap \<Rightarrow> taskref \<Rightarrow> taskref \<Rightarrow> bool" where
  "task_eq h t u \<longleftrightarrow> task_id (h t) = task_id (h u)"

definition is_runnable :: "heap \<Rightarrow> taskref \<Rightarrow> bool" where
  "is_runnable h t \<longleftrightarrow> runstate (h t) = Runnable"

text \<open>No two queued references carry the same id.\<close>

definition ids_distinct :: "heap \<Rightarrow> taskref list \<Rightarrow> bool" where
  "ids_distinct h ts \<longleftrightarrow> distinct (map (\<lambda>t. task_id (h t)) ts)"

locale task_scheduler =
  fixes next_task :: "heap \<Rightarrow> nat \<Rightarrow> u64 \<Rightarrow> 's \<Rightarrow> taskref \<times> 's"
    and add :: "taskref \<Rightarrow> 's \<Rightarrow> 's"
    and busyness :: "'s \<Rightarrow> nat"
    and remove :: "heap \<Rightarrow> taskref \<Rightarrow> 's \<Rightarrow> bool \<times> 's"
    and drain :: "'s \<Rightarrow> taskref list \<times> 's"
    and tasks :: "'s \<Rightarrow> taskref list"
    and idle :: "'s \<Rightarrow> taskref"
  assumes add_tasks: "mset (tasks (add t s)) = add_mset t (mset (tasks s))"
    and busyness_tasks: "busyness s = length (tasks s)"
    and remove_found: "fst (remove h t s) \<longleftrightarrow> (\<exists>u \<in> set (tasks s). task_eq h u t)"
    and remove_tasks: "ids_distinct h (tasks s) \<Longrightarrow>
      mset (tasks (snd (remove h t s))) = filter_mset (\<lambda>u. \<not> task_eq h u t) (mset (tasks s))"
    and drain_all: "mset (fst (drain s)) = mset (tasks s)"
    and drain_empty: "tasks (snd (drain s)) = []"
    and next_tasks: "mset (tasks (snd (next_task h cur now s))) = mset (tasks s)"
    and next_runnable: "fst (next_task h cur now s) = idle s \<or>
      (fst (next_task h cur now s) \<in> set (tasks s) \<and> is_runnable h (fst (next_task h cur now s)))"
    and next_progress: "u \<in> set (tasks s) \<Longrightarrow> is_runnable h u \<Longrightarrow> task_id (h u) \<noteq> cur \<Longrightarrow>
      \<not> task_eq h u (idle s) \<Longrightarrow> length (tasks s) < 2 ^ 40 \<Longrightarrow>
      fst (next_task h cur now s) \<in> set (tasks s) \<and> is_runnable h (fst (next_task h cur now s))"
begin

text \<open>Moving the tasks of one scheduler into another, as a change of policy does.\<close>

lemma fold_add_tasks: "mset (tasks (fold add ts s)) = mset ts + mset (tasks s)"
  by (induction ts arbitrary: s) (simp_all add: add_tasks)

lemma drain_into: "mset (tasks (fold add (fst (drain s)) s')) = mset (tasks s) + mset (tasks s')"
  by (simp add: fold_add_tasks drain_all)

lemma add_busyness: "busyness (add t s) = Suc (busyness s)"
  by (metis add_tasks busyness_tasks size_add_mset size_mset)

lemma remove_after_add:
  assumes "ids_distinct h (t # tasks s)"
  shows "fst (remove h t (add t s))" and "mset (tasks (snd (remove h t (add t s)))) = mset (tasks s)"
proof -
  have m: "mset (tasks (add t s)) = mset (t # tasks s)" by (simp add: add_tasks)
  have "set (tasks (add t s)) = insert t (set (tasks s))" using mset_eq_setD [OF m] by simp
  then show "fst (remove h t (add t s))" by (auto simp: remove_found task_eq_def)
  have d: "ids_distinct h (tasks (add t s))"
    using assms mset_eq_imp_distinct_iff [of "map (\<lambda>t. task_id (h t)) (tasks (add t s))"
        "map (\<lambda>t. task_id (h t)) (t # tasks s)"] m unfolding ids_distinct_def by simp
  have "\<forall>u \<in> set (tasks s). \<not> task_eq h u t"
    using assms unfolding ids_distinct_def task_eq_def by (auto, metis imageI)
  then have "filter_mset (\<lambda>u. \<not> task_eq h u t) (mset (tasks s)) = mset (tasks s)"
    by (simp add: filter_mset_eq_conv)
  then show "mset (tasks (snd (remove h t (add t s)))) = mset (tasks s)"
    using remove_tasks [OF d, of t] by (simp add: add_tasks task_eq_def)
qed

end

text \<open>\<open>VecDeque::swap_remove_front\<close> and \<open>Vec::swap_remove\<close> for an index in range.\<close>

definition swap_remove_front :: "nat \<Rightarrow> 'a list \<Rightarrow> 'a list" where
  "swap_remove_front i xs = tl (xs[i := xs ! 0, 0 := xs ! i])"

definition swap_remove :: "nat \<Rightarrow> 'a list \<Rightarrow> 'a list" where
  "swap_remove i xs = butlast (xs[i := last xs])"

lemma mset_swap_remove_front:
  assumes "i < length xs"
  shows "mset xs = add_mset (xs ! i) (mset (swap_remove_front i xs))"
proof -
  let ?ys = "xs[i := xs ! 0, 0 := xs ! i]"
  have "mset ?ys = mset xs" using mset_swap [of 0 xs i] assms by (cases xs) simp_all
  moreover have "?ys = xs ! i # tl ?ys" using assms by (cases xs) (auto simp: nth_list_update split: nat.splits)
  ultimately show ?thesis unfolding swap_remove_front_def by (metis mset.simps(2))
qed

lemma swap_remove_front_nth:
  assumes "i < k" and "k < length xs"
  shows "swap_remove_front i xs ! (k - 1) = xs ! k"
  using assms by (simp add: swap_remove_front_def nth_tl)

lemma length_swap_remove_front: "i < length xs \<Longrightarrow> length (swap_remove_front i xs) = length xs - 1"
  by (simp add: swap_remove_front_def)

lemma mset_butlast: "xs \<noteq> [] \<Longrightarrow> mset xs = add_mset (last xs) (mset (butlast xs))"
  by (metis append_butlast_last_id mset.simps(1,2) mset_append union_mset_add_mset_right add.right_neutral)

lemma mset_swap_remove:
  assumes "i < length xs"
  shows "mset xs = add_mset (xs ! i) (mset (swap_remove i xs))"
proof -
  let ?ys = "xs[i := last xs]"
  have ne: "?ys \<noteq> []" using assms by auto
  have "last ?ys = last xs" using assms by (cases xs rule: rev_cases) (auto simp: list_update_append split: nat.splits)
  then have "add_mset (last xs) (mset (butlast ?ys)) = mset ?ys" using mset_butlast [OF ne] by simp
  also have "\<dots> = add_mset (last xs) (mset xs - {# xs ! i #})" using assms by (rule mset_update_nth)
  finally show ?thesis using assms by (simp add: swap_remove_def)
qed

end
