(* ===== verification/Sched_Round_Robin.thy ===== *)
theory Sched_Round_Robin
  imports Task_Scheduler
begin

text \<open>
  The round-robin policy of \<open>kernel/scheduler_round_robin/src/lib.rs\<close>: the first task that is
  runnable and not the current one is taken out with \<open>swap_remove_front\<close> and pushed to the back.
\<close>

record RoundRobinScheduler =
  rr_idle_task :: taskref
  rr_queue :: "taskref list"

definition rr_new :: "taskref \<Rightarrow> RoundRobinScheduler" where
  "rr_new idle = \<lparr> rr_idle_task = idle, rr_queue = [] \<rparr>"

definition rr_pickable :: "heap \<Rightarrow> nat \<Rightarrow> taskref \<Rightarrow> bool" where
  "rr_pickable h current_id t \<longleftrightarrow> is_runnable h t \<and> task_id (h t) \<noteq> current_id"

definition rr_next :: "heap \<Rightarrow> nat \<Rightarrow> u64 \<Rightarrow> RoundRobinScheduler \<Rightarrow> taskref \<times> RoundRobinScheduler" where
  "rr_next h current_id now s =
     (case position (rr_pickable h current_id) (rr_queue s) of
        Some i \<Rightarrow>
          let task = rr_queue s ! i
          in (task, s\<lparr> rr_queue := swap_remove_front i (rr_queue s) @ [task] \<rparr>)
      | None \<Rightarrow> (rr_idle_task s, s))"

definition rr_busyness :: "RoundRobinScheduler \<Rightarrow> nat" where
  "rr_busyness s = length (rr_queue s)"

definition rr_add :: "taskref \<Rightarrow> RoundRobinScheduler \<Rightarrow> RoundRobinScheduler" where
  "rr_add task s = s\<lparr> rr_queue := rr_queue s @ [task] \<rparr>"

definition rr_remove :: "heap \<Rightarrow> taskref \<Rightarrow> RoundRobinScheduler \<Rightarrow> bool \<times> RoundRobinScheduler" where
  "rr_remove h task s =
     (let old_len = length (rr_queue s);
          q = filter (\<lambda>t. \<not> task_eq h t task) (rr_queue s)
      in (length q \<noteq> old_len, s\<lparr> rr_queue := q \<rparr>))"

definition rr_drain :: "RoundRobinScheduler \<Rightarrow> taskref list \<times> RoundRobinScheduler" where
  "rr_drain s = (rr_queue s, s\<lparr> rr_queue := [] \<rparr>)"

definition rr_tasks :: "RoundRobinScheduler \<Rightarrow> taskref list" where
  "rr_tasks s = rr_queue s"

section \<open>The contract\<close>

lemma rr_next_cases:
  obtains (none) "\<forall>t \<in> set (rr_queue s). \<not> rr_pickable h cur t" "rr_next h cur now s = (rr_idle_task s, s)"
  | (some) i where "i < length (rr_queue s)" "rr_pickable h cur (rr_queue s ! i)"
      "\<forall>j < i. \<not> rr_pickable h cur (rr_queue s ! j)"
      "rr_next h cur now s =
        (rr_queue s ! i, s\<lparr> rr_queue := swap_remove_front i (rr_queue s) @ [rr_queue s ! i] \<rparr>)"
proof (cases "position (rr_pickable h cur) (rr_queue s)")
  case None
  then have "\<forall>t \<in> set (rr_queue s). \<not> rr_pickable h cur t" by (simp add: position_None)
  moreover have "rr_next h cur now s = (rr_idle_task s, s)" using None by (simp add: rr_next_def)
  ultimately show ?thesis by (rule none)
next
  case (Some i)
  then have "rr_next h cur now s =
      (rr_queue s ! i, s\<lparr> rr_queue := swap_remove_front i (rr_queue s) @ [rr_queue s ! i] \<rparr>)"
    by (simp add: rr_next_def Let_def)
  with Some show ?thesis by (intro some [of i]) (simp_all add: position_Some)
qed

interpretation rr: task_scheduler rr_next rr_add rr_busyness rr_remove rr_drain rr_tasks rr_idle_task
proof
  fix h cur now and s :: RoundRobinScheduler and t u
  show "mset (rr_tasks (rr_add t s)) = add_mset t (mset (rr_tasks s))"
    by (simp add: rr_tasks_def rr_add_def)
  show "rr_busyness s = length (rr_tasks s)" by (simp add: rr_busyness_def rr_tasks_def)
  show "fst (rr_remove h t s) \<longleftrightarrow> (\<exists>u \<in> set (rr_tasks s). task_eq h u t)"
    using length_filter_neq [of "\<lambda>u. \<not> task_eq h u t" "rr_queue s"]
    by (simp add: rr_remove_def rr_tasks_def)
  show "mset (rr_tasks (snd (rr_remove h t s))) = filter_mset (\<lambda>u. \<not> task_eq h u t) (mset (rr_tasks s))"
    by (simp add: rr_remove_def rr_tasks_def Let_def)
  show "mset (fst (rr_drain s)) = mset (rr_tasks s)" "rr_tasks (snd (rr_drain s)) = []"
    by (simp_all add: rr_drain_def rr_tasks_def)
  show "mset (rr_tasks (snd (rr_next h cur now s))) = mset (rr_tasks s)"
    by (cases rule: rr_next_cases [of s h cur now]) (simp_all add: rr_tasks_def mset_swap_remove_front)
  show "fst (rr_next h cur now s) = rr_idle_task s \<or>
      (fst (rr_next h cur now s) \<in> set (rr_tasks s) \<and> is_runnable h (fst (rr_next h cur now s)))"
    by (cases rule: rr_next_cases [of s h cur now]) (auto simp: rr_tasks_def rr_pickable_def)
  assume "u \<in> set (rr_tasks s)" "is_runnable h u" "task_id (h u) \<noteq> cur"
  then show "fst (rr_next h cur now s) \<in> set (rr_tasks s) \<and> is_runnable h (fst (rr_next h cur now s))"
    by (cases rule: rr_next_cases [of s h cur now]) (auto simp: rr_tasks_def rr_pickable_def)
qed

section \<open>Bounded waiting\<close>

text \<open>A run of the scheduler: at each call the task store and the current task may differ.\<close>

primrec rr_run :: "(heap \<times> nat) list \<Rightarrow> RoundRobinScheduler \<Rightarrow> taskref list" where
  "rr_run [] s = []"
| "rr_run (e # es) s = (let (t, s') = rr_next (fst e) (snd e) 0 s in t # rr_run es s')"

text \<open>A pickable task is picked, or moves one place forward.\<close>

lemma rr_next_advances:
  assumes "i < length (rr_queue s)" and "rr_pickable h cur (rr_queue s ! i)"
    and "rr_next h cur now s = (t, s')"
  shows "t = rr_queue s ! i \<or>
    (0 < i \<and> i - 1 < length (rr_queue s') \<and> rr_queue s' ! (i - 1) = rr_queue s ! i)"
proof (cases rule: rr_next_cases [of s h cur now])
  case none
  then show ?thesis using assms(1,2) by (simp add: all_set_conv_all_nth)
next
  case (some j)
  have "j \<le> i" using some(3) assms(2) by (meson not_less)
  show ?thesis
  proof (cases "j = i")
    case True
    then show ?thesis using some(4) assms(3) by simp
  next
    case False
    with \<open>j \<le> i\<close> have ji: "j < i" by simp
    have q: "rr_queue s' = swap_remove_front j (rr_queue s) @ [rr_queue s ! j]" using some(4) assms(3) by auto
    have "i - 1 < length (swap_remove_front j (rr_queue s))"
      using ji assms(1) some(1) by (simp add: length_swap_remove_front)
    then show ?thesis
      using ji assms(1) swap_remove_front_nth [OF ji assms(1)] by (simp add: q nth_append)
  qed
qed

lemma rr_run_picks:
  assumes "i < length (rr_queue s)" and "rr_queue s ! i = t" and "i < length es"
    and "\<forall>(h, cur) \<in> set es. rr_pickable h cur t"
  shows "t \<in> set (take (Suc i) (rr_run es s))"
  using assms
proof (induction i arbitrary: es s)
  case 0
  then obtain e es' where es: "es = e # es'" by (cases es) auto
  obtain u s' where n: "rr_next (fst e) (snd e) 0 s = (u, s')" by fastforce
  have "rr_pickable (fst e) (snd e) (rr_queue s ! 0)" using 0 es by auto
  from rr_next_advances [OF 0(1) this n] have "u = t" using 0(2) by simp
  then show ?case by (simp add: es n)
next
  case (Suc i)
  then obtain e es' where es: "es = e # es'" by (cases es) auto
  obtain u s' where n: "rr_next (fst e) (snd e) 0 s = (u, s')" by fastforce
  have "rr_pickable (fst e) (snd e) (rr_queue s ! Suc i)" using Suc.prems es by auto
  from rr_next_advances [OF Suc.prems(1) this n] Suc.prems(2)
  consider "u = t" | "i < length (rr_queue s')" "rr_queue s' ! i = t" by auto
  then show ?case
  proof cases
    case 1
    then show ?thesis by (simp add: es n)
  next
    case 2
    have "t \<in> set (take (Suc i) (rr_run es' s'))"
      by (rule Suc.IH [OF 2]) (use Suc.prems es in auto)
    then show ?thesis by (simp add: es n)
  qed
qed

text \<open>
  C23: Round-robin has bounded waiting.  A queued task at position i that stays runnable and is
  not the running task is returned by one of the next \<open>i + 1\<close> calls of \<open>next\<close>, whatever the
  other tasks do meanwhile; so no task waits longer than the length of the queue.
\<close>

theorem rr_bounded_waiting:
  assumes "i < length (rr_queue s)" and "rr_queue s ! i = t" and "length es = i + 1"
    and "\<forall>(h, cur) \<in> set es. is_runnable h t \<and> task_id (h t) \<noteq> cur"
  shows "t \<in> set (rr_run es s)"
proof -
  have "t \<in> set (take (Suc i) (rr_run es s))"
    by (rule rr_run_picks [OF assms(1,2)]) (use assms(3,4) in \<open>auto simp: rr_pickable_def\<close>)
  then show ?thesis by (rule in_set_takeD)
qed

definition rr_ex :: RoundRobinScheduler where
  "rr_ex = \<lparr> rr_idle_task = 0, rr_queue = [2, 3] \<rparr>"

definition rr_ex_heap :: heap where
  "rr_ex_heap = (\<lambda>i. Task_new i ''rr'')"

theorem rr_bounded_waiting_witness: "3 \<in> set (rr_run [(rr_ex_heap, 9), (rr_ex_heap, 2)] rr_ex)"
  by (rule rr_bounded_waiting [of "Suc 0"])
    (simp_all add: rr_ex_def rr_ex_heap_def is_runnable_def Task_new_def)

end
