(* ===== verification/Sched_Epoch.thy ===== *)
theory Sched_Epoch
  imports Task_Scheduler
begin

text \<open>
  The epoch policy of \<open>kernel/scheduler_epoch/src/lib.rs\<close>: each pick costs a token, and when no
  runnable task has tokens left a new epoch distributes them in proportion to \<open>priority + 1\<close>.
\<close>

section \<open>State and operations\<close>

definition MAX_PRIORITY :: u8 where "MAX_PRIORITY = 40"
definition DEFAULT_PRIORITY :: u8 where "DEFAULT_PRIORITY = 20"
definition INITIAL_TOKENS :: usize where "INITIAL_TOKENS = 10"

record EpochTaskRef =
  ep_task :: taskref
  ep_priority :: u8
  tokens_remaining :: usize

record EpochScheduler =
  ep_idle_task :: taskref
  ep_queue :: "EpochTaskRef list"

definition EpochTaskRef_new :: "taskref \<Rightarrow> EpochTaskRef" where
  "EpochTaskRef_new task =
     \<lparr> ep_task = task, ep_priority = DEFAULT_PRIORITY, tokens_remaining = INITIAL_TOKENS \<rparr>"

definition ep_new :: "taskref \<Rightarrow> EpochScheduler" where
  "ep_new idle = \<lparr> ep_idle_task = idle, ep_queue = [] \<rparr>"

definition update_and_move_to_end ::
  "nat \<Rightarrow> usize \<Rightarrow> EpochScheduler \<Rightarrow> taskref option \<times> EpochScheduler" where
  "update_and_move_to_end index tokens s =
     (case vec_get (ep_queue s) index of
        None \<Rightarrow> (None, s)
      | Some e \<Rightarrow>
          (Some (ep_task e),
           s\<lparr> ep_queue := remove_at index (ep_queue s) @ [e\<lparr> tokens_remaining := tokens \<rparr>] \<rparr>))"

definition has_tokens :: "heap \<Rightarrow> EpochTaskRef \<Rightarrow> bool" where
  "has_tokens h e \<longleftrightarrow> is_runnable h (ep_task e) \<and> 0 < tokens_remaining e"

definition try_next :: "heap \<Rightarrow> EpochScheduler \<Rightarrow> taskref option \<times> EpochScheduler" where
  "try_next h s =
     (case position (has_tokens h) (ep_queue s) of
        None \<Rightarrow> (None, s)
      | Some i \<Rightarrow> update_and_move_to_end i (tokens_remaining (ep_queue s ! i) - 1) s)"

definition ep_weight :: "EpochTaskRef \<Rightarrow> usize" where
  "ep_weight e = sat_add (ucast (ep_priority e)) 1"

definition ep_total_weight :: "heap \<Rightarrow> EpochScheduler \<Rightarrow> usize" where
  "ep_total_weight h s =
     sum_list (map ep_weight
       (filter (\<lambda>e. is_runnable h (ep_task e) \<and> \<not> task_eq h (ep_task e) (ep_idle_task s)) (ep_queue s)))"

definition assign_tokens :: "heap \<Rightarrow> EpochScheduler \<Rightarrow> EpochScheduler" where
  "assign_tokens h s =
     (let total_weight = ep_total_weight h s
      in if total_weight = 0 then s
         else
           let epoch = max total_weight 100
           in s\<lparr> ep_queue := map (\<lambda>e.
                if task_eq h (ep_task e) (ep_idle_task s) \<or> \<not> is_runnable h (ep_task e)
                then e\<lparr> tokens_remaining := 0 \<rparr>
                else e\<lparr> tokens_remaining := sat_mul epoch (ep_weight e) div total_weight \<rparr>) (ep_queue s) \<rparr>)"

definition ep_next :: "heap \<Rightarrow> nat \<Rightarrow> u64 \<Rightarrow> EpochScheduler \<Rightarrow> taskref \<times> EpochScheduler" where
  "ep_next h cur now s =
     (case try_next h s of
        (Some t, s1) \<Rightarrow> (t, s1)
      | (None, s1) \<Rightarrow>
          (case try_next h (assign_tokens h s1) of
             (Some t, s2) \<Rightarrow> (t, s2)
           | (None, s2) \<Rightarrow> (ep_idle_task s2, s2)))"

definition ep_add :: "taskref \<Rightarrow> EpochScheduler \<Rightarrow> EpochScheduler" where
  "ep_add task s = s\<lparr> ep_queue := ep_queue s @ [EpochTaskRef_new task] \<rparr>"

definition ep_busyness :: "EpochScheduler \<Rightarrow> nat" where
  "ep_busyness s = length (ep_queue s)"

definition ep_remove :: "heap \<Rightarrow> taskref \<Rightarrow> EpochScheduler \<Rightarrow> bool \<times> EpochScheduler" where
  "ep_remove h task s =
     (case position (\<lambda>e. task_eq h (ep_task e) task) (ep_queue s) of
        Some i \<Rightarrow> (True, s\<lparr> ep_queue := remove_at i (ep_queue s) \<rparr>)
      | None \<Rightarrow> (False, s))"

definition ep_drain :: "EpochScheduler \<Rightarrow> taskref list \<times> EpochScheduler" where
  "ep_drain s = (map ep_task (ep_queue s), s\<lparr> ep_queue := [] \<rparr>)"

definition ep_tasks :: "EpochScheduler \<Rightarrow> taskref list" where
  "ep_tasks s = map ep_task (ep_queue s)"

definition ep_set_priority :: "heap \<Rightarrow> taskref \<Rightarrow> u8 \<Rightarrow> EpochScheduler \<Rightarrow> bool \<times> EpochScheduler" where
  "ep_set_priority h task prio s =
     (let prio = min prio MAX_PRIORITY
      in case position (\<lambda>e. task_eq h (ep_task e) task) (ep_queue s) of
           Some i \<Rightarrow> (True, s\<lparr> ep_queue := (ep_queue s)[i := (ep_queue s ! i)\<lparr> ep_priority := prio \<rparr>] \<rparr>)
         | None \<Rightarrow> (False, s))"

definition ep_get_priority :: "heap \<Rightarrow> taskref \<Rightarrow> EpochScheduler \<Rightarrow> u8 option" where
  "ep_get_priority h task s =
     map_option ep_priority (List.find (\<lambda>e. task_eq h (ep_task e) task) (ep_queue s))"

section \<open>One pick\<close>

lemma try_next_cases:
  obtains (none) "\<forall>e \<in> set (ep_queue s). \<not> has_tokens h e" "try_next h s = (None, s)"
  | (some) i e where "i < length (ep_queue s)" "e = ep_queue s ! i" "has_tokens h e"
      "try_next h s = (Some (ep_task e),
         s\<lparr> ep_queue := remove_at i (ep_queue s) @ [e\<lparr> tokens_remaining := tokens_remaining e - 1 \<rparr>] \<rparr>)"
proof (cases "position (has_tokens h) (ep_queue s)")
  case None
  then have "\<forall>e \<in> set (ep_queue s). \<not> has_tokens h e" by (simp add: position_None)
  moreover have "try_next h s = (None, s)" using None by (simp add: try_next_def)
  ultimately show ?thesis by (rule none)
next
  case (Some i)
  then have i: "i < length (ep_queue s)" "has_tokens h (ep_queue s ! i)" by (simp_all add: position_Some)
  then have "try_next h s = (Some (ep_task (ep_queue s ! i)), s\<lparr> ep_queue := remove_at i (ep_queue s) @
      [(ep_queue s ! i)\<lparr> tokens_remaining := tokens_remaining (ep_queue s ! i) - 1 \<rparr>] \<rparr>)"
    using Some by (simp add: try_next_def update_and_move_to_end_def vec_get_def)
  then show ?thesis by (intro some [of i "ep_queue s ! i"] i refl)
qed

lemma try_next_frame:
  "mset (ep_tasks (snd (try_next h s))) = mset (ep_tasks s)"
  "ep_idle_task (snd (try_next h s)) = ep_idle_task s"
  "fst (try_next h s) = Some t \<Longrightarrow> t \<in> set (ep_tasks s) \<and> is_runnable h t"
  by (cases rule: try_next_cases [of s h];
      simp add: ep_tasks_def has_tokens_def;
      metis (no_types, lifting) image_mset_add_mset mset_map mset_remove_at nth_mem image_eqI)+

lemma assign_tokens_frame [simp]:
  "ep_tasks (assign_tokens h s) = ep_tasks s"
  "ep_idle_task (assign_tokens h s) = ep_idle_task s"
  "map ep_priority (ep_queue (assign_tokens h s)) = map ep_priority (ep_queue s)"
  "length (ep_queue (assign_tokens h s)) = length (ep_queue s)"
  by (auto simp: assign_tokens_def Let_def ep_tasks_def)

section \<open>Distribution of tokens\<close>

text \<open>The tasks that compete in an epoch, and the share of each, in natural numbers.\<close>

definition competes :: "heap \<Rightarrow> EpochScheduler \<Rightarrow> EpochTaskRef \<Rightarrow> bool" where
  "competes h s e \<longleftrightarrow> is_runnable h (ep_task e) \<and> \<not> task_eq h (ep_task e) (ep_idle_task s)"

definition ep_W :: "heap \<Rightarrow> EpochScheduler \<Rightarrow> nat" where
  "ep_W h s = sum_list (map (\<lambda>e. unat (ep_priority e) + 1) (filter (competes h s) (ep_queue s)))"

definition ep_share :: "heap \<Rightarrow> EpochScheduler \<Rightarrow> EpochTaskRef \<Rightarrow> nat" where
  "ep_share h s e =
     (if competes h s e then max (ep_W h s) 100 * (unat (ep_priority e) + 1) div ep_W h s else 0)"

lemma unat_priority_bound: "unat (p :: u8) \<le> 255"
proof -
  have "unat p < 2 ^ 8" using unsigned_less [of p] by simp
  then show ?thesis by simp
qed

lemma unat_ep_weight [simp]: "unat (ep_weight e) = unat (ep_priority e) + 1"
  using unat_priority_bound [of "ep_priority e"]
  by (simp add: ep_weight_def unat_sat_add_nowrap)

lemma ep_W_bound: "ep_W h s \<le> 256 * length (ep_queue s)"
proof -
  have "sum_list (map (\<lambda>e. unat (ep_priority e) + 1) es) \<le> 256 * length es" for es
  proof (induction es)
    case (Cons e es)
    then show ?case using unat_priority_bound [of "ep_priority e"] by simp
  qed simp
  then have "ep_W h s \<le> 256 * length (filter (competes h s) (ep_queue s))" unfolding ep_W_def .
  also have "\<dots> \<le> 256 * length (ep_queue s)" by simp
  finally show ?thesis .
qed

lemma unat_total_weight:
  assumes "length (ep_queue s) < 2 ^ 40"
  shows "unat (ep_total_weight h s) = ep_W h s"
proof -
  have "ep_W h s < 2 ^ 64" using ep_W_bound [of h s] assms by simp
  then have "sum_list (map unat (map ep_weight (filter (competes h s) (ep_queue s)))) < 2 ^ LENGTH(64)"
    by (simp add: ep_W_def comp_def)
  from unat_sum_list_nowrap [OF this] show ?thesis
    by (simp add: ep_total_weight_def ep_W_def competes_def [abs_def] comp_def)
qed

lemma competes_W_pos: "e \<in> set (ep_queue s) \<Longrightarrow> competes h s e \<Longrightarrow> 0 < ep_W h s"
proof -
  assume "e \<in> set (ep_queue s)" "competes h s e"
  then have "unat (ep_priority e) + 1 \<in> set (map (\<lambda>e. unat (ep_priority e) + 1) (filter (competes h s) (ep_queue s)))"
    by auto
  then have "unat (ep_priority e) + 1 \<le> ep_W h s" unfolding ep_W_def by (rule member_le_sum_list) simp
  then show ?thesis by simp
qed

lemma unat_share:
  assumes n: "length (ep_queue s) < 2 ^ 40" and pos: "0 < ep_W h s"
  shows "unat (sat_mul (max (ep_total_weight h s) 100) (ep_weight e) div ep_total_weight h s) =
    max (ep_W h s) 100 * (unat (ep_priority e) + 1) div ep_W h s"
proof -
  note W = unat_total_weight [OF n, of h]
  have m: "unat (max (ep_total_weight h s) 100) = max (ep_W h s) 100"
    by (simp add: max_def word_le_nat_alt W)
  have "max (ep_W h s) 100 * (unat (ep_priority e) + 1) \<le> 2 ^ 49 * 2 ^ 8"
    using ep_W_bound [of h s] n unat_priority_bound [of "ep_priority e"] by (intro mult_le_mono) auto
  then have "unat (max (ep_total_weight h s) 100) * unat (ep_weight e) < 2 ^ LENGTH(64)"
    unfolding m by simp
  then show ?thesis by (simp add: unat_div_distrib unat_sat_mul_nowrap m W)
qed

text \<open>A new epoch gives every entry its share.\<close>

lemma assign_tokens_shares:
  assumes n: "length (ep_queue s) < 2 ^ 40" and pos: "0 < ep_W h s"
  shows "map (\<lambda>e. (ep_task e, unat (tokens_remaining e))) (ep_queue (assign_tokens h s)) =
    map (\<lambda>e. (ep_task e, ep_share h s e)) (ep_queue s)"
proof -
  have "ep_total_weight h s \<noteq> 0" using unat_total_weight [OF n, of h] pos by auto
  then show ?thesis
    using unat_share [OF n pos]
    by (simp add: assign_tokens_def Let_def ep_share_def competes_def)
qed

lemma ep_share_pos: "e \<in> set (ep_queue s) \<Longrightarrow> competes h s e \<Longrightarrow> 0 < ep_share h s e"
proof -
  assume e: "e \<in> set (ep_queue s)" "competes h s e"
  then have W: "0 < ep_W h s" by (rule competes_W_pos)
  have "ep_W h s * 1 \<le> max (ep_W h s) 100 * (unat (ep_priority e) + 1)" by (intro mult_le_mono) auto
  then show ?thesis using e(2) W by (simp add: ep_share_def div_greater_zero_iff)
qed

lemma sum_list_div_le: "sum_list (map (\<lambda>x. f x div k) xs) \<le> sum_list (map f xs) div (k :: nat)"
proof (cases "k = 0")
  case False
  have "sum_list (map (\<lambda>x. f x div k) xs) * k \<le> sum_list (map f xs)"
    by (induction xs) (auto simp: add_mult_distrib intro: add_le_mono)
  then show ?thesis using False by (simp add: less_eq_div_iff_mult_less_eq)
qed simp

lemma ep_share_sum:
  assumes "0 < ep_W h s"
  shows "sum_list (map (ep_share h s) (ep_queue s)) \<le> max (ep_W h s) 100"
proof -
  let ?E = "max (ep_W h s) 100" and ?es = "filter (competes h s) (ep_queue s)"
  have "sum_list (map (ep_share h s) (ep_queue s)) =
      sum_list (map (\<lambda>e. ?E * (unat (ep_priority e) + 1) div ep_W h s) ?es)"
    unfolding ep_share_def by (simp only: sum_list_map_filter')
  also have "\<dots> \<le> sum_list (map (\<lambda>e. ?E * (unat (ep_priority e) + 1)) ?es) div ep_W h s"
    by (rule sum_list_div_le)
  also have "sum_list (map (\<lambda>e. ?E * (unat (ep_priority e) + 1)) ?es) = ?E * ep_W h s"
    unfolding ep_W_def sum_list_const_mult ..
  finally show ?thesis using assms by simp
qed

lemma competes_gets_tokens:
  assumes n: "length (ep_queue s) < 2 ^ 40" and e: "e \<in> set (ep_queue s)" "competes h s e"
  shows "\<exists>e' \<in> set (ep_queue (assign_tokens h s)). has_tokens h e'"
proof -
  have "(ep_task e, ep_share h s e) \<in> set (map (\<lambda>e. (ep_task e, ep_share h s e)) (ep_queue s))"
    using e(1) by auto
  then have "(ep_task e, ep_share h s e) \<in>
      set (map (\<lambda>e. (ep_task e, unat (tokens_remaining e))) (ep_queue (assign_tokens h s)))"
    by (simp only: assign_tokens_shares [OF n competes_W_pos [OF e]])
  then obtain e' where "e' \<in> set (ep_queue (assign_tokens h s))" "ep_task e' = ep_task e"
    "unat (tokens_remaining e') = ep_share h s e" by auto
  moreover have "0 < tokens_remaining e'"
    using calculation(3) ep_share_pos [OF e] by (metis unat_0 word_gt_0 less_irrefl)
  ultimately show ?thesis
    using e(2) by (intro bexI [of _ e']) (simp_all add: has_tokens_def competes_def)
qed

lemma try_next_Some:
  "\<exists>e \<in> set (ep_queue s). has_tokens h e \<Longrightarrow> \<exists>t s'. try_next h s = (Some t, s')"
  by (cases rule: try_next_cases [of s h]) auto

lemma ep_next_frame:
  "mset (ep_tasks (snd (ep_next h cur now s))) = mset (ep_tasks s)"
  "fst (ep_next h cur now s) = ep_idle_task s \<or>
     (fst (ep_next h cur now s) \<in> set (ep_tasks s) \<and> is_runnable h (fst (ep_next h cur now s)))"
proof -
  obtain r s1 where t1: "try_next h s = (r, s1)" by fastforce
  obtain r2 s2 where t2: "try_next h (assign_tokens h s1) = (r2, s2)" by fastforce
  have s1: "mset (ep_tasks s1) = mset (ep_tasks s)" "ep_idle_task s1 = ep_idle_task s"
    using try_next_frame(1,2) [of h s] t1 by simp_all
  then have set: "set (ep_tasks s1) = set (ep_tasks s)" using mset_eq_setD by blast
  have s2: "mset (ep_tasks s2) = mset (ep_tasks s1)" "ep_idle_task s2 = ep_idle_task s1"
    using try_next_frame(1,2) [of h "assign_tokens h s1"] t2 by simp_all
  show "mset (ep_tasks (snd (ep_next h cur now s))) = mset (ep_tasks s)"
    using t1 t2 s1 s2 by (simp add: ep_next_def split: option.splits)
  show "fst (ep_next h cur now s) = ep_idle_task s \<or>
     (fst (ep_next h cur now s) \<in> set (ep_tasks s) \<and> is_runnable h (fst (ep_next h cur now s)))"
    using t1 t2 s1 s2 set try_next_frame(3) [of h s] try_next_frame(3) [of h "assign_tokens h s1"]
    by (simp add: ep_next_def split: option.splits)
qed

lemma ep_next_progress:
  assumes n: "length (ep_queue s) < 2 ^ 40" and e: "e \<in> set (ep_queue s)" "competes h s e"
  shows "fst (ep_next h cur now s) \<in> set (ep_tasks s) \<and> is_runnable h (fst (ep_next h cur now s))"
proof (cases rule: try_next_cases [of s h])
  case none
  obtain t s2 where t: "try_next h (assign_tokens h s) = (Some t, s2)"
    using try_next_Some [OF competes_gets_tokens [OF n e]] by blast
  then show ?thesis using none(2) try_next_frame(3) [of h "assign_tokens h s" t] by (simp add: ep_next_def)
next
  case (some i e')
  then show ?thesis using try_next_frame(3) [of h s "ep_task e'"] by (simp add: ep_next_def)
qed

lemma mset_remove_first:
  assumes "ids_distinct h (map ep_task q)" and "position (\<lambda>e. task_eq h (ep_task e) t) q = Some i"
  shows "mset (map ep_task (remove_at i q)) = filter_mset (\<lambda>u. \<not> task_eq h u t) (mset (map ep_task q))"
proof -
  have i: "i < length q" "task_eq h (ep_task (q ! i)) t" using assms(2) by (simp_all add: position_Some)
  have m: "mset (map ep_task q) = add_mset (ep_task (q ! i)) (mset (map ep_task (remove_at i q)))"
    using arg_cong [OF mset_remove_at [OF i(1)], of "image_mset ep_task"] by simp
  have "mset (map (\<lambda>t. task_id (h t)) (map ep_task q)) =
      add_mset (task_id (h (ep_task (q ! i)))) (mset (map (\<lambda>t. task_id (h t)) (map ep_task (remove_at i q))))"
    using arg_cong [OF m, of "image_mset (\<lambda>t. task_id (h t))"]
    by (simp add: multiset.map_comp comp_def)
  from distinct_mset_add [OF this] assms(1)
  have "\<forall>u \<in> set (map ep_task (remove_at i q)). \<not> task_eq h u t"
    using i(2) by (auto simp: ids_distinct_def task_eq_def image_iff)
  then have "filter_mset (\<lambda>u. \<not> task_eq h u t) (mset (map ep_task (remove_at i q))) = mset (map ep_task (remove_at i q))"
    by (simp add: filter_mset_eq_conv)
  then show ?thesis using i(2) by (simp add: m del: mset_map)
qed

interpretation ep: task_scheduler ep_next ep_add ep_busyness ep_remove ep_drain ep_tasks ep_idle_task
proof
  fix h cur now and s :: EpochScheduler and t u
  show "mset (ep_tasks (ep_add t s)) = add_mset t (mset (ep_tasks s))"
    by (simp add: ep_tasks_def ep_add_def EpochTaskRef_new_def)
  show "ep_busyness s = length (ep_tasks s)" by (simp add: ep_busyness_def ep_tasks_def)
  show "fst (ep_remove h t s) \<longleftrightarrow> (\<exists>u \<in> set (ep_tasks s). task_eq h u t)"
    using position_None [of "\<lambda>e. task_eq h (ep_task e) t" "ep_queue s"]
    by (auto simp: ep_remove_def ep_tasks_def split: option.splits)
  show "ids_distinct h (ep_tasks s) \<Longrightarrow>
      mset (ep_tasks (snd (ep_remove h t s))) = filter_mset (\<lambda>u. \<not> task_eq h u t) (mset (ep_tasks s))"
  proof (cases "position (\<lambda>e. task_eq h (ep_task e) t) (ep_queue s)")
    case None
    then have "\<forall>u \<in> set (ep_tasks s). \<not> task_eq h u t" by (auto simp: position_None ep_tasks_def)
    then show ?thesis using None by (simp add: ep_remove_def filter_mset_all)
  next
    case (Some i)
    assume "ids_distinct h (ep_tasks s)"
    then show ?thesis using mset_remove_first [OF _ Some] Some by (simp add: ep_remove_def ep_tasks_def)
  qed
  show "mset (fst (ep_drain s)) = mset (ep_tasks s)" "ep_tasks (snd (ep_drain s)) = []"
    by (simp_all add: ep_drain_def ep_tasks_def)
  show "mset (ep_tasks (snd (ep_next h cur now s))) = mset (ep_tasks s)"
    and "fst (ep_next h cur now s) = ep_idle_task s \<or>
      (fst (ep_next h cur now s) \<in> set (ep_tasks s) \<and> is_runnable h (fst (ep_next h cur now s)))"
    by (rule ep_next_frame)+
  assume "u \<in> set (ep_tasks s)" "is_runnable h u" "\<not> task_eq h u (ep_idle_task s)" "length (ep_tasks s) < 2 ^ 40"
  then obtain e where "e \<in> set (ep_queue s)" "competes h s e" "length (ep_queue s) < 2 ^ 40"
    by (auto simp: ep_tasks_def competes_def)
  then show "fst (ep_next h cur now s) \<in> set (ep_tasks s) \<and> is_runnable h (fst (ep_next h cur now s))"
    by (intro ep_next_progress)
qed

section \<open>A whole epoch\<close>

text \<open>The tokens a task still has, and the tokens all runnable tasks have.\<close>

definition tok :: "EpochScheduler \<Rightarrow> taskref \<Rightarrow> nat" where
  "tok s t = sum_list (map (\<lambda>e. if ep_task e = t then unat (tokens_remaining e) else 0) (ep_queue s))"

definition left :: "heap \<Rightarrow> EpochScheduler \<Rightarrow> nat" where
  "left h s = sum_list (map (\<lambda>e. if is_runnable h (ep_task e) then unat (tokens_remaining e) else 0) (ep_queue s))"

primrec ep_nexts :: "heap \<Rightarrow> nat \<Rightarrow> EpochScheduler \<Rightarrow> taskref list \<times> EpochScheduler" where
  "ep_nexts h 0 s = ([], s)"
| "ep_nexts h (Suc n) s =
     (let (t, s1) = ep_next h 0 0 s; (ts, s2) = ep_nexts h n s1 in (t # ts, s2))"

lemma sum_list_move_to_end:
  "i < length xs \<Longrightarrow> sum_list (map f (remove_at i xs @ [y])) + f (xs ! i) = sum_list (map f xs) + (f y :: nat)"
proof -
  assume "i < length xs"
  from arg_cong [OF mset_remove_at [OF this], of "\<lambda>m. sum_mset (image_mset f m)"]
  have "sum_list (map f xs) = f (xs ! i) + sum_list (map f (remove_at i xs))"
    by (simp flip: sum_mset_sum_list)
  then show ?thesis by simp
qed

lemma left_pos_has_tokens: "0 < left h s \<Longrightarrow> \<exists>e \<in> set (ep_queue s). has_tokens h e"
proof (rule ccontr)
  assume pos: "0 < left h s" and "\<not> (\<exists>e \<in> set (ep_queue s). has_tokens h e)"
  then have "\<forall>e \<in> set (ep_queue s). (if is_runnable h (ep_task e) then unat (tokens_remaining e) else 0) = 0"
    by (auto simp: has_tokens_def word_gt_0)
  then have "left h s = 0" by (simp add: left_def)
  with pos show False by simp
qed

lemma ep_next_spends:
  assumes "0 < left h s" and "ep_next h cur now s = (t, s')"
  shows "left h s = Suc (left h s')" and "tok s u = tok s' u + (if u = t then 1 else 0)"
proof -
  obtain i e where i: "i < length (ep_queue s)" "e = ep_queue s ! i" and e: "has_tokens h e"
    and n: "try_next h s = (Some (ep_task e),
      s\<lparr> ep_queue := remove_at i (ep_queue s) @ [e\<lparr> tokens_remaining := tokens_remaining e - 1 \<rparr>] \<rparr>)"
    using left_pos_has_tokens [OF assms(1)] by (cases rule: try_next_cases [of s h]) auto
  have t: "t = ep_task e" and s': "ep_queue s' = remove_at i (ep_queue s) @ [e\<lparr> tokens_remaining := tokens_remaining e - 1 \<rparr>]"
    using n assms(2) by (auto simp: ep_next_def)
  have "1 \<le> tokens_remaining e" using e by (simp add: has_tokens_def word_le_nat_alt word_gt_0 Suc_le_eq unat_gt_0)
  then have d: "unat (tokens_remaining e) = Suc (unat (tokens_remaining e - 1))"
    by (simp add: unat_sub word_le_nat_alt)
  note S = sum_list_move_to_end [OF i(1), of _ "e\<lparr> tokens_remaining := tokens_remaining e - 1 \<rparr>", folded i(2) s']
  show "left h s = Suc (left h s')"
    using S [of "\<lambda>e. if is_runnable h (ep_task e) then unat (tokens_remaining e) else 0"] e d
    by (simp add: left_def has_tokens_def)
  show "tok s u = tok s' u + (if u = t then 1 else 0)"
    using S [of "\<lambda>e. if ep_task e = u then unat (tokens_remaining e) else 0"] d t
    by (auto simp: tok_def)
qed

lemma ep_nexts_spend:
  assumes "n \<le> left h s" and "ep_nexts h n s = (ts, s')"
  shows "left h s = n + left h s' \<and> tok s u = tok s' u + count_list ts u"
  using assms
proof (induction n arbitrary: s ts)
  case (Suc n)
  obtain t s1 where t: "ep_next h 0 0 s = (t, s1)" by fastforce
  obtain ts' where ts': "ep_nexts h n s1 = (ts', s')" and ts: "ts = t # ts'"
    using Suc.prems(2) t by (auto split: prod.splits)
  note N = ep_next_spends [OF _ t]
  have "left h s = Suc (left h s1)" "tok s u = tok s1 u + (if u = t then 1 else 0)"
    using N Suc.prems(1) by simp_all
  with Suc.IH [OF _ ts'] Suc.prems(1) ts show ?case by simp
qed simp

lemma tok_runnable_le_left: "is_runnable h t \<Longrightarrow> tok s t \<le> left h s"
  unfolding tok_def left_def by (intro sum_list_mono) auto

lemma sum_list_unique:
  "distinct (map g xs) \<Longrightarrow> x \<in> set xs \<Longrightarrow> sum_list (map (\<lambda>y. if g y = g x then f y else 0) xs) = (f x :: nat)"
proof (induction xs)
  case (Cons a xs)
  show ?case
  proof (cases "x = a")
    case True
    then have "\<forall>y \<in> set xs. g y \<noteq> g x" using Cons.prems(1) by (auto simp: image_iff)
    then have "sum_list (map (\<lambda>y. if g y = g x then f y else 0) xs) = 0" by simp
    then show ?thesis using True by simp
  next
    case False
    then have "g a \<noteq> g x" using Cons.prems by auto
    then show ?thesis using Cons False by simp
  qed
qed simp

lemma map_pair_cong: "map (\<lambda>x. (f x, g x)) xs = map (\<lambda>y. (f' y, g' y)) ys \<Longrightarrow>
    map (\<lambda>x. F (f x) (g x)) xs = map (\<lambda>y. F (f' y) (g' y)) ys"
  by (drule arg_cong [of _ _ "map (\<lambda>(a, b). F a b)"]) (simp add: comp_def)

lemma tok_assigned:
  assumes n: "length (ep_queue s) < 2 ^ 40" and pos: "0 < ep_W h s"
    and d: "distinct (ep_tasks s)" and e: "e \<in> set (ep_queue s)"
  shows "tok (assign_tokens h s) (ep_task e) = ep_share h s e"
  unfolding tok_def map_pair_cong [OF assign_tokens_shares [OF n pos],
      of "\<lambda>t k. if t = ep_task e then k else 0"]
  using d e unfolding ep_tasks_def by (rule sum_list_unique)

lemma left_assigned:
  assumes n: "length (ep_queue s) < 2 ^ 40" and pos: "0 < ep_W h s"
  shows "left h (assign_tokens h s) = sum_list (map (ep_share h s) (ep_queue s))"
  unfolding left_def map_pair_cong [OF assign_tokens_shares [OF n pos],
      of "\<lambda>t k. if is_runnable h t then k else 0"]
  by (intro arg_cong [of _ _ sum_list] map_cong refl) (simp add: ep_share_def competes_def)

lemma left_0: "left h s = 0 \<Longrightarrow> \<forall>e \<in> set (ep_queue s). \<not> has_tokens h e"
proof
  fix e
  assume "left h s = 0" and e: "e \<in> set (ep_queue s)"
  moreover have "(if is_runnable h (ep_task e) then unat (tokens_remaining e) else 0) \<le> left h s"
    unfolding left_def using e by (intro member_le_sum_list) auto
  ultimately show "\<not> has_tokens h e" by (auto simp: has_tokens_def word_less_nat_alt)
qed

lemma ep_nexts_exhausted:
  assumes "\<forall>e \<in> set (ep_queue s). \<not> has_tokens h e"
    and "\<exists>e \<in> set (ep_queue (assign_tokens h s)). has_tokens h e" and "0 < n"
  shows "ep_nexts h n s = ep_nexts h n (assign_tokens h s)"
proof -
  obtain t s2 where t: "try_next h (assign_tokens h s) = (Some t, s2)"
    using try_next_Some [OF assms(2)] by blast
  have "try_next h s = (None, s)" using assms(1) by (cases rule: try_next_cases [of s h]) auto
  then have "ep_next h 0 0 s = ep_next h 0 0 (assign_tokens h s)" using t by (simp add: ep_next_def)
  then show ?thesis using assms(3) by (cases n) simp_all
qed

text \<open>
  C24: Once every runnable task has spent its tokens, the next epoch is exactly proportional: the
  successive picks of that epoch select every queued task precisely
  \<open>max W 100 * (priority + 1) div W\<close> times, where \<open>W\<close> is the sum of \<open>priority + 1\<close> over the
  runnable tasks, blocked tasks are not selected at all, and the epoch then ends with all tokens spent.
  The bound on the length keeps the 64-bit arithmetic of \<open>assign_tokens\<close> from overflowing.
\<close>

theorem epoch_proportional_share:
  assumes n: "length (ep_queue s) < 2 ^ 40" and d: "distinct (ep_tasks s)"
    and spent: "\<forall>e \<in> set (ep_queue s). \<not> has_tokens h e"
    and c: "e0 \<in> set (ep_queue s)" "competes h s e0"
  shows "\<exists>ts s'. ep_nexts h (sum_list (map (ep_share h s) (ep_queue s))) s = (ts, s') \<and>
      (\<forall>e \<in> set (ep_queue s). count_list ts (ep_task e) = ep_share h s e) \<and>
      (\<forall>e \<in> set (ep_queue s'). \<not> has_tokens h e)"
proof -
  note pos = competes_W_pos [OF c]
  let ?N = "sum_list (map (ep_share h s) (ep_queue s))"
  note L = left_assigned [OF n pos]
  have "ep_share h s e0 \<le> ?N" using c(1) by (intro member_le_sum_list) auto
  then have N: "0 < ?N" using ep_share_pos [OF c] by simp
  obtain ts s' where ts: "ep_nexts h ?N (assign_tokens h s) = (ts, s')" by fastforce
  have eq: "ep_nexts h ?N s = (ts, s')"
    using ep_nexts_exhausted [OF spent competes_gets_tokens [OF n c] N] ts by simp
  note S = ep_nexts_spend [OF _ ts, unfolded L, OF order_refl]
  have l0: "left h s' = 0" using S by simp
  have "count_list ts (ep_task e) = ep_share h s e" if e: "e \<in> set (ep_queue s)" for e
  proof (cases "is_runnable h (ep_task e)")
    case True
    then have "tok s' (ep_task e) = 0" using tok_runnable_le_left [OF True, of s'] l0 by simp
    then show ?thesis using S [of "ep_task e"] tok_assigned [OF n pos d e] by simp
  next
    case False
    then have "ep_share h s e = 0" by (simp add: ep_share_def competes_def)
    then show ?thesis using S [of "ep_task e"] tok_assigned [OF n pos d e] by simp
  qed
  with eq left_0 [OF l0] show ?thesis by blast
qed

definition ep_ex :: EpochScheduler where
  "ep_ex = \<lparr> ep_idle_task = 9,
     ep_queue = [\<lparr> ep_task = 2, ep_priority = 0, tokens_remaining = 0 \<rparr>,
                 \<lparr> ep_task = 3, ep_priority = 3, tokens_remaining = 0 \<rparr>] \<rparr>"

definition ep_ex_heap :: heap where
  "ep_ex_heap = (\<lambda>i. Task_new i ''ep'')"

theorem epoch_proportional_share_witness:
  "map (ep_share ep_ex_heap ep_ex) (ep_queue ep_ex) = [20, 80] \<and>
   (\<exists>ts s'. ep_nexts ep_ex_heap (sum_list (map (ep_share ep_ex_heap ep_ex) (ep_queue ep_ex))) ep_ex = (ts, s') \<and>
      (\<forall>e \<in> set (ep_queue ep_ex). count_list ts (ep_task e) = ep_share ep_ex_heap ep_ex e) \<and>
      (\<forall>e \<in> set (ep_queue s'). \<not> has_tokens ep_ex_heap e))"
proof
  show "map (ep_share ep_ex_heap ep_ex) (ep_queue ep_ex) = [20, 80]"
    by (simp add: ep_share_def ep_W_def ep_ex_def ep_ex_heap_def competes_def task_eq_def is_runnable_def
        Task_new_def max_def)
next
  let ?e = "\<lparr> ep_task = 2, ep_priority = 0, tokens_remaining = 0 \<rparr>"
  show "\<exists>ts s'. ep_nexts ep_ex_heap (sum_list (map (ep_share ep_ex_heap ep_ex) (ep_queue ep_ex))) ep_ex = (ts, s') \<and>
      (\<forall>e \<in> set (ep_queue ep_ex). count_list ts (ep_task e) = ep_share ep_ex_heap ep_ex e) \<and>
      (\<forall>e \<in> set (ep_queue s'). \<not> has_tokens ep_ex_heap e)"
    by (rule epoch_proportional_share [of ep_ex ep_ex_heap ?e])
      (simp_all add: ep_ex_def ep_ex_heap_def ep_tasks_def has_tokens_def competes_def task_eq_def
        is_runnable_def Task_new_def)
qed

section \<open>Priorities\<close>

lemma find_position_update:
  "position P xs = Some i \<Longrightarrow> P (f (xs ! i)) \<Longrightarrow> List.find P (xs[i := f (xs ! i)]) = Some (f (xs ! i))"
  by (induction xs arbitrary: i) (auto split: if_splits)

lemma find_update_other:
  "i < length xs \<Longrightarrow> \<not> P (xs ! i) \<Longrightarrow> \<not> P y \<Longrightarrow> List.find P (xs[i := y]) = List.find P xs"
  by (induction xs arbitrary: i) (auto split: nat.splits)

text \<open>Setting a priority, capped at 40, and reading it back; the frame of the other tasks.\<close>

lemma ep_set_get:
  assumes "ep_set_priority h t p s = (ok, s')"
  shows "(ok \<longleftrightarrow> (\<exists>u \<in> set (ep_tasks s). task_eq h u t)) \<and>
    (ok \<longrightarrow> ep_get_priority h t s' = Some (min p 40)) \<and>
    (\<forall>u. \<not> task_eq h u t \<longrightarrow> ep_get_priority h u s' = ep_get_priority h u s) \<and>
    map tokens_remaining (ep_queue s') = map tokens_remaining (ep_queue s)"
proof (cases "position (\<lambda>e. task_eq h (ep_task e) t) (ep_queue s)")
  case None
  then have "\<forall>e \<in> set (ep_queue s). \<not> task_eq h (ep_task e) t" by (simp add: position_None)
  moreover have "\<not> ok" "s' = s" using None assms by (simp_all add: ep_set_priority_def)
  ultimately show ?thesis by (auto simp: ep_tasks_def)
next
  case (Some i)
  then have i: "i < length (ep_queue s)" "task_eq h (ep_task (ep_queue s ! i)) t" by (simp_all add: position_Some)
  have s': "ok" "s' = s\<lparr> ep_queue := (ep_queue s)[i := (ep_queue s ! i)\<lparr> ep_priority := min p 40 \<rparr>] \<rparr>"
    using Some assms by (simp_all add: ep_set_priority_def Let_def MAX_PRIORITY_def)
  have "map tokens_remaining (ep_queue s') = map tokens_remaining (ep_queue s)"
    using i(1) by (intro nth_equalityI) (auto simp: s' nth_list_update)
  moreover have "\<exists>u \<in> set (ep_tasks s). task_eq h u t" using i by (auto simp: ep_tasks_def)
  moreover have "ep_get_priority h t s' = Some (min p 40)"
    using find_position_update [OF Some, of "\<lambda>e. e\<lparr> ep_priority := min p 40 \<rparr>"] i(2)
    by (simp add: ep_get_priority_def s')
  moreover have "ep_get_priority h u s' = ep_get_priority h u s" if "\<not> task_eq h u t" for u
  proof -
    have "\<not> task_eq h (ep_task (ep_queue s ! i)) u" using that i(2) by (simp add: task_eq_def)
    then show ?thesis unfolding ep_get_priority_def s' by (simp add: find_update_other [OF i(1)])
  qed
  ultimately show ?thesis using s'(1) by simp
qed

end
