(* ===== verification/Sched_Priority.thy ===== *)
theory Sched_Priority
  imports Task_Scheduler "HOL-Library.Log_Nat"
begin

text \<open>
  The priority policy of \<open>kernel/scheduler_priority/src/lib.rs\<close>: a \<open>BinaryHeap\<close> ordered by priority
  and, among equal priorities, by the time of the last run.  The standard library's heap is
  modelled as the vector it keeps, with \<open>sift_up\<close>, \<open>sift_down\<close> and the rebuilding that \<open>extend\<close>
  and \<open>retain\<close> perform; what the policy relies on is that these only permute the elements.
\<close>

section \<open>The standard library's binary heap\<close>

definition swap :: "nat \<Rightarrow> nat \<Rightarrow> 'a list \<Rightarrow> 'a list" where
  "swap i j xs = xs[i := xs ! j, j := xs ! i]"

function sift_up :: "('a \<Rightarrow> 'a \<Rightarrow> bool) \<Rightarrow> nat \<Rightarrow> 'a list \<Rightarrow> 'a list" where
  "sift_up le pos xs =
     (if pos = 0 then xs
      else let parent = (pos - 1) div 2
           in if le (xs ! pos) (xs ! parent) then xs else sift_up le parent (swap pos parent xs))"
  by pat_completeness auto
termination by (relation "measure (\<lambda>(le, pos, xs). pos)") auto

function sift_down :: "('a \<Rightarrow> 'a \<Rightarrow> bool) \<Rightarrow> nat \<Rightarrow> 'a list \<Rightarrow> 'a list" where
  "sift_down le pos xs =
     (let child = 2 * pos + 1
      in if child + 1 < length xs
         then let c = (if le (xs ! child) (xs ! (child + 1)) then child + 1 else child)
              in if le (xs ! c) (xs ! pos) then xs else sift_down le c (swap pos c xs)
         else if child + 1 = length xs \<and> \<not> le (xs ! child) (xs ! pos) then swap pos child xs
         else xs)"
  by pat_completeness auto
termination by (relation "measure (\<lambda>(le, pos, xs). length xs - pos)") (auto simp: swap_def Let_def split: if_splits)

declare sift_up.simps [simp del] sift_down.simps [simp del]

definition bh_push :: "('a \<Rightarrow> 'a \<Rightarrow> bool) \<Rightarrow> 'a \<Rightarrow> 'a list \<Rightarrow> 'a list" where
  "bh_push le x q = sift_up le (length q) (q @ [x])"

definition bh_rebuild :: "('a \<Rightarrow> 'a \<Rightarrow> bool) \<Rightarrow> 'a list \<Rightarrow> 'a list" where
  "bh_rebuild le q = fold (sift_down le) (rev [0 ..< length q div 2]) q"

definition bh_rebuild_tail :: "('a \<Rightarrow> 'a \<Rightarrow> bool) \<Rightarrow> nat \<Rightarrow> 'a list \<Rightarrow> 'a list" where
  "bh_rebuild_tail le start q =
     (let tail_len = length q - start;
          better_to_rebuild =
            (if start < tail_len then True
             else if length q \<le> 2048 then 2 * length q < tail_len * (floorlog 2 start - 1)
             else 2 * length q < tail_len * 11)
      in if start = length q then q
         else if better_to_rebuild then bh_rebuild le q
         else fold (sift_up le) [start ..< length q] q)"

definition bh_extend :: "('a \<Rightarrow> 'a \<Rightarrow> bool) \<Rightarrow> 'a list \<Rightarrow> 'a list \<Rightarrow> 'a list" where
  "bh_extend le xs q = bh_rebuild_tail le (length q) (q @ xs)"

definition bh_retain :: "('a \<Rightarrow> 'a \<Rightarrow> bool) \<Rightarrow> ('a \<Rightarrow> bool) \<Rightarrow> 'a list \<Rightarrow> 'a list" where
  "bh_retain le P q =
     (let q' = filter P q
      in case position (\<lambda>x. \<not> P x) q of None \<Rightarrow> q' | Some first_removed \<Rightarrow> bh_rebuild_tail le first_removed q')"

lemma mset_swap2 [simp]: "i < length xs \<Longrightarrow> j < length xs \<Longrightarrow> mset (swap i j xs) = mset xs"
  by (simp add: swap_def mset_swap)

lemma length_swap [simp]: "length (swap i j xs) = length xs"
  by (simp add: swap_def)

lemma mset_sift_up: "pos < length xs \<Longrightarrow> mset (sift_up le pos xs) = mset xs"
proof (induction le pos xs rule: sift_up.induct)
  case (1 le pos xs)
  have "(pos - 1) div 2 < length xs" using "1.prems" by simp
  then show ?case using 1 by (subst sift_up.simps) (auto simp: Let_def)
qed

lemma mset_sift_down: "pos < length xs \<Longrightarrow> mset (sift_down le pos xs) = mset xs"
proof (induction le pos xs rule: sift_down.induct)
  case (1 le pos xs)
  show ?case using 1 by (subst sift_down.simps) (auto simp: Let_def)
qed

lemma mset_fold_permute:
  "(\<And>n xs. n \<in> set ns \<Longrightarrow> length xs = length q \<Longrightarrow> mset (f n xs) = mset xs) \<Longrightarrow> mset (fold f ns q) = mset q"
proof (induction ns arbitrary: q)
  case (Cons n ns)
  have "mset (f n q) = mset q" using Cons.prems by simp
  moreover from this have "length (f n q) = length q" by (rule mset_eq_length)
  ultimately show ?case using Cons.IH [of "f n q"] Cons.prems by simp
qed simp

lemma mset_bh_rebuild_tail: "mset (bh_rebuild_tail le start q) = mset q"
  by (auto simp: bh_rebuild_tail_def bh_rebuild_def Let_def
      intro!: mset_fold_permute mset_sift_down mset_sift_up)

lemma mset_bh [simp]:
  "mset (bh_push le x q) = add_mset x (mset q)"
  "mset (bh_extend le xs q) = mset q + mset xs"
  "mset (bh_retain le P q) = filter_mset P (mset q)"
  by (auto simp: bh_push_def bh_extend_def bh_retain_def Let_def mset_bh_rebuild_tail mset_sift_up
      split: option.splits)

lemma set_length_bh [simp]:
  "set (bh_push le x q) = insert x (set q)"
  "set (bh_extend le xs q) = set q \<union> set xs"
  "set (bh_retain le P q) = {x \<in> set q. P x}"
  "length (bh_push le x q) = Suc (length q)"
  "length (bh_extend le xs q) = length q + length xs"
  "length (bh_retain le P q) = length (filter P q)"
  by (simp_all flip: set_mset_mset size_mset)

section \<open>State and operations\<close>

definition PRIO_DEFAULT :: u8 where "PRIO_DEFAULT = 0"

record PriorityTaskRef =
  pt_task :: taskref
  pt_priority :: u8
  last_ran :: u64

record PriorityScheduler =
  pr_idle_task :: taskref
  pr_queue :: "PriorityTaskRef list"

definition PriorityTaskRef_new :: "taskref \<Rightarrow> u8 \<Rightarrow> PriorityTaskRef" where
  "PriorityTaskRef_new task prio = \<lparr> pt_task = task, pt_priority = prio, last_ran = 0 \<rparr>"

definition pr_le :: "PriorityTaskRef \<Rightarrow> PriorityTaskRef \<Rightarrow> bool" where
  "pr_le a b \<longleftrightarrow>
     (if pt_priority a = pt_priority b then last_ran b \<le> last_ran a else pt_priority a \<le> pt_priority b)"

definition pr_new :: "taskref \<Rightarrow> PriorityScheduler" where
  "pr_new idle = \<lparr> pr_idle_task = idle, pr_queue = [] \<rparr>"

fun max_by :: "('a \<Rightarrow> 'a \<Rightarrow> bool) \<Rightarrow> 'a list \<Rightarrow> 'a option" where
  "max_by le [] = None"
| "max_by le (x # xs) = Some (fold (\<lambda>y b. if le b y then y else b) xs x)"

definition pr_pickable :: "heap \<Rightarrow> nat \<Rightarrow> PriorityTaskRef \<Rightarrow> bool" where
  "pr_pickable h current_id e \<longleftrightarrow> is_runnable h (pt_task e) \<and> task_id (h (pt_task e)) \<noteq> current_id"

definition pr_next :: "heap \<Rightarrow> nat \<Rightarrow> u64 \<Rightarrow> PriorityScheduler \<Rightarrow> taskref \<times> PriorityScheduler" where
  "pr_next h current_id now s =
     (let all_tasks = pr_queue s;
          chosen_index = map_option fst (max_by (\<lambda>a b. pr_le (snd a) (snd b))
            (filter (\<lambda>(_, t). pr_pickable h current_id t) (enumerate 0 all_tasks)));
          (chosen, all_tasks) =
            (case chosen_index of
               Some idx \<Rightarrow>
                 let task = all_tasks ! idx
                 in (pt_task task, swap_remove idx all_tasks @ [task\<lparr> last_ran := now \<rparr>])
             | None \<Rightarrow> (pr_idle_task s, all_tasks))
      in (chosen, s\<lparr> pr_queue := bh_extend pr_le all_tasks [] \<rparr>))"

definition pr_add :: "taskref \<Rightarrow> PriorityScheduler \<Rightarrow> PriorityScheduler" where
  "pr_add task s = s\<lparr> pr_queue := bh_push pr_le (PriorityTaskRef_new task PRIO_DEFAULT) (pr_queue s) \<rparr>"

definition pr_busyness :: "PriorityScheduler \<Rightarrow> nat" where
  "pr_busyness s = length (pr_queue s)"

definition pr_remove :: "heap \<Rightarrow> taskref \<Rightarrow> PriorityScheduler \<Rightarrow> bool \<times> PriorityScheduler" where
  "pr_remove h task s =
     (let old_len = length (pr_queue s);
          q = bh_retain pr_le (\<lambda>t. \<not> task_eq h (pt_task t) task) (pr_queue s)
      in (length q \<noteq> old_len, s\<lparr> pr_queue := q \<rparr>))"

definition pr_drain :: "PriorityScheduler \<Rightarrow> taskref list \<times> PriorityScheduler" where
  "pr_drain s = (map pt_task (pr_queue s), s\<lparr> pr_queue := [] \<rparr>)"

definition pr_tasks :: "PriorityScheduler \<Rightarrow> taskref list" where
  "pr_tasks s = map pt_task (pr_queue s)"

definition pr_set_priority :: "heap \<Rightarrow> taskref \<Rightarrow> u8 \<Rightarrow> PriorityScheduler \<Rightarrow> bool \<times> PriorityScheduler" where
  "pr_set_priority h task prio s =
     (let old_len = length (pr_queue s);
          q = bh_retain pr_le (\<lambda>t. \<not> task_eq h (pt_task t) task) (pr_queue s)
      in if length q \<noteq> old_len
         then (True, s\<lparr> pr_queue := bh_push pr_le \<lparr> pt_task = task, pt_priority = prio, last_ran = 0 \<rparr> q \<rparr>)
         else (False, s\<lparr> pr_queue := q \<rparr>))"

definition pr_get_priority :: "heap \<Rightarrow> taskref \<Rightarrow> PriorityScheduler \<Rightarrow> u8 option" where
  "pr_get_priority h task s =
     map_option pt_priority (List.find (\<lambda>t. task_eq h (pt_task t) task) (pr_queue s))"

section \<open>One pick\<close>

lemma pr_le_trans: "pr_le a b \<Longrightarrow> pr_le b c \<Longrightarrow> pr_le a c"
  by (auto simp: pr_le_def split: if_splits)

lemma pr_le_total: "pr_le a b \<or> pr_le b a"
  by (auto simp: pr_le_def)

lemma fold_max_by:
  assumes trans: "\<And>a b c. le a b \<Longrightarrow> le b c \<Longrightarrow> le a c" and total: "\<And>a b. le a b \<or> le b a"
  shows "fold (\<lambda>y b. if le b y then y else b) xs x \<in> insert x (set xs) \<and>
    (\<forall>y \<in> insert x (set xs). le y (fold (\<lambda>y b. if le b y then y else b) xs x))"
proof (induction xs arbitrary: x)
  case Nil
  then show ?case using total by auto
next
  case (Cons a xs)
  let ?b = "if le x a then a else x"
  have "le x ?b" "le a ?b" using total by auto
  then show ?case using Cons [of ?b] by (auto split: if_splits intro: trans)
qed

lemma max_by_Some:
  assumes "max_by (\<lambda>a b. pr_le (snd a) (snd b)) xs = Some x"
  shows "x \<in> set xs \<and> (\<forall>y \<in> set xs. pr_le (snd y) (snd x))"
proof (cases xs)
  case (Cons z zs)
  have "z' \<in> insert z (set zs) \<and> (\<forall>y \<in> insert z (set zs). pr_le (snd y) (snd z'))"
    if "z' = fold (\<lambda>y b. if pr_le (snd b) (snd y) then y else b) zs z" for z'
    unfolding that by (rule fold_max_by) (auto intro: pr_le_trans simp: pr_le_total)
  from this [of x] show ?thesis using assms Cons by simp
qed (use assms in simp)

lemma max_by_None: "max_by le xs = None \<longleftrightarrow> xs = []"
  by (cases xs) simp_all

lemma in_set_enumerate0: "(i, x) \<in> set (enumerate 0 xs) \<longleftrightarrow> i < length xs \<and> x = xs ! i"
  by (auto simp: in_set_enumerate_eq)

lemma pr_next_cases:
  obtains (none) "\<forall>e \<in> set (pr_queue s). \<not> pr_pickable h cur e"
      "fst (pr_next h cur now s) = pr_idle_task s"
      "mset (pr_queue (snd (pr_next h cur now s))) = mset (pr_queue s)"
  | (some) e where "e \<in> set (pr_queue s)" "pr_pickable h cur e"
      "\<forall>f \<in> set (pr_queue s). pr_pickable h cur f \<longrightarrow> pr_le f e"
      "fst (pr_next h cur now s) = pt_task e"
      "mset (pr_queue (snd (pr_next h cur now s))) = add_mset (e\<lparr> last_ran := now \<rparr>) (mset (pr_queue s) - {# e #})"
proof -
  let ?c = "filter (\<lambda>(_, t). pr_pickable h cur t) (enumerate 0 (pr_queue s))"
  let ?m = "max_by (\<lambda>a b. pr_le (snd a) (snd b)) ?c"
  show ?thesis
  proof (cases ?m)
    case None
    have "?c = []" using None by (simp only: max_by_None)
    then have "\<forall>p \<in> set (enumerate 0 (pr_queue s)). \<not> pr_pickable h cur (snd p)"
      by (auto simp: filter_empty_conv)
    then have "\<forall>e \<in> set (pr_queue s). \<not> pr_pickable h cur e"
      by (metis in_set_enumerate0 in_set_conv_nth snd_conv)
    then show ?thesis by (rule none) (use None in \<open>simp_all add: pr_next_def\<close>)
  next
    case (Some p)
    obtain i e where p: "p = (i, e)" by (cases p)
    have M: "(i, e) \<in> set ?c" "\<forall>y \<in> set ?c. pr_le (snd y) e"
      using max_by_Some [OF Some] unfolding p by auto
    have i: "i < length (pr_queue s)" and e: "e = pr_queue s ! i" and pick: "pr_pickable h cur e"
      using M(1) by (auto simp: in_set_enumerate0)
    have best: "pr_le f e" if f: "f \<in> set (pr_queue s)" "pr_pickable h cur f" for f
    proof -
      obtain j where "j < length (pr_queue s)" "pr_queue s ! j = f" using f(1) by (auto simp: in_set_conv_nth)
      then have "(j, f) \<in> set ?c" using f(2) by (simp add: in_set_enumerate0)
      then show ?thesis using M(2) by force
    qed
    have n: "pr_next h cur now s = (pt_task e,
        s\<lparr> pr_queue := bh_extend pr_le (swap_remove i (pr_queue s) @ [e\<lparr> last_ran := now \<rparr>]) [] \<rparr>)"
      using Some by (simp add: pr_next_def p e Let_def)
    show ?thesis
      by (rule some [of e]) (use i e pick best in \<open>simp_all add: n mset_swap_remove [OF i]\<close>)
  qed
qed

lemma pr_next_idle [simp]: "pr_idle_task (snd (pr_next h cur now s)) = pr_idle_task s"
  by (simp add: pr_next_def Let_def split: prod.splits)

lemma mset_pr_tasks: "mset (pr_tasks s) = image_mset pt_task (mset (pr_queue s))"
  by (simp add: pr_tasks_def)

interpretation pr: task_scheduler pr_next pr_add pr_busyness pr_remove pr_drain pr_tasks pr_idle_task
proof
  fix h cur now and s :: PriorityScheduler and t u
  show "mset (pr_tasks (pr_add t s)) = add_mset t (mset (pr_tasks s))"
    by (simp add: mset_pr_tasks pr_add_def PriorityTaskRef_new_def)
  show "pr_busyness s = length (pr_tasks s)" by (simp add: pr_busyness_def pr_tasks_def)
  show "fst (pr_remove h t s) \<longleftrightarrow> (\<exists>u \<in> set (pr_tasks s). task_eq h u t)"
    by (simp add: pr_remove_def pr_tasks_def Let_def length_filter_neq)
  show "mset (pr_tasks (snd (pr_remove h t s))) = filter_mset (\<lambda>u. \<not> task_eq h u t) (mset (pr_tasks s))"
    by (simp add: pr_remove_def mset_pr_tasks Let_def filter_mset_image_mset)
  show "mset (fst (pr_drain s)) = mset (pr_tasks s)" by (simp add: pr_drain_def pr_tasks_def)
  show "pr_tasks (snd (pr_drain s)) = []" by (simp add: pr_drain_def pr_tasks_def)
  show "mset (pr_tasks (snd (pr_next h cur now s))) = mset (pr_tasks s)"
  proof (cases rule: pr_next_cases [of s h cur now])
    case (some e)
    then have "mset (pr_queue s) = add_mset e (mset (pr_queue s) - {# e #})" by simp
    then show ?thesis unfolding mset_pr_tasks some(5)
      by (metis (no_types, lifting) PriorityTaskRef.select_convs(1) PriorityTaskRef.surjective
          PriorityTaskRef.update_convs(3) image_mset_add_mset)
  qed (simp add: mset_pr_tasks)
  show "fst (pr_next h cur now s) = pr_idle_task s \<or>
    (fst (pr_next h cur now s) \<in> set (pr_tasks s) \<and> is_runnable h (fst (pr_next h cur now s)))"
    by (cases rule: pr_next_cases [of s h cur now]) (auto simp: pr_tasks_def pr_pickable_def)
  show "u \<in> set (pr_tasks s) \<Longrightarrow> is_runnable h u \<Longrightarrow> task_id (h u) \<noteq> cur \<Longrightarrow>
      \<not> task_eq h u (pr_idle_task s) \<Longrightarrow> length (pr_tasks s) < 2 ^ 40 \<Longrightarrow>
      fst (pr_next h cur now s) \<in> set (pr_tasks s) \<and> is_runnable h (fst (pr_next h cur now s))"
    by (cases rule: pr_next_cases [of s h cur now]) (auto simp: pr_tasks_def pr_pickable_def)
qed

text \<open>
  C25: The priority policy runs the best task.  If some queued task other than the current one is
  runnable, \<open>next\<close> returns a runnable one such that no other candidate has a higher priority,
  or the same priority and an older last run; its entry alone changes, to record the
  present time.  Otherwise the idle task is returned and the entries stay as they are.
\<close>

theorem priority_next_best:
  "(\<exists>e \<in> set (pr_queue s). pr_pickable h cur e \<and> fst (pr_next h cur now s) = pt_task e \<and>
      (\<forall>f \<in> set (pr_queue s). is_runnable h (pt_task f) \<and> task_id (h (pt_task f)) \<noteq> cur \<longrightarrow>
         pt_priority f < pt_priority e \<or> pt_priority f = pt_priority e \<and> last_ran e \<le> last_ran f) \<and>
      mset (pr_queue (snd (pr_next h cur now s))) =
        mset (pr_queue s) - {# e #} + {# e\<lparr> last_ran := now \<rparr> #}) \<or>
   (\<forall>e \<in> set (pr_queue s). \<not> pr_pickable h cur e) \<and> fst (pr_next h cur now s) = pr_idle_task s \<and>
      mset (pr_queue (snd (pr_next h cur now s))) = mset (pr_queue s)"
proof (cases rule: pr_next_cases [of s h cur now])
  case (some e)
  have "pt_priority f < pt_priority e \<or> pt_priority f = pt_priority e \<and> last_ran e \<le> last_ran f"
    if "f \<in> set (pr_queue s)" "is_runnable h (pt_task f)" "task_id (h (pt_task f)) \<noteq> cur" for f
    using some(3) that by (auto simp: pr_pickable_def pr_le_def split: if_splits)
  with some show ?thesis by (intro disjI1 bexI [of _ e]) simp_all
qed simp

definition pr_ex :: PriorityScheduler where
  "pr_ex = \<lparr> pr_idle_task = 0,
     pr_queue = [\<lparr> pt_task = 2, pt_priority = 5, last_ran = 3 \<rparr>, \<lparr> pt_task = 3, pt_priority = 5, last_ran = 4 \<rparr>] \<rparr>"

definition pr_ex_heap :: heap where
  "pr_ex_heap = (\<lambda>i. Task_new i ''pr'')"

theorem priority_next_best_witness: "fst (pr_next pr_ex_heap 9 10 pr_ex) = 2"
  using priority_next_best [of pr_ex pr_ex_heap 9 10]
  by (auto simp: pr_ex_def pr_ex_heap_def pr_pickable_def is_runnable_def Task_new_def)

section \<open>No starvation within the highest priority\<close>

primrec pr_run :: "(heap \<times> nat \<times> u64) list \<Rightarrow> PriorityScheduler \<Rightarrow> taskref list" where
  "pr_run [] s = []"
| "pr_run (x # xs) s = (case x of (h, cur, now) \<Rightarrow>
     fst (pr_next h cur now s) # pr_run xs (snd (pr_next h cur now s)))"

definition ahead :: "PriorityTaskRef \<Rightarrow> PriorityTaskRef multiset \<Rightarrow> nat" where
  "ahead e q = size (filter_mset (\<lambda>f. pt_priority f = pt_priority e \<and> last_ran f \<le> last_ran e) q)"

lemma ahead_move:
  assumes "f \<in># q" "pt_priority f = pt_priority e" "last_ran f \<le> last_ran e" "last_ran e < now"
  shows "ahead e q = Suc (ahead e (add_mset (f\<lparr> last_ran := now \<rparr>) (q - {# f #})))"
proof -
  obtain q' where q': "q = add_mset f q'" using assms(1) by (metis mset_add)
  show ?thesis using assms by (simp add: q' ahead_def)
qed

lemma pr_run_picks:
  assumes "e \<in> set (pr_queue s)" and "\<forall>f \<in> set (pr_queue s). pt_priority f \<le> pt_priority e"
    and "\<forall>f \<in> set (pr_queue s). \<forall>x \<in> set es. last_ran f < snd (snd x)"
    and "sorted_wrt (<) (map (snd \<circ> snd) es)"
    and "\<forall>(h, cur, now) \<in> set es. pr_pickable h cur e"
    and "ahead e (mset (pr_queue s)) \<le> length es"
  shows "pt_task e \<in> set (pr_run es s)"
  using assms
proof (induction es arbitrary: s)
  case Nil
  have "e \<in># filter_mset (\<lambda>f. pt_priority f = pt_priority e \<and> last_ran f \<le> last_ran e) (mset (pr_queue s))"
    using Nil.prems(1) by simp
  then have "ahead e (mset (pr_queue s)) \<noteq> 0" by (auto simp: ahead_def)
  then show ?case using Nil.prems(6) by simp
next
  case (Cons x es)
  obtain h cur now where x: "x = (h, cur, now)" by (cases x)
  have pick: "pr_pickable h cur e" using Cons.prems(5) x by simp
  show ?case
  proof (cases rule: pr_next_cases [of s h cur now])
    case none
    then show ?thesis using pick Cons.prems(1) by simp
  next
    case (some f)
    let ?s = "snd (pr_next h cur now s)" and ?f = "f\<lparr> last_ran := now \<rparr>"
    show ?thesis
    proof (cases "f = e")
      case True
      then show ?thesis using some x by simp
    next
      case False
      have now: "last_ran e < now" using Cons.prems(1,3) x by simp
      have "pr_le e f" using some(3) pick Cons.prems(1) by blast
      then have f: "pt_priority f = pt_priority e" "last_ran f \<le> last_ran e"
        using Cons.prems(2) some(1) by (auto simp: pr_le_def split: if_splits)
      have q: "set (pr_queue ?s) = insert ?f (set_mset (mset (pr_queue s) - {# f #}))"
        using some(5) by (metis set_mset_add_mset_insert set_mset_mset)
      have sub: "set (pr_queue ?s) \<subseteq> insert ?f (set (pr_queue s))"
        unfolding q by (auto dest: in_diffD)
      have "e \<in># mset (pr_queue s) - {# f #}" using Cons.prems(1) False
        by (simp add: in_diff_count)
      then have e: "e \<in> set (pr_queue ?s)" using q by simp
      have "pt_task e \<in> set (pr_run es ?s)"
      proof (rule Cons.IH [OF e])
        show "\<forall>g \<in> set (pr_queue ?s). pt_priority g \<le> pt_priority e"
        proof
          fix g assume "g \<in> set (pr_queue ?s)"
          then have "g = ?f \<or> g \<in> set (pr_queue s)" using sub by blast
          then show "pt_priority g \<le> pt_priority e" using Cons.prems(2) f(1) by auto
        qed
        show "\<forall>g \<in> set (pr_queue ?s). \<forall>x \<in> set es. last_ran g < snd (snd x)"
        proof (intro ballI)
          fix g y assume "g \<in> set (pr_queue ?s)" and y: "y \<in> set es"
          then have "g = ?f \<or> g \<in> set (pr_queue s)" using sub by blast
          moreover have "now < snd (snd y)" using Cons.prems(4) y x by simp
          ultimately show "last_ran g < snd (snd y)" using Cons.prems(3) y by auto
        qed
        show "sorted_wrt (<) (map (snd \<circ> snd) es)" using Cons.prems(4) by (simp add: comp_def)
        show "\<forall>(h, cur, now) \<in> set es. pr_pickable h cur e" using Cons.prems(5) by simp
        show "ahead e (mset (pr_queue ?s)) \<le> length es"
          unfolding some(5) using ahead_move [of f "mset (pr_queue s)" e now] some(1) f now Cons.prems(6) by simp
      qed
      then show ?thesis by (simp add: x)
    qed
  qed
qed

text \<open>
  C26: No starvation among the tasks of the highest priority.  With a clock that advances between
  picks, a queued task that stays runnable and not current, whose priority no queued task exceeds,
  is returned within as many calls of \<open>next\<close> as there are tasks of its priority.
\<close>

theorem priority_bounded_waiting:
  assumes "e \<in> set (pr_queue s)" and "\<forall>f \<in> set (pr_queue s). pt_priority f \<le> pt_priority e"
    and "\<forall>f \<in> set (pr_queue s). \<forall>x \<in> set es. last_ran f < snd (snd x)"
    and "sorted_wrt (<) (map (snd \<circ> snd) es)"
    and "\<forall>(h, cur, now) \<in> set es. pr_pickable h cur e"
    and "length (filter (\<lambda>f. pt_priority f = pt_priority e) (pr_queue s)) \<le> length es"
  shows "pt_task e \<in> set (pr_run es s)"
proof (rule pr_run_picks [OF assms(1-5)])
  have "ahead e (mset (pr_queue s)) \<le> size (filter_mset (\<lambda>f. pt_priority f = pt_priority e) (mset (pr_queue s)))"
    unfolding ahead_def filter_filter_mset [symmetric] by (intro size_mset_mono multiset_filter_subset)
  also have "\<dots> = length (filter (\<lambda>f. pt_priority f = pt_priority e) (pr_queue s))"
    by (simp flip: size_mset)
  finally show "ahead e (mset (pr_queue s)) \<le> length es" using assms(6) by simp
qed

theorem priority_bounded_waiting_witness: "3 \<in> set (pr_run [(pr_ex_heap, 9, 10), (pr_ex_heap, 2, 11)] pr_ex)"
  using priority_bounded_waiting [of "\<lparr> pt_task = 3, pt_priority = 5, last_ran = 4 \<rparr>" pr_ex
      "[(pr_ex_heap, 9, 10), (pr_ex_heap, 2, 11)]"]
  by (simp add: pr_ex_def pr_ex_heap_def pr_pickable_def is_runnable_def Task_new_def)

section \<open>Priorities\<close>

lemma find_unique:
  "x \<in> set xs \<Longrightarrow> P x \<Longrightarrow> (\<forall>y \<in> set xs. P y \<longrightarrow> y = x) \<Longrightarrow> List.find P xs = Some x"
proof (cases "List.find P xs")
  case (Some y)
  assume "\<forall>y \<in> set xs. P y \<longrightarrow> y = x"
  then show ?thesis using Some find_SomeD [OF Some] by simp
next
  case None
  assume "x \<in> set xs" "P x"
  then show ?thesis using None by (simp add: find_None_iff)
qed

lemma find_same_matches:
  assumes "{y \<in> set xs. P y} = {y \<in> set ys. P y}" and "\<forall>x \<in> set xs. \<forall>y \<in> set xs. P x \<longrightarrow> P y \<longrightarrow> x = y"
  shows "List.find P xs = List.find P ys"
proof (cases "List.find P xs")
  case None
  then have "\<forall>y \<in> set xs. \<not> P y" by (simp add: find_None_iff)
  then have "\<forall>y \<in> set ys. \<not> P y" using assms(1) by blast
  then show ?thesis using None by (metis find_None_iff)
next
  case (Some x)
  then have x: "x \<in> set xs" "P x" using find_SomeD by metis+
  then have "x \<in> set ys" "\<forall>y \<in> set ys. P y \<longrightarrow> y = x" using assms by blast+
  then show ?thesis using Some x(2) find_unique by metis
qed

lemma ids_distinct_unique:
  assumes "ids_distinct h (map f q)" and "x \<in> set q" "y \<in> set q" and "task_eq h (f x) (f y)"
  shows "x = y"
proof -
  have "distinct (map (\<lambda>e. task_id (h (f e))) q)" using assms(1) by (simp add: ids_distinct_def comp_def)
  then have "inj_on (\<lambda>e. task_id (h (f e))) (set q)" by (simp add: distinct_map)
  then show ?thesis using assms(2-4) by (simp add: inj_on_def task_eq_def)
qed

text \<open>
  Setting a priority and reading it back; the re-inserted task counts as never run, so it
  precedes every task of its new priority.
\<close>

lemma pr_set_get:
  assumes "pr_set_priority h t p s = (ok, s')" and d: "ids_distinct h (pr_tasks s)"
  shows "(ok \<longleftrightarrow> (\<exists>u \<in> set (pr_tasks s). task_eq h u t)) \<and>
    (ok \<longrightarrow> pr_get_priority h t s' = Some p \<and>
       (\<forall>f \<in> set (pr_queue s'). pt_priority f = p \<longrightarrow> pr_le f \<lparr> pt_task = t, pt_priority = p, last_ran = 0 \<rparr>)) \<and>
    (\<forall>u. \<not> task_eq h u t \<longrightarrow> pr_get_priority h u s' = pr_get_priority h u s)"
proof -
  let ?P = "\<lambda>e. \<not> task_eq h (pt_task e) t" and ?n = "\<lparr> pt_task = t, pt_priority = p, last_ran = 0 \<rparr>"
  have ok: "ok \<longleftrightarrow> (\<exists>u \<in> set (pr_tasks s). task_eq h u t)"
    using assms(1) by (auto simp: pr_set_priority_def Let_def pr_tasks_def length_filter_neq split: if_splits)
  have q: "set (pr_queue s') = (if ok then {?n} else {}) \<union> {e \<in> set (pr_queue s). ?P e}"
    using assms(1) by (auto simp: pr_set_priority_def Let_def split: if_splits)
  have "pr_get_priority h t s' = Some p" if ok
  proof -
    have "List.find (\<lambda>e. task_eq h (pt_task e) t) (pr_queue s') = Some ?n"
      by (rule find_unique) (use that q in \<open>auto simp: task_eq_def\<close>)
    then show ?thesis by (simp add: pr_get_priority_def)
  qed
  moreover have "pr_get_priority h u s' = pr_get_priority h u s" if u: "\<not> task_eq h u t" for u
  proof -
    have "List.find (\<lambda>e. task_eq h (pt_task e) u) (pr_queue s) = List.find (\<lambda>e. task_eq h (pt_task e) u) (pr_queue s')"
    proof (rule find_same_matches)
      show "{e \<in> set (pr_queue s). task_eq h (pt_task e) u} = {e \<in> set (pr_queue s'). task_eq h (pt_task e) u}"
        unfolding q using u by (auto simp: task_eq_def)
      show "\<forall>x \<in> set (pr_queue s). \<forall>y \<in> set (pr_queue s).
          task_eq h (pt_task x) u \<longrightarrow> task_eq h (pt_task y) u \<longrightarrow> x = y"
        using ids_distinct_unique [OF d [unfolded pr_tasks_def]] by (auto simp: task_eq_def)
    qed
    then show ?thesis by (simp add: pr_get_priority_def)
  qed
  ultimately show ?thesis using ok by (simp add: pr_le_def)
qed

lemma pr_set_absent:
  assumes "\<not> (\<exists>u \<in> set (pr_tasks s). task_eq h u t)"
  shows "pr_set_priority h t p s = (False, s)"
proof -
  have a: "\<forall>e \<in> set (pr_queue s). \<not> task_eq h (pt_task e) t" using assms by (simp add: pr_tasks_def)
  then have "position (\<lambda>e. \<not> \<not> task_eq h (pt_task e) t) (pr_queue s) = None" by (simp add: position_None)
  then have "bh_retain pr_le (\<lambda>e. \<not> task_eq h (pt_task e) t) (pr_queue s) = pr_queue s"
    using a by (simp add: bh_retain_def Let_def)
  then show ?thesis by (simp add: pr_set_priority_def Let_def)
qed

lemma pr_set_ids_distinct:
  assumes d: "ids_distinct h (pr_tasks s)"
  shows "ids_distinct h (pr_tasks (snd (pr_set_priority h t p s)))"
proof (cases "\<exists>u \<in> set (pr_tasks s). task_eq h u t")
  case True
  let ?q = "filter (\<lambda>e. \<not> task_eq h (pt_task e) t) (pr_queue s)"
  have "mset (pr_queue (snd (pr_set_priority h t p s))) =
      mset (\<lparr> pt_task = t, pt_priority = p, last_ran = 0 \<rparr> # ?q)"
    using True by (simp add: pr_set_priority_def Let_def pr_tasks_def length_filter_neq)
  then have "mset (map (\<lambda>e. task_id (h (pt_task e))) (pr_queue (snd (pr_set_priority h t p s)))) =
      mset (task_id (h t) # map (\<lambda>e. task_id (h (pt_task e))) ?q)"
    by simp
  moreover have "distinct (task_id (h t) # map (\<lambda>e. task_id (h (pt_task e))) ?q)"
    using d by (auto simp: ids_distinct_def pr_tasks_def comp_def task_eq_def distinct_map_filter)
  ultimately have "distinct (map (\<lambda>e. task_id (h (pt_task e))) (pr_queue (snd (pr_set_priority h t p s))))"
    using mset_eq_imp_distinct_iff by blast
  then show ?thesis by (simp add: ids_distinct_def pr_tasks_def comp_def)
next
  case False
  then show ?thesis using d by (simp add: pr_set_absent)
qed

end
