(* ===== verification/Scheduler_Registry.thy ===== *)
theory Scheduler_Registry
  imports Sched_Round_Robin Sched_Epoch Sched_Priority
begin

text \<open>
  The system-wide scheduler list of \<open>kernel/task/src/scheduler.rs\<close>.  A \<open>dyn Scheduler\<close> is the
  union of the three policies; an \<open>Arc\<close> to one is an address in a store, because the list
  \<open>SCHEDULERS\<close> and the CPU-local \<open>SCHEDULER\<close> share it.  The operations follow the code's loops over
  the list.
\<close>

section \<open>The trait object\<close>

datatype DynScheduler = DynRR RoundRobinScheduler | DynEP EpochScheduler | DynPR PriorityScheduler

fun dyn_next :: "heap \<Rightarrow> nat \<Rightarrow> u64 \<Rightarrow> DynScheduler \<Rightarrow> taskref \<times> DynScheduler" where
  "dyn_next h cur now (DynRR s) = map_prod (\<lambda>x. x) DynRR (rr_next h cur now s)"
| "dyn_next h cur now (DynEP s) = map_prod (\<lambda>x. x) DynEP (ep_next h cur now s)"
| "dyn_next h cur now (DynPR s) = map_prod (\<lambda>x. x) DynPR (pr_next h cur now s)"

fun dyn_add :: "taskref \<Rightarrow> DynScheduler \<Rightarrow> DynScheduler" where
  "dyn_add t (DynRR s) = DynRR (rr_add t s)"
| "dyn_add t (DynEP s) = DynEP (ep_add t s)"
| "dyn_add t (DynPR s) = DynPR (pr_add t s)"

fun dyn_busyness :: "DynScheduler \<Rightarrow> nat" where
  "dyn_busyness (DynRR s) = rr_busyness s"
| "dyn_busyness (DynEP s) = ep_busyness s"
| "dyn_busyness (DynPR s) = pr_busyness s"

fun dyn_remove :: "heap \<Rightarrow> taskref \<Rightarrow> DynScheduler \<Rightarrow> bool \<times> DynScheduler" where
  "dyn_remove h t (DynRR s) = map_prod (\<lambda>x. x) DynRR (rr_remove h t s)"
| "dyn_remove h t (DynEP s) = map_prod (\<lambda>x. x) DynEP (ep_remove h t s)"
| "dyn_remove h t (DynPR s) = map_prod (\<lambda>x. x) DynPR (pr_remove h t s)"

fun dyn_drain :: "DynScheduler \<Rightarrow> taskref list \<times> DynScheduler" where
  "dyn_drain (DynRR s) = map_prod (\<lambda>x. x) DynRR (rr_drain s)"
| "dyn_drain (DynEP s) = map_prod (\<lambda>x. x) DynEP (ep_drain s)"
| "dyn_drain (DynPR s) = map_prod (\<lambda>x. x) DynPR (pr_drain s)"

fun dyn_tasks :: "DynScheduler \<Rightarrow> taskref list" where
  "dyn_tasks (DynRR s) = rr_tasks s"
| "dyn_tasks (DynEP s) = ep_tasks s"
| "dyn_tasks (DynPR s) = pr_tasks s"

fun dyn_idle :: "DynScheduler \<Rightarrow> taskref" where
  "dyn_idle (DynRR s) = rr_idle_task s"
| "dyn_idle (DynEP s) = ep_idle_task s"
| "dyn_idle (DynPR s) = pr_idle_task s"

text \<open>
  \<open>as_priority_scheduler\<close> followed by a call: \<open>None\<close> when the policy has no priorities.
\<close>

fun dyn_set_priority :: "heap \<Rightarrow> taskref \<Rightarrow> u8 \<Rightarrow> DynScheduler \<Rightarrow> bool option \<times> DynScheduler" where
  "dyn_set_priority h t p (DynRR s) = (None, DynRR s)"
| "dyn_set_priority h t p (DynEP s) = map_prod Some DynEP (ep_set_priority h t p s)"
| "dyn_set_priority h t p (DynPR s) = map_prod Some DynPR (pr_set_priority h t p s)"

fun dyn_get_priority :: "heap \<Rightarrow> taskref \<Rightarrow> DynScheduler \<Rightarrow> u8 option" where
  "dyn_get_priority h t (DynRR s) = None"
| "dyn_get_priority h t (DynEP s) = ep_get_priority h t s"
| "dyn_get_priority h t (DynPR s) = pr_get_priority h t s"

interpretation dyn: task_scheduler dyn_next dyn_add dyn_busyness dyn_remove dyn_drain dyn_tasks dyn_idle
proof
  fix h cur now and s :: DynScheduler and t u
  show "mset (dyn_tasks (dyn_add t s)) = add_mset t (mset (dyn_tasks s))"
    by (cases s) (simp_all add: rr.add_tasks ep.add_tasks pr.add_tasks)
  show "dyn_busyness s = length (dyn_tasks s)"
    by (cases s) (simp_all add: rr.busyness_tasks ep.busyness_tasks pr.busyness_tasks)
  show "fst (dyn_remove h t s) \<longleftrightarrow> (\<exists>u \<in> set (dyn_tasks s). task_eq h u t)"
    by (cases s) (simp_all add: rr.remove_found ep.remove_found pr.remove_found)
  show "ids_distinct h (dyn_tasks s) \<Longrightarrow>
      mset (dyn_tasks (snd (dyn_remove h t s))) = filter_mset (\<lambda>u. \<not> task_eq h u t) (mset (dyn_tasks s))"
    by (cases s) (simp_all add: rr.remove_tasks ep.remove_tasks pr.remove_tasks)
  show "mset (fst (dyn_drain s)) = mset (dyn_tasks s)"
    by (cases s) (simp_all add: rr.drain_all ep.drain_all pr.drain_all)
  show "dyn_tasks (snd (dyn_drain s)) = []"
    by (cases s) (simp_all add: rr.drain_empty ep.drain_empty pr.drain_empty)
  show "mset (dyn_tasks (snd (dyn_next h cur now s))) = mset (dyn_tasks s)"
    by (cases s) (simp_all add: rr.next_tasks ep.next_tasks pr.next_tasks)
  show "fst (dyn_next h cur now s) = dyn_idle s \<or>
    (fst (dyn_next h cur now s) \<in> set (dyn_tasks s) \<and> is_runnable h (fst (dyn_next h cur now s)))"
    by (cases s) (simp_all add: rr.next_runnable ep.next_runnable pr.next_runnable)
  show "u \<in> set (dyn_tasks s) \<Longrightarrow> is_runnable h u \<Longrightarrow> task_id (h u) \<noteq> cur \<Longrightarrow>
      \<not> task_eq h u (dyn_idle s) \<Longrightarrow> length (dyn_tasks s) < 2 ^ 40 \<Longrightarrow>
      fst (dyn_next h cur now s) \<in> set (dyn_tasks s) \<and> is_runnable h (fst (dyn_next h cur now s))"
    by (cases s) (simp_all add: rr.next_progress [of u] ep.next_progress [of u] pr.next_progress [of u])
qed

section \<open>The registry\<close>

record Registry =
  schedulers :: "(nat \<times> nat) list"
  sched_at :: "nat \<Rightarrow> DynScheduler"
  local_sched :: "nat \<Rightarrow> nat option"
  next_arc :: nat

definition upd_sched :: "nat \<Rightarrow> DynScheduler \<Rightarrow> Registry \<Rightarrow> Registry" where
  "upd_sched a s R = R\<lparr> sched_at := (sched_at R)(a := s) \<rparr>"

definition set_policy :: "nat \<Rightarrow> nat \<Rightarrow> DynScheduler \<Rightarrow> Registry \<Rightarrow> Registry" where
  "set_policy current_cpu cpu_id sched0 R =
     (let new = next_arc R;
          R = (upd_sched new sched0 R)\<lparr> next_arc := Suc new \<rparr>;
          R = (case local_sched R current_cpu of
                 None \<Rightarrow> R
               | Some old \<Rightarrow>
                   let locked = schedulers R;
                       locked = (case position (\<lambda>(cpu, _). cpu = cpu_id) locked of
                                   Some i \<Rightarrow> swap_remove i locked
                                 | None \<Rightarrow> locked);
                       (ts, old_sched) = dyn_drain (sched_at R old);
                       R = upd_sched old old_sched R
                   in (upd_sched new (fold dyn_add ts (sched_at R new)) R)\<lparr> schedulers := locked \<rparr>)
      in R\<lparr> schedulers := schedulers R @ [(cpu_id, new)],
            local_sched := (local_sched R)(current_cpu := Some new) \<rparr>)"

fun least_busy :: "(nat \<Rightarrow> DynScheduler) \<Rightarrow> (nat \<times> nat) list \<Rightarrow> nat \<Rightarrow> nat \<Rightarrow> nat option \<Rightarrow> nat option" where
  "least_busy st [] i min_busyness least = least"
| "least_busy st ((_, a) # rest) i min_busyness least =
     (let busyness = dyn_busyness (st a)
      in if busyness < min_busyness then least_busy st rest (Suc i) busyness (Some i)
         else least_busy st rest (Suc i) min_busyness least)"

text \<open>\<open>None\<close> is the panic of \<open>least_busy_index.unwrap()\<close>.\<close>

definition add_task :: "taskref \<Rightarrow> Registry \<Rightarrow> Registry option" where
  "add_task task R =
     (case least_busy (sched_at R) (schedulers R) 0 (2 ^ 64 - 1) None of
        None \<Rightarrow> None
      | Some i \<Rightarrow> let a = snd (schedulers R ! i) in Some (upd_sched a (dyn_add task (sched_at R a)) R))"

definition find_cpu :: "nat \<Rightarrow> Registry \<Rightarrow> nat option" where
  "find_cpu cpu_id R = map_option snd (List.find (\<lambda>(cpu, _). cpu = cpu_id) (schedulers R))"

definition add_task_to :: "nat \<Rightarrow> taskref \<Rightarrow> Registry \<Rightarrow> Registry" where
  "add_task_to cpu_id task R =
     (case find_cpu cpu_id R of
        None \<Rightarrow> R
      | Some a \<Rightarrow> upd_sched a (dyn_add task (sched_at R a)) R)"

definition add_task_to_current :: "nat \<Rightarrow> taskref \<Rightarrow> Registry \<Rightarrow> Registry option" where
  "add_task_to_current current_cpu task R =
     map_option (\<lambda>a. upd_sched a (dyn_add task (sched_at R a)) R) (local_sched R current_cpu)"

fun remove_loop :: "heap \<Rightarrow> taskref \<Rightarrow> (nat \<times> nat) list \<Rightarrow> Registry \<Rightarrow> bool \<times> Registry" where
  "remove_loop h task [] R = (False, R)"
| "remove_loop h task ((_, a) # rest) R =
     (let (removed, s) = dyn_remove h task (sched_at R a); R = upd_sched a s R
      in if removed then (True, R) else remove_loop h task rest R)"

definition remove_task :: "heap \<Rightarrow> taskref \<Rightarrow> Registry \<Rightarrow> bool \<times> Registry" where
  "remove_task h task R = remove_loop h task (schedulers R) R"

definition remove_task_from :: "heap \<Rightarrow> taskref \<Rightarrow> nat \<Rightarrow> Registry \<Rightarrow> bool \<times> Registry" where
  "remove_task_from h task cpu_id R =
     (case find_cpu cpu_id R of
        None \<Rightarrow> (False, R)
      | Some a \<Rightarrow> let (removed, s) = dyn_remove h task (sched_at R a) in (removed, upd_sched a s R))"

definition remove_task_from_current :: "heap \<Rightarrow> nat \<Rightarrow> taskref \<Rightarrow> Registry \<Rightarrow> (bool \<times> Registry) option" where
  "remove_task_from_current h current_cpu task R =
     map_option (\<lambda>a. let (removed, s) = dyn_remove h task (sched_at R a) in (removed, upd_sched a s R))
       (local_sched R current_cpu)"

fun priority_loop :: "heap \<Rightarrow> taskref \<Rightarrow> (nat \<times> nat) list \<Rightarrow> Registry \<Rightarrow> u8 option" where
  "priority_loop h task [] R = None"
| "priority_loop h task ((_, a) # rest) R =
     (case dyn_get_priority h task (sched_at R a) of
        Some p \<Rightarrow> Some p
      | None \<Rightarrow> priority_loop h task rest R)"

definition sched_priority :: "heap \<Rightarrow> taskref \<Rightarrow> Registry \<Rightarrow> u8 option" where
  "sched_priority h task R = priority_loop h task (schedulers R) R"

fun set_priority_loop :: "heap \<Rightarrow> taskref \<Rightarrow> u8 \<Rightarrow> (nat \<times> nat) list \<Rightarrow> Registry \<Rightarrow> bool \<times> Registry" where
  "set_priority_loop h task p [] R = (False, R)"
| "set_priority_loop h task p ((_, a) # rest) R =
     (let (r, s) = dyn_set_priority h task p (sched_at R a); R = upd_sched a s R
      in if r = Some True then (True, R) else set_priority_loop h task p rest R)"

definition sched_set_priority :: "heap \<Rightarrow> taskref \<Rightarrow> u8 \<Rightarrow> Registry \<Rightarrow> bool \<times> Registry" where
  "sched_set_priority h task p R = set_priority_loop h task p (schedulers R) R"

definition sched_busyness :: "nat \<Rightarrow> Registry \<Rightarrow> nat option" where
  "sched_busyness cpu_id R = map_option (\<lambda>a. dyn_busyness (sched_at R a)) (find_cpu cpu_id R)"

definition sched_tasks :: "Registry \<Rightarrow> (nat \<times> taskref list) list" where
  "sched_tasks R = map (\<lambda>(cpu, a). (cpu, dyn_tasks (sched_at R a))) (schedulers R)"

text \<open>
  Priority inheritance: the guard remembers the task and its former priority; dropping it restores
  them.  \<open>None\<close> is the panic when there is no current task.
\<close>

definition inherit_priority ::
  "heap \<Rightarrow> taskref option \<Rightarrow> taskref \<Rightarrow> Registry \<Rightarrow> ((taskref \<times> u8) option \<times> Registry) option" where
  "inherit_priority h current task R =
     (case current of
        None \<Rightarrow> None
      | Some cur \<Rightarrow>
          (case (sched_priority h cur R, sched_priority h task R) of
             (Some current_priority, Some other_priority) \<Rightarrow>
               if current_priority > other_priority
               then Some (Some (task, other_priority), snd (sched_set_priority h task current_priority R))
               else Some (None, R)
           | _ \<Rightarrow> Some (None, R)))"

definition guard_drop :: "heap \<Rightarrow> (taskref \<times> u8) option \<Rightarrow> Registry \<Rightarrow> Registry" where
  "guard_drop h inner R =
     (case inner of None \<Rightarrow> R | Some (task, p) \<Rightarrow> snd (sched_set_priority h task p R))"

section \<open>Well-formedness and the queued tasks\<close>

definition reg_wf :: "Registry \<Rightarrow> bool" where
  "reg_wf R \<longleftrightarrow> distinct (map fst (schedulers R)) \<and> distinct (map snd (schedulers R)) \<and>
     (\<forall>p \<in> set (schedulers R). snd p < next_arc R) \<and>
     (\<forall>c a. local_sched R c = Some a \<longrightarrow> (c, a) \<in> set (schedulers R)) \<and>
     (\<forall>(c, a) \<in> set (schedulers R). local_sched R c = Some a)"

definition all_queued :: "Registry \<Rightarrow> taskref list" where
  "all_queued R = concat (map (\<lambda>p. dyn_tasks (sched_at R (snd p))) (schedulers R))"

lemma upd_sched_simps [simp]:
  "schedulers (upd_sched a s R) = schedulers R"
  "local_sched (upd_sched a s R) = local_sched R"
  "next_arc (upd_sched a s R) = next_arc R"
  "sched_at (upd_sched a s R) = (sched_at R)(a := s)"
  "upd_sched a (sched_at R a) R = R"
  by (simp_all add: upd_sched_def)

lemma reg_wf_local: "reg_wf R \<Longrightarrow> (c, a) \<in> set (schedulers R) \<longleftrightarrow> local_sched R c = Some a"
  unfolding reg_wf_def by blast

lemma reg_wf_upd [simp]: "reg_wf (upd_sched a s R) = reg_wf R"
  by (simp add: reg_wf_def)

lemma ids_distinct_mset: "mset xs = mset ys \<Longrightarrow> ids_distinct h xs = ids_distinct h ys"
  using mset_eq_imp_distinct_iff [of "map (\<lambda>t. task_id (h t)) xs" "map (\<lambda>t. task_id (h t)) ys"]
  by (simp add: ids_distinct_def)

lemma concat_split_unique:
  assumes "distinct (map snd xs)" and "(c, a) \<in> set xs"
  obtains M where "mset (concat (map (\<lambda>p. f (snd p)) xs)) = mset (f a) + mset M"
    and "\<And>s. mset (concat (map (\<lambda>p. (f(a := s)) (snd p)) xs)) = mset s + mset M"
proof -
  obtain ys zs where xs: "xs = ys @ (c, a) # zs" using assms(2) by (metis split_list)
  have n: "a \<notin> snd ` set ys" "a \<notin> snd ` set zs" using assms(1) by (auto simp: xs)
  let ?g = "\<lambda>f. map (\<lambda>p. f (snd p))"
  have E: "?g (f(a := s)) ys = ?g f ys" "?g (f(a := s)) zs = ?g f zs" for s
    using n by (auto intro!: map_cong)
  have "concat (?g (f(a := s)) xs) = concat (?g f ys) @ s @ concat (?g f zs)" for s
    unfolding xs map_append concat_append list.map E by simp
  then show ?thesis by (intro that [of "concat (?g f ys) @ concat (?g f zs)"]) (simp_all only: xs, simp_all)
qed

lemma all_queued_upd:
  assumes "distinct (map snd (schedulers R))" and "(c, a) \<in> set (schedulers R)"
  obtains M where "mset (all_queued R) = mset (dyn_tasks (sched_at R a)) + mset M"
    and "\<And>s. mset (all_queued (upd_sched a s R)) = mset (dyn_tasks s) + mset M"
proof -
  obtain M where M: "mset (concat (map (\<lambda>p. (dyn_tasks \<circ> sched_at R) (snd p)) (schedulers R))) =
      mset ((dyn_tasks \<circ> sched_at R) a) + mset M"
    "\<And>s. mset (concat (map (\<lambda>p. ((dyn_tasks \<circ> sched_at R)(a := s)) (snd p)) (schedulers R))) = mset s + mset M"
    using concat_split_unique [OF assms] by blast
  have "(dyn_tasks \<circ> sched_at R)(a := dyn_tasks s) = dyn_tasks \<circ> (sched_at R)(a := s)" for s by auto
  then show ?thesis using that [of M] M(1) M(2) [of "dyn_tasks _"] by (simp add: all_queued_def)
qed

lemma set_all_queued:
  "t \<in> set (all_queued R) \<longleftrightarrow> (\<exists>(c, a) \<in> set (schedulers R). t \<in> set (dyn_tasks (sched_at R a)))"
  by (force simp: all_queued_def)

section \<open>Adding a task\<close>

lemma least_busy_spec:
  "least_busy st xs i m l = l \<and> (\<forall>p \<in> set xs. m \<le> dyn_busyness (st (snd p))) \<or>
   (\<exists>k < length xs. least_busy st xs i m l = Some (i + k) \<and> dyn_busyness (st (snd (xs ! k))) < m \<and>
     (\<forall>p \<in> set xs. dyn_busyness (st (snd (xs ! k))) \<le> dyn_busyness (st (snd p))))"
proof (induction st xs i m l rule: least_busy.induct)
  case (2 st c a rest i m l)
  let ?b = "dyn_busyness (st a)"
  show ?case
  proof (cases "?b < m")
    case True
    from "2.IH"(1) [OF refl True] show ?thesis
    proof (elim disjE exE conjE, goal_cases)
      case 1
      then show ?case using True by (intro disjI2 exI [of _ 0]) simp
    next
      case (2 k)
      then show ?case using True by (intro disjI2 exI [of _ "Suc k"]) auto
    qed
  next
    case False
    from "2.IH"(2) [OF refl False] show ?thesis
    proof (elim disjE exE conjE, goal_cases)
      case 1
      then show ?case using False by (intro disjI1) simp
    next
      case (2 k)
      then show ?case using False by (intro disjI2 exI [of _ "Suc k"]) auto
    qed
  qed
qed simp

lemma add_task_cases:
  obtains (panic) "\<forall>p \<in> set (schedulers R). 2 ^ 64 - 1 \<le> dyn_busyness (sched_at R (snd p))" "add_task t R = None"
  | (added) c a where "(c, a) \<in> set (schedulers R)"
      "\<forall>p \<in> set (schedulers R). dyn_busyness (sched_at R a) \<le> dyn_busyness (sched_at R (snd p))"
      "add_task t R = Some (upd_sched a (dyn_add t (sched_at R a)) R)"
  using least_busy_spec [of "sched_at R" "schedulers R" 0 "2 ^ 64 - 1" None]
proof (elim disjE exE conjE, goal_cases)
  case 1
  show ?thesis by (rule panic) (use 1 in \<open>simp_all add: add_task_def\<close>)
next
  case (2 k)
  obtain c a where p: "schedulers R ! k = (c, a)" by fastforce
  show ?thesis
    by (rule added [of c a]) (use 2 p nth_mem [OF 2(3)] in \<open>simp_all add: add_task_def Let_def\<close>)
qed

lemma add_task_queued:
  assumes wf: "reg_wf R" and "add_task t R = Some R'"
  shows "mset (all_queued R') = add_mset t (mset (all_queued R))" and "reg_wf R'"
proof -
  obtain c a where a: "(c, a) \<in> set (schedulers R)" and R': "R' = upd_sched a (dyn_add t (sched_at R a)) R"
    using assms(2) by (cases rule: add_task_cases [of R t]) auto
  have "distinct (map snd (schedulers R))" using wf by (simp add: reg_wf_def)
  then obtain M where "mset (all_queued R) = mset (dyn_tasks (sched_at R a)) + mset M"
    "\<And>s. mset (all_queued (upd_sched a s R)) = mset (dyn_tasks s) + mset M"
    using all_queued_upd [OF _ a] by blast
  then show "mset (all_queued R') = add_mset t (mset (all_queued R))" by (simp add: R' dyn.add_tasks)
  show "reg_wf R'" using wf R' by simp
qed

section \<open>Removing a task\<close>

lemma dyn_remove_absent:
  assumes "ids_distinct h (dyn_tasks s)" and "\<not> fst (dyn_remove h t s)"
  shows "mset (dyn_tasks (snd (dyn_remove h t s))) = mset (dyn_tasks s)"
proof -
  have "\<forall>u \<in> set (dyn_tasks s). \<not> task_eq h u t" using assms(2) dyn.remove_found by blast
  then have "filter_mset (\<lambda>u. \<not> task_eq h u t) (mset (dyn_tasks s)) = mset (dyn_tasks s)"
    by (simp add: filter_mset_eq_conv)
  then show ?thesis using dyn.remove_tasks [OF assms(1)] by simp
qed

lemma ids_distinct_sub: "ids_distinct h xs \<Longrightarrow> mset xs = mset ys + mset zs \<Longrightarrow> ids_distinct h ys"
  using ids_distinct_mset [of xs "ys @ zs" h] by (simp add: ids_distinct_def)

lemma ids_distinct_other:
  assumes "ids_distinct h xs" and "mset xs = mset ys + mset zs" and "u \<in> set ys" "task_eq h u t"
  shows "\<forall>v \<in> set zs. \<not> task_eq h v t"
proof -
  have "ids_distinct h (ys @ zs)" using ids_distinct_mset [of xs "ys @ zs" h] assms(1,2) by simp
  then have "(\<lambda>t. task_id (h t)) ` set ys \<inter> (\<lambda>t. task_id (h t)) ` set zs = {}"
    by (simp add: ids_distinct_def)
  then have "task_id (h u) \<notin> (\<lambda>t. task_id (h t)) ` set zs" using assms(3) by blast
  then show ?thesis using assms(4) by (auto simp: task_eq_def image_iff)
qed

lemma remove_loop_queued:
  assumes "distinct (map snd (schedulers R))" and "ids_distinct h (all_queued R)"
    and "set xs \<subseteq> set (schedulers R)"
    and "\<forall>p \<in> set (schedulers R) - set xs. \<forall>u \<in> set (dyn_tasks (sched_at R (snd p))). \<not> task_eq h u t"
    and "remove_loop h t xs R = (ok, R')"
  shows "(ok \<longleftrightarrow> (\<exists>u \<in> set (all_queued R). task_eq h u t)) \<and>
    mset (all_queued R') = filter_mset (\<lambda>u. \<not> task_eq h u t) (mset (all_queued R)) \<and>
    schedulers R' = schedulers R \<and> local_sched R' = local_sched R \<and> next_arc R' = next_arc R"
  using assms
proof (induction xs arbitrary: R)
  case Nil
  then have "\<forall>u \<in> set (all_queued R). \<not> task_eq h u t" by (auto simp: set_all_queued)
  moreover from this have "filter_mset (\<lambda>u. \<not> task_eq h u t) (mset (all_queued R)) = mset (all_queued R)"
    by (simp add: filter_mset_eq_conv)
  ultimately show ?case using Nil.prems(5) by auto
next
  case (Cons x xs)
  obtain c a where x: "x = (c, a)" by (cases x)
  have ca: "(c, a) \<in> set (schedulers R)" using Cons.prems(3) x by simp
  obtain M where M: "mset (all_queued R) = mset (dyn_tasks (sched_at R a)) + mset M"
    "\<And>s. mset (all_queued (upd_sched a s R)) = mset (dyn_tasks s) + mset M"
    using all_queued_upd [OF Cons.prems(1) ca] by blast
  have d: "ids_distinct h (dyn_tasks (sched_at R a))" using ids_distinct_sub [OF Cons.prems(2) M(1)] .
  obtain r s where rs: "dyn_remove h t (sched_at R a) = (r, s)" by fastforce
  let ?R = "upd_sched a s R"
  show ?case
  proof (cases r)
    case True
    then obtain u where u: "u \<in> set (dyn_tasks (sched_at R a))" "task_eq h u t"
      using dyn.remove_found [of h t "sched_at R a"] rs by auto
    have "\<forall>v \<in> set M. \<not> task_eq h v t" using ids_distinct_other [OF Cons.prems(2) M(1) u] .
    then have "filter_mset (\<lambda>u. \<not> task_eq h u t) (mset M) = mset M" by (simp add: filter_mset_eq_conv)
    moreover have "u \<in> set (all_queued R)" using u(1) ca by (auto simp: set_all_queued)
    ultimately show ?thesis
      using Cons.prems(5) True rs x M u(2) dyn.remove_tasks [OF d, of t] by auto
  next
    case False
    have m: "mset (dyn_tasks s) = mset (dyn_tasks (sched_at R a))"
      using dyn_remove_absent [OF d, of t] False rs by simp
    then have q: "mset (all_queued ?R) = mset (all_queued R)" using M by simp
    then have set: "set (all_queued ?R) = set (all_queued R)" by (rule mset_eq_setD)
    have "\<forall>u \<in> set (dyn_tasks s). \<not> task_eq h u t"
      using False dyn.remove_found [of h t "sched_at R a"] rs mset_eq_setD [OF m] by auto
    then have "\<forall>p \<in> set (schedulers ?R) - set xs. \<forall>u \<in> set (dyn_tasks (sched_at ?R (snd p))). \<not> task_eq h u t"
      using Cons.prems(4) x by (auto simp: fun_upd_def)
    from Cons.IH [OF _ _ _ this] show ?thesis
      using Cons.prems(1,2,3,5) False rs x q set ids_distinct_mset [OF q, of h] by simp
  qed
qed

lemma remove_task_queued:
  assumes "reg_wf R" and "ids_distinct h (all_queued R)" and "remove_task h t R = (ok, R')"
  shows "ok \<longleftrightarrow> (\<exists>u \<in> set (all_queued R). task_eq h u t)"
    and "mset (all_queued R') = filter_mset (\<lambda>u. \<not> task_eq h u t) (mset (all_queued R))"
    and "reg_wf R'"
  using remove_loop_queued [of R h "schedulers R" t ok R'] assms by (auto simp: reg_wf_def remove_task_def)

section \<open>Changing the policy\<close>

lemma mset_concat_map: "mset xs = mset ys \<Longrightarrow> mset (concat (map f xs)) = mset (concat (map f ys))"
proof -
  assume "mset xs = mset ys"
  then have "image_mset (mset \<circ> f) (mset xs) = image_mset (mset \<circ> f) (mset ys)" by simp
  then have "sum_mset (mset (map (mset \<circ> f) xs)) = sum_mset (mset (map (mset \<circ> f) ys))" by simp
  then show ?thesis unfolding mset_concat sum_mset_sum_list map_map .
qed

lemma set_policy_None:
  "local_sched R cpu = None \<Longrightarrow>
   set_policy cpu cpu s R =
     R\<lparr> schedulers := schedulers R @ [(cpu, next_arc R)], sched_at := (sched_at R)(next_arc R := s),
        local_sched := (local_sched R)(cpu \<mapsto> next_arc R), next_arc := Suc (next_arc R) \<rparr>"
  by (simp add: set_policy_def Let_def upd_sched_def)

lemma set_policy_Some:
  assumes wf: "reg_wf R" and old: "local_sched R cpu = Some old"
  obtains locked where "mset (schedulers R) = mset ((cpu, old) # locked)"
    and "set_policy cpu cpu s R =
      R\<lparr> schedulers := locked @ [(cpu, next_arc R)],
         sched_at := (sched_at R)(old := snd (dyn_drain (sched_at R old)),
                       next_arc R := fold dyn_add (fst (dyn_drain (sched_at R old))) s),
         local_sched := (local_sched R)(cpu \<mapsto> next_arc R), next_arc := Suc (next_arc R) \<rparr>"
proof -
  have mem: "(cpu, old) \<in> set (schedulers R)" using wf old by (simp add: reg_wf_def)
  have lt: "old < next_arc R" using wf bspec [OF _ mem, of "\<lambda>p. snd p < next_arc R"] by (simp add: reg_wf_def)
  have "position (\<lambda>(c, _). c = cpu) (schedulers R) \<noteq> None" using mem by (auto simp: position_None)
  then obtain i where i: "position (\<lambda>(c, _). c = cpu) (schedulers R) = Some i" by blast
  then have len: "i < length (schedulers R)" and "fst (schedulers R ! i) = cpu"
    by (auto simp: position_Some split: prod.splits)
  then have ith: "schedulers R ! i = (cpu, old)"
    using wf mem nth_mem [OF len] by (metis eq_key_imp_eq_value prod.collapse reg_wf_def)
  obtain ts d where d: "dyn_drain (sched_at R old) = (ts, d)" by fastforce
  show ?thesis
  proof (rule that [of "swap_remove i (schedulers R)"])
    show "mset (schedulers R) = mset ((cpu, old) # swap_remove i (schedulers R))"
      using mset_swap_remove [OF len] ith by simp
    show "set_policy cpu cpu s R =
      R\<lparr> schedulers := swap_remove i (schedulers R) @ [(cpu, next_arc R)],
         sched_at := (sched_at R)(old := snd (dyn_drain (sched_at R old)),
                       next_arc R := fold dyn_add (fst (dyn_drain (sched_at R old))) s),
         local_sched := (local_sched R)(cpu \<mapsto> next_arc R), next_arc := Suc (next_arc R) \<rparr>"
      using lt old i d by (simp add: set_policy_def Let_def upd_sched_def fun_upd_twist)
  qed
qed

lemma concat_map_upd:
  "a \<notin> snd ` set xs \<Longrightarrow> concat (map (\<lambda>p. f ((g(a := s)) (snd p))) xs) = concat (map (\<lambda>p. f (g (snd p))) xs)"
  by (intro arg_cong [of _ _ concat] map_cong refl) auto

lemma set_policy_tasks:
  assumes wf: "reg_wf R"
  shows "mset (all_queued (set_policy cpu cpu s R)) = mset (dyn_tasks s) + mset (all_queued R)"
proof (cases "local_sched R cpu")
  case None
  have "next_arc R \<notin> snd ` set (schedulers R)" using wf by (auto simp: reg_wf_def)
  then show ?thesis by (simp add: set_policy_None [OF None] all_queued_def concat_map_upd del: fun_upd_apply) simp
next
  case (Some old)
  obtain locked where m: "mset (schedulers R) = mset ((cpu, old) # locked)" and
    R': "set_policy cpu cpu s R =
      R\<lparr> schedulers := locked @ [(cpu, next_arc R)],
         sched_at := (sched_at R)(old := snd (dyn_drain (sched_at R old)),
                       next_arc R := fold dyn_add (fst (dyn_drain (sched_at R old))) s),
         local_sched := (local_sched R)(cpu \<mapsto> next_arc R), next_arc := Suc (next_arc R) \<rparr>"
    using set_policy_Some [OF wf Some] by metis
  have set: "set (schedulers R) = insert (cpu, old) (set locked)" using mset_eq_setD [OF m] by simp
  have "distinct (map snd ((cpu, old) # locked))"
    using wf mset_eq_imp_distinct_iff [of "map snd (schedulers R)" "map snd ((cpu, old) # locked)"] m
    by (simp add: reg_wf_def)
  then have o: "old \<notin> snd ` set locked" by simp
  have n: "next_arc R \<notin> snd ` set locked" using wf set by (auto simp: reg_wf_def)
  have "mset (all_queued R) = mset (dyn_tasks (sched_at R old)) + mset (concat (map (\<lambda>p. dyn_tasks (sched_at R (snd p))) locked))"
    unfolding all_queued_def using mset_concat_map [OF m, of "\<lambda>p. dyn_tasks (sched_at R (snd p))"] by simp
  moreover have "mset (all_queued (set_policy cpu cpu s R)) =
      mset (concat (map (\<lambda>p. dyn_tasks (sched_at R (snd p))) locked)) +
      mset (dyn_tasks (fold dyn_add (fst (dyn_drain (sched_at R old))) s))"
    by (simp add: R' all_queued_def concat_map_upd [OF n] concat_map_upd [OF o] del: fun_upd_apply) simp
  ultimately show ?thesis by (simp add: dyn.drain_into)
qed

lemma reg_wf_replace:
  assumes wf: "reg_wf R" and locked: "set locked \<subseteq> set (schedulers R)"
      "distinct (map fst locked)" "distinct (map snd locked)"
    and cpu: "\<forall>p \<in> set (schedulers R). p \<in> set locked \<longleftrightarrow> fst p \<noteq> cpu"
    and R': "schedulers R' = locked @ [(cpu, next_arc R)]" "local_sched R' = (local_sched R)(cpu \<mapsto> next_arc R)"
      "next_arc R' = Suc (next_arc R)"
  shows "reg_wf R'"
proof -
  have lt: "\<forall>p \<in> set locked. snd p < next_arc R" using wf locked(1) by (auto simp: reg_wf_def)
  have ne: "cpu \<notin> fst ` set locked" "next_arc R \<notin> snd ` set locked" using cpu locked(1) lt by fastforce+
  have "(c, a) \<in> set (schedulers R')" if "local_sched R' c = Some a" for c a
    using that wf cpu by (cases "c = cpu") (auto simp: R' reg_wf_def)
  moreover have "local_sched R' c = Some a" if "(c, a) \<in> set (schedulers R')" for c a
    using that wf cpu locked(1) ne(1) by (cases "c = cpu") (auto simp: R' reg_wf_def image_iff)
  moreover have "\<forall>p \<in> set (schedulers R'). snd p < next_arc R'" using lt by (auto simp: R' less_Suc_eq)
  moreover have "distinct (map fst (schedulers R'))" "distinct (map snd (schedulers R'))"
    using locked(2,3) ne by (simp_all add: R')
  ultimately show ?thesis unfolding reg_wf_def by blast
qed

lemma set_policy_wf:
  assumes wf: "reg_wf R"
  shows "reg_wf (set_policy cpu cpu s R)"
proof (cases "local_sched R cpu")
  case None
  then have "cpu \<notin> fst ` set (schedulers R)" using wf by (auto simp: reg_wf_def)
  then have "\<forall>p \<in> set (schedulers R). fst p \<noteq> cpu" by (auto simp: image_iff)
  moreover have "distinct (map fst (schedulers R))" "distinct (map snd (schedulers R))"
    using wf by (simp_all add: reg_wf_def)
  ultimately show ?thesis
    by (intro reg_wf_replace [OF wf order_refl]) (simp_all add: set_policy_None [OF None])
next
  case (Some old)
  obtain locked where m: "mset (schedulers R) = mset ((cpu, old) # locked)" and
    R': "schedulers (set_policy cpu cpu s R) = locked @ [(cpu, next_arc R)]"
      "local_sched (set_policy cpu cpu s R) = (local_sched R)(cpu \<mapsto> next_arc R)"
      "next_arc (set_policy cpu cpu s R) = Suc (next_arc R)"
    by (rule set_policy_Some [OF wf Some, of s]) simp
  have set: "set (schedulers R) = insert (cpu, old) (set locked)" using mset_eq_setD [OF m] by simp
  have "distinct (map snd ((cpu, old) # locked))" "distinct (map fst ((cpu, old) # locked))"
    using wf mset_eq_imp_distinct_iff [of "map snd (schedulers R)" "map snd ((cpu, old) # locked)"]
      mset_eq_imp_distinct_iff [of "map fst (schedulers R)" "map fst ((cpu, old) # locked)"] m
    by (simp_all add: reg_wf_def)
  moreover from this have "\<forall>p \<in> set (schedulers R). p \<in> set locked \<longleftrightarrow> fst p \<noteq> cpu"
    by (auto simp: set image_iff)
  ultimately show ?thesis by (intro reg_wf_replace [OF wf _ _ _ _ R']) (simp_all add: set subset_insertI)
qed

section \<open>Priorities\<close>

text \<open>The cap a policy puts on a priority.\<close>

fun dyn_clip :: "DynScheduler \<Rightarrow> u8 \<Rightarrow> u8" where
  "dyn_clip (DynEP s) p = min p 40"
| "dyn_clip _ p = p"

fun dyn_prio_ok :: "DynScheduler \<Rightarrow> bool" where
  "dyn_prio_ok (DynEP s) = (\<forall>e \<in> set (ep_queue s). ep_priority e \<le> 40)"
| "dyn_prio_ok _ = True"

lemma dyn_get_None_queued:
  "dyn_get_priority h t (DynEP e) = None \<longleftrightarrow> \<not> (\<exists>u \<in> set (ep_tasks e). task_eq h u t)"
  "dyn_get_priority h t (DynPR r) = None \<longleftrightarrow> \<not> (\<exists>u \<in> set (pr_tasks r). task_eq h u t)"
  by (simp_all add: ep_get_priority_def pr_get_priority_def find_None_iff ep_tasks_def pr_tasks_def Ball_def)

lemma dyn_get_clip:
  assumes "dyn_prio_ok s" and "dyn_get_priority h t s = Some p"
  shows "dyn_clip s p = p"
proof (cases s)
  case (DynEP e)
  then obtain x where "x \<in> set (ep_queue e)" "ep_priority x = p"
    using assms(2) find_SomeD by (fastforce simp: ep_get_priority_def)
  then show ?thesis using assms(1) DynEP by (auto simp: min_def)
qed simp_all

lemma dyn_set_absent:
  assumes "dyn_get_priority h t s = None"
  shows "fst (dyn_set_priority h t p s) \<noteq> Some True \<and> snd (dyn_set_priority h t p s) = s"
proof (cases s)
  case (DynEP e)
  then have "\<not> (\<exists>u \<in> set (ep_tasks e). task_eq h u t)" using assms by (simp only: dyn_get_None_queued simp_thms)
  then have "ep_set_priority h t p e = (False, e)"
    by (simp add: ep_set_priority_def Let_def ep_tasks_def position_None [THEN iffD2])
  then show ?thesis using DynEP by simp
next
  case (DynPR r)
  then have "\<not> (\<exists>u \<in> set (pr_tasks r). task_eq h u t)" using assms by (simp only: dyn_get_None_queued simp_thms)
  then show ?thesis using DynPR by (simp add: pr_set_absent)
qed simp

lemma dyn_set_present:
  assumes d: "ids_distinct h (dyn_tasks s)" and "dyn_get_priority h t s = Some q"
    and r: "dyn_set_priority h t p s = (r, s')"
  shows "r = Some True \<and> dyn_get_priority h t s' = Some (dyn_clip s p) \<and>
    (\<forall>u. \<not> task_eq h u t \<longrightarrow> dyn_get_priority h u s' = dyn_get_priority h u s) \<and>
    ids_distinct h (dyn_tasks s') \<and> dyn_clip s' = dyn_clip s"
proof (cases s)
  case (DynRR x)
  then show ?thesis using assms(2) by simp
next
  case (DynEP e)
  obtain ok e' where e': "ep_set_priority h t p e = (ok, e')" by fastforce
  have "\<exists>u \<in> set (ep_tasks e). task_eq h u t" using assms(2) DynEP dyn_get_None_queued(1) [of h t e] by auto
  then have "ok" "ep_get_priority h t e' = Some (min p 40)"
      "\<forall>u. \<not> task_eq h u t \<longrightarrow> ep_get_priority h u e' = ep_get_priority h u e"
    using ep_set_get [OF e'] by auto
  moreover have "ep_tasks e' = ep_tasks e"
    using e' by (auto simp: ep_set_priority_def ep_tasks_def Let_def map_update position_Some
        split: option.splits intro!: list_update_same_conv [THEN iffD2])
  moreover have "r = Some ok" "s' = DynEP e'" using r e' DynEP by auto
  ultimately show ?thesis using DynEP d by (auto simp: fun_eq_iff)
next
  case (DynPR x)
  obtain ok x' where x': "pr_set_priority h t p x = (ok, x')" by fastforce
  have "\<exists>u \<in> set (pr_tasks x). task_eq h u t" using assms(2) DynPR dyn_get_None_queued(2) [of h t x] by auto
  moreover have d': "ids_distinct h (pr_tasks x)" using d DynPR by simp
  ultimately have "ok" "pr_get_priority h t x' = Some p"
      "\<forall>u. \<not> task_eq h u t \<longrightarrow> pr_get_priority h u x' = pr_get_priority h u x"
    using pr_set_get [OF x' d'] by auto
  moreover have "ids_distinct h (pr_tasks x')" using pr_set_ids_distinct [OF d', of t p] x' by simp
  moreover have "r = Some ok" "s' = DynPR x'" using r x' DynPR by auto
  ultimately show ?thesis using DynPR by (auto simp: fun_eq_iff)
qed

lemma set_priority_loop_None:
  "priority_loop h t xs R = None \<Longrightarrow> set_priority_loop h t p xs R = (False, R)"
proof (induction xs)
  case (Cons x xs)
  obtain c a where x: "x = (c, a)" by (cases x)
  have g: "dyn_get_priority h t (sched_at R a) = None" and "priority_loop h t xs R = None"
    using Cons.prems x by (auto split: option.splits)
  then show ?case using Cons.IH dyn_set_absent [OF g, of p] x by (auto simp: Let_def split: prod.splits)
qed simp

definition has_prio :: "heap \<Rightarrow> taskref \<Rightarrow> Registry \<Rightarrow> nat \<times> nat \<Rightarrow> bool" where
  "has_prio h t R x \<longleftrightarrow> dyn_get_priority h t (sched_at R (snd x)) \<noteq> None"

lemma priority_loop_find:
  "priority_loop h t xs R =
     (case List.find (has_prio h t R) xs of None \<Rightarrow> None | Some x \<Rightarrow> dyn_get_priority h t (sched_at R (snd x)))"
  by (induction xs) (auto simp: has_prio_def split: option.splits)

lemma set_priority_loop_Some:
  assumes "List.find (has_prio h t R) xs = Some x"
    and "\<forall>x \<in> set xs. ids_distinct h (dyn_tasks (sched_at R (snd x)))"
  shows "set_priority_loop h t p xs R =
    (True, upd_sched (snd x) (snd (dyn_set_priority h t p (sched_at R (snd x)))) R)"
  using assms
proof (induction xs)
  case (Cons y xs)
  obtain c a where y: "y = (c, a)" by (cases y)
  show ?case
  proof (cases "dyn_get_priority h t (sched_at R a)")
    case None
    then show ?thesis using Cons y dyn_set_absent [OF None, of p]
      by (auto simp: has_prio_def Let_def split: prod.splits)
  next
    case (Some q)
    have d: "ids_distinct h (dyn_tasks (sched_at R a))" using Cons.prems(2) y by auto
    obtain r s where rs: "dyn_set_priority h t p (sched_at R a) = (r, s)" by fastforce
    show ?thesis using Cons.prems(1) Some y dyn_set_present [OF d Some rs] rs by (auto simp: has_prio_def Let_def)
  qed
qed simp

definition sched_ids_ok :: "heap \<Rightarrow> Registry \<Rightarrow> bool" where
  "sched_ids_ok h R \<longleftrightarrow> (\<forall>x \<in> set (schedulers R). ids_distinct h (dyn_tasks (sched_at R (snd x))))"

lemma dyn_get_task_eq: "task_eq h u t \<Longrightarrow> dyn_get_priority h u s = dyn_get_priority h t s"
  by (cases s) (simp_all add: ep_get_priority_def pr_get_priority_def task_eq_def)

lemma sched_priority_task_eq: "task_eq h u t \<Longrightarrow> sched_priority h u R = sched_priority h t R"
  using dyn_get_task_eq by (simp add: sched_priority_def priority_loop_find has_prio_def [abs_def] split: option.splits)

text \<open>What setting a priority does, for the task and for every other one.\<close>

lemma sched_set_effect:
  assumes ok: "sched_ids_ok h R" and f: "List.find (has_prio h t R) (schedulers R) = Some x"
    and R': "R' = snd (sched_set_priority h t p R)"
  shows "List.find (has_prio h t R') (schedulers R') = Some x" (is ?find)
    and "sched_priority h t R' = Some (dyn_clip (sched_at R (snd x)) p)" (is ?get)
    and "\<not> task_eq h u t \<Longrightarrow> sched_priority h u R' = sched_priority h u R"
    and "sched_ids_ok h R'"
    and "dyn_clip (sched_at R' (snd x)) = dyn_clip (sched_at R (snd x))"
proof -
  have x: "x \<in> set (schedulers R)" and "has_prio h t R x" using find_SomeD [OF f] by simp_all
  then obtain q where q: "dyn_get_priority h t (sched_at R (snd x)) = Some q" by (auto simp: has_prio_def)
  obtain r s where rs: "dyn_set_priority h t p (sched_at R (snd x)) = (r, s)" by fastforce
  have R'_upd: "R' = upd_sched (snd x) s R"
    using set_priority_loop_Some [OF f, of p] ok rs by (simp add: R' sched_set_priority_def sched_ids_ok_def)
  have d: "ids_distinct h (dyn_tasks (sched_at R (snd x)))" using ok x by (simp add: sched_ids_ok_def)
  note S = dyn_set_present [OF d q rs]
  have "has_prio h t R' = has_prio h t R" using S q by (auto simp: R'_upd has_prio_def fun_eq_iff)
  then show f': ?find using f by (simp add: R'_upd)
  then show ?get using S by (simp add: sched_priority_def priority_loop_find R'_upd)
  show "sched_priority h u R' = sched_priority h u R" if u: "\<not> task_eq h u t"
  proof -
    have "dyn_get_priority h u (sched_at R' a) = dyn_get_priority h u (sched_at R a)" for a
      using S u by (simp add: R'_upd)
    moreover have "schedulers R' = schedulers R" by (simp add: R'_upd)
    ultimately show ?thesis
      by (simp add: sched_priority_def priority_loop_find has_prio_def [abs_def] split: option.split)
  qed
  show "sched_ids_ok h R'" using ok S by (simp add: sched_ids_ok_def R'_upd)
  show "dyn_clip (sched_at R' (snd x)) = dyn_clip (sched_at R (snd x))" using S by (simp add: R'_upd)
qed

text \<open>
  C27: Priority inheritance is undone by dropping its guard.  While the guard is held the task's
  priority is at least its own and, up to the policy's cap of 40, the maximum of its own and the
  current task's; no other task's priority changes; and after the drop every task has
  the priority it had before.
\<close>

theorem inherit_priority_roundtrip:
  assumes ids: "sched_ids_ok h R" and prio: "\<forall>x \<in> set (schedulers R). dyn_prio_ok (sched_at R (snd x))"
    and inh: "inherit_priority h (Some cur) task R = Some (g, R1)"
  shows "(\<forall>c q. sched_priority h cur R = Some c \<and> sched_priority h task R = Some q \<longrightarrow>
        (\<exists>r. sched_priority h task R1 = Some r \<and> q \<le> r \<and> (c \<le> 40 \<longrightarrow> r = max q c))) \<and>
    (\<forall>u. \<not> task_eq h u task \<longrightarrow> sched_priority h u R1 = sched_priority h u R) \<and>
    (\<forall>u. sched_priority h u (guard_drop h g R1) = sched_priority h u R)"
proof (cases "\<exists>c q. sched_priority h cur R = Some c \<and> sched_priority h task R = Some q \<and> q < c")
  case True
  then obtain c q where cq: "sched_priority h cur R = Some c" "sched_priority h task R = Some q" "q < c" by blast
  then have g: "g = Some (task, q)" and R1: "R1 = snd (sched_set_priority h task c R)"
    using inh by (auto simp: inherit_priority_def)
  obtain x where x: "List.find (has_prio h task R) (schedulers R) = Some x"
      "dyn_get_priority h task (sched_at R (snd x)) = Some q"
    using cq(2) by (auto simp: sched_priority_def priority_loop_find split: option.splits)
  have clip: "dyn_clip (sched_at R (snd x)) q = q"
    using dyn_get_clip [OF _ x(2)] prio find_SomeD [OF x(1)] by simp
  note S = sched_set_effect [OF ids x(1) R1]
  note D = sched_set_effect [OF S(4,1), of "guard_drop h g R1" q]
  have R2: "guard_drop h g R1 = snd (sched_set_priority h task q R1)" by (simp add: guard_drop_def g)
  have "q \<le> dyn_clip (sched_at R (snd x)) c" "c \<le> 40 \<Longrightarrow> dyn_clip (sched_at R (snd x)) c = c"
    using clip cq(3) by (cases "sched_at R (snd x)"; auto simp: min_def split: if_splits)+
  then have "\<forall>c' q'. sched_priority h cur R = Some c' \<and> sched_priority h task R = Some q' \<longrightarrow>
        (\<exists>r. sched_priority h task R1 = Some r \<and> q' \<le> r \<and> (c' \<le> 40 \<longrightarrow> r = max q' c'))"
    using cq S(2) by auto
  moreover have "sched_priority h u (guard_drop h g R1) = sched_priority h u R" for u
  proof (cases "task_eq h u task")
    case True
    then show ?thesis using D(2) [OF R2] S(5) clip cq(2) by (simp add: sched_priority_task_eq)
  qed (use D(3) [OF R2] S(3) in simp)
  ultimately show ?thesis using S(3) by blast
next
  case False
  then have "g = None" "R1 = R" using inh by (auto simp: inherit_priority_def split: option.splits if_splits)
  moreover have "max q c = q" if "sched_priority h cur R = Some c" "sched_priority h task R = Some q" for c q
    using False that by (auto simp: max_def)
  ultimately show ?thesis by (auto simp: guard_drop_def)
qed

definition reg_ex :: Registry where
  "reg_ex =
     \<lparr> schedulers = [(0, 1), (1, 2)],
       sched_at = (\<lambda>a. if a = 1 then DynEP ep_ex
                       else DynPR \<lparr> pr_idle_task = 8, pr_queue = [\<lparr> pt_task = 5, pt_priority = 30, last_ran = 3 \<rparr>] \<rparr>),
       local_sched = [0 \<mapsto> 1, 1 \<mapsto> 2], next_arc = 3 \<rparr>"

theorem inherit_priority_roundtrip_witness:
  "sched_priority ep_ex_heap 5 reg_ex = Some 30 \<and> sched_priority ep_ex_heap 2 reg_ex = Some 0 \<and>
   (case inherit_priority ep_ex_heap (Some 5) 2 reg_ex of
      None \<Rightarrow> False
    | Some (g, R1) \<Rightarrow> sched_priority ep_ex_heap 2 R1 = Some 30 \<and>
        sched_priority ep_ex_heap 2 (guard_drop ep_ex_heap g R1) = Some 0)"
proof -
  let ?r = "sched_set_priority ep_ex_heap 2 30 reg_ex"
  have p: "sched_priority ep_ex_heap 5 reg_ex = Some 30" "sched_priority ep_ex_heap 2 reg_ex = Some 0"
    by (simp_all add: sched_priority_def reg_ex_def ep_ex_def ep_ex_heap_def ep_get_priority_def
        pr_get_priority_def task_eq_def Task_new_def)
  then have i: "inherit_priority ep_ex_heap (Some 5) 2 reg_ex = Some (Some (2, 0), snd ?r)"
    by (simp add: inherit_priority_def)
  have "sched_ids_ok ep_ex_heap reg_ex" "\<forall>x \<in> set (schedulers reg_ex). dyn_prio_ok (sched_at reg_ex (snd x))"
    by (simp_all add: sched_ids_ok_def reg_ex_def ep_ex_def ep_ex_heap_def ids_distinct_def ep_tasks_def
        pr_tasks_def Task_new_def)
  from inherit_priority_roundtrip [OF this i] show ?thesis using p i by (simp add: max_def)
qed

section \<open>Task placement and policy changes\<close>

text \<open>
  Placing a task.  \<open>add_task\<close> panics only if no scheduler has room; otherwise exactly one
  registered scheduler, one of the least busy, gains exactly this task and every other
  scheduler stays the same.
\<close>

theorem add_task_least_busy:
  assumes wf: "reg_wf R" and ne: "\<exists>(c, a) \<in> set (schedulers R). dyn_busyness (sched_at R a) < 2 ^ 64 - 1"
  shows "\<exists>R' c a. add_task t R = Some R' \<and> (c, a) \<in> set (schedulers R) \<and>
    (\<forall>(c', a') \<in> set (schedulers R). dyn_busyness (sched_at R a) \<le> dyn_busyness (sched_at R a')) \<and>
    mset (dyn_tasks (sched_at R' a)) = add_mset t (mset (dyn_tasks (sched_at R a))) \<and>
    (\<forall>a'. a' \<noteq> a \<longrightarrow> sched_at R' a' = sched_at R a') \<and>
    mset (all_queued R') = add_mset t (mset (all_queued R)) \<and> reg_wf R'"
proof (cases rule: add_task_cases [of R t])
  case panic
  then show ?thesis using ne by force
next
  case (added c a)
  have "\<forall>(c', a') \<in> set (schedulers R). dyn_busyness (sched_at R a) \<le> dyn_busyness (sched_at R a')"
    using added(2) by auto
  with added(1) add_task_queued [OF wf added(3)] show ?thesis
    by (intro exI [of _ "upd_sched a (dyn_add t (sched_at R a)) R"] exI [of _ c] exI [of _ a])
      (simp add: added(3) dyn.add_tasks)
qed

theorem add_task_least_busy_witness:
  "\<exists>R' c a. add_task 7 reg_ex = Some R' \<and> (c, a) \<in> set (schedulers reg_ex) \<and>
    (\<forall>(c', a') \<in> set (schedulers reg_ex). dyn_busyness (sched_at reg_ex a) \<le> dyn_busyness (sched_at reg_ex a')) \<and>
    mset (dyn_tasks (sched_at R' a)) = add_mset 7 (mset (dyn_tasks (sched_at reg_ex a))) \<and>
    (\<forall>a'. a' \<noteq> a \<longrightarrow> sched_at R' a' = sched_at reg_ex a') \<and>
    mset (all_queued R') = add_mset 7 (mset (all_queued reg_ex)) \<and> reg_wf R'"
  by (rule add_task_least_busy)
    (auto simp: reg_wf_def reg_ex_def ep_ex_def ep_busyness_def pr_busyness_def split: if_splits)



end
