(* ===== verification/Task_Ops.thy ===== *)
theory Task_Ops
  imports Scheduler_Registry
begin

text \<open>
  Tasks as the rest of the kernel sees them (\<open>kernel/task/src/lib.rs\<close>, \<open>joinable.rs\<close>, the end of
  \<open>TaskBuilder::spawn\<close> in \<open>kernel/spawn/src/lib.rs\<close>): the task list, blocking, unblocking, killing,
  exiting, and the switch to the task the scheduler picked.  The state joins the task store,
  \<open>TASK_LIST\<close>, the per-CPU \<open>CURRENT_TASK\<close>, the scheduler registry and the id counter.
\<close>

section \<open>State and operations\<close>

record KState =
  k_heap :: heap
  k_list :: "(nat, taskref) btree"
  k_current :: "nat \<Rightarrow> taskref option"
  k_reg :: Registry
  k_next_id :: nat
  k_next_ref :: taskref

definition set_runstate :: "taskref \<Rightarrow> RunState \<Rightarrow> KState \<Rightarrow> KState" where
  "set_runstate t st K = K\<lparr> k_heap := (k_heap K)(t := (k_heap K t)\<lparr> runstate := st \<rparr>) \<rparr>"

text \<open>\<open>compare_exchange\<close> on the run state of a task.\<close>

definition cas_runstate :: "taskref \<Rightarrow> RunState \<Rightarrow> RunState \<Rightarrow> KState \<Rightarrow> (RunState + RunState) \<times> KState" where
  "cas_runstate t expected new K =
     (let (r, st) = compare_exchange (runstate (k_heap K t)) expected new in (r, set_runstate t st K))"

definition sched_remove :: "taskref \<Rightarrow> KState \<Rightarrow> KState" where
  "sched_remove t K = K\<lparr> k_reg := snd (remove_task (k_heap K) t (k_reg K)) \<rparr>"

definition sched_add :: "taskref \<Rightarrow> KState \<Rightarrow> KState option" where
  "sched_add t K = map_option (\<lambda>R. K\<lparr> k_reg := R \<rparr>) (add_task t (k_reg K))"

text \<open>\<open>None\<close> is the panic of \<open>add_task\<close> when no scheduler is registered.\<close>

definition unblock :: "taskref \<Rightarrow> KState \<Rightarrow> ((RunState + unit) \<times> KState) option" where
  "unblock t K =
     (case cas_runstate t Blocked Runnable K of
        (Inr _, K) \<Rightarrow> map_option (\<lambda>K. (Inr (), K)) (sched_add t K)
      | (Inl current_state, K) \<Rightarrow>
          Some (if current_state = Runnable then Inr () else Inl current_state, K))"

definition block :: "taskref \<Rightarrow> KState \<Rightarrow> (RunState + unit) \<times> KState" where
  "block t K =
     (case cas_runstate t Runnable Blocked K of
        (Inr _, K) \<Rightarrow> (Inr (), sched_remove t K)
      | (Inl Blocked, K) \<Rightarrow> (Inr (), sched_remove t K)
      | (Inl current_state, K) \<Rightarrow> (Inl current_state, K))"

text \<open>
  The retry loop of \<open>kill\<close>: the exchange against the state just read succeeds, since nothing
  intervenes between the two in a sequential execution.
\<close>

definition kill :: "taskref \<Rightarrow> KillReason \<Rightarrow> KState \<Rightarrow> (RunState + unit) \<times> KState" where
  "kill t reason K =
     (case runstate (k_heap K t) of
        Runnable \<Rightarrow> (Inr (), sched_remove t (set_runstate t (Exited (Killed reason)) K))
      | Blocked \<Rightarrow> (Inr (), sched_remove t (set_runstate t (Exited (Killed reason)) K))
      | Exited (Killed _) \<Rightarrow> (Inr (), K)
      | st \<Rightarrow> (Inl st, K))"

definition has_exited :: "taskref \<Rightarrow> KState \<Rightarrow> bool" where
  "has_exited t K \<longleftrightarrow> (case runstate (k_heap K t) of Exited _ \<Rightarrow> True | _ \<Rightarrow> False)"

definition mark_as :: "taskref \<Rightarrow> ExitValue \<Rightarrow> KState \<Rightarrow> (RunState + unit) \<times> KState" where
  "mark_as t v K =
     (case cas_runstate t Runnable (Exited v) K of
        (Inr _, K) \<Rightarrow> (Inr (), K)
      | (Inl Blocked, K) \<Rightarrow> (Inr (), set_runstate t (Exited v) K)
      | (Inl s, K) \<Rightarrow> (Inl s, K))"

definition mark_as_exited :: "taskref \<Rightarrow> KState \<Rightarrow> (RunState + unit) \<times> KState" where
  "mark_as_exited t = mark_as t (Completed 0)"

definition mark_as_killed :: "taskref \<Rightarrow> KillReason \<Rightarrow> KState \<Rightarrow> (RunState + unit) \<times> KState" where
  "mark_as_killed t reason = mark_as t (Killed reason)"

text \<open>The state in which \<open>task_cleanup_failure\<close> starts to spin.\<close>

definition task_cleanup_failure :: "taskref \<Rightarrow> KillReason \<Rightarrow> KState \<Rightarrow> KState" where
  "task_cleanup_failure t cause K = sched_remove t (snd (mark_as_killed t cause K))"

definition get_task :: "nat \<Rightarrow> KState \<Rightarrow> taskref option" where
  "get_task i K = bt_get i (k_list K)"

definition from_task :: "Task \<Rightarrow> KState \<Rightarrow> taskref \<times> KState" where
  "from_task task K =
     (let r = k_next_ref K
      in (r, K\<lparr> k_heap := (k_heap K)(r := task), k_list := bt_insert (task_id task) r (k_list K),
                k_next_ref := Suc r \<rparr>))"

definition get_next_task_id :: "KState \<Rightarrow> nat \<times> KState" where
  "get_next_task_id K = (k_next_id K, K\<lparr> k_next_id := (k_next_id K + 1) mod 2 ^ 64 \<rparr>)"

text \<open>
  \<open>TaskBuilder::spawn\<close> from the allocation of the id on; \<open>sp\<close> is the stack pointer that
  \<open>setup_context_trampoline\<close> stores, and there is no post-build hook.
\<close>

definition spawn :: "string \<Rightarrow> usize \<Rightarrow> bool \<Rightarrow> bool \<Rightarrow> nat option \<Rightarrow> KState \<Rightarrow> (taskref \<times> KState) option" where
  "spawn name sp blocked idle pin_on_cpu K =
     (let (i, K) = get_next_task_id K;
          new_task = (Task_new i name)\<lparr> runstate := Initing, saved_sp := sp, is_an_idle_task := idle \<rparr>
      in case (if blocked then block_initing_task new_task else make_inited_task_runnable new_task) of
           (Inl _, _) \<Rightarrow> None
         | (Inr _, new_task) \<Rightarrow>
             let (r, K) = from_task new_task K
             in if idle then Some (r, K)
                else case pin_on_cpu of
                       Some cpu \<Rightarrow> Some (r, K\<lparr> k_reg := add_task_to cpu r (k_reg K) \<rparr>)
                     | None \<Rightarrow> map_option (\<lambda>K. (r, K)) (sched_add r K))"

text \<open>
  Switching: \<open>sp\<close> is the stack pointer \<open>context_switch\<close> saves for the task that is left.
  The change of page table is not part of the state.
\<close>

definition task_switch :: "taskref \<Rightarrow> nat \<Rightarrow> usize \<Rightarrow> KState \<Rightarrow> bool \<times> KState" where
  "task_switch nxt cpu_id sp K =
     (case k_current K cpu_id of
        None \<Rightarrow> (True, K\<lparr> k_current := (k_current K)(cpu_id := Some nxt) \<rparr>)
      | Some cur \<Rightarrow>
          let h = k_heap K
          in if saved_sp (h nxt) = 0 then (False, K)
             else if has_exited nxt K then (False, K)
             else if task_id (h cur) = task_id (h nxt) then (False, K)
             else
               let h = h(cur := (h cur)\<lparr> running_on_cpu := None \<rparr>);
                   h = h(nxt := (h nxt)\<lparr> running_on_cpu := Some cpu_id \<rparr>);
                   h = h(cur := (h cur)\<lparr> saved_sp := sp \<rparr>)
               in (True, K\<lparr> k_heap := h, k_current := (k_current K)(cpu_id := Some nxt) \<rparr>))"

definition get_my_current_task_id :: "nat \<Rightarrow> KState \<Rightarrow> nat" where
  "get_my_current_task_id cpu K = (case k_current K cpu of Some t \<Rightarrow> task_id (k_heap K t) | None \<Rightarrow> 0)"

text \<open>\<open>schedule\<close>: \<open>None\<close> is the panic when the CPU has no scheduler.\<close>

definition schedule :: "bool \<Rightarrow> nat \<Rightarrow> u64 \<Rightarrow> usize \<Rightarrow> KState \<Rightarrow> (bool \<times> KState) option" where
  "schedule preemption_was_enabled cpu now sp K =
     (if \<not> preemption_was_enabled then Some (False, K)
      else case local_sched (k_reg K) cpu of
             None \<Rightarrow> None
           | Some a \<Rightarrow>
               let (next_task, s) = dyn_next (k_heap K) (get_my_current_task_id cpu K) now (sched_at (k_reg K) a)
               in Some (task_switch next_task cpu sp (K\<lparr> k_reg := upd_sched a s (k_reg K) \<rparr>)))"

definition init_current_task :: "nat \<Rightarrow> nat \<Rightarrow> KState \<Rightarrow> (taskref \<times> KState) option" where
  "init_current_task cpu i K =
     (case get_task i K of
        None \<Rightarrow> None
      | Some t \<Rightarrow>
          Some (t, K\<lparr> k_current := (k_current K)(cpu := Some t),
                      k_heap := (k_heap K)(t := (k_heap K t)\<lparr> running_on_cpu := Some cpu \<rparr>) \<rparr>))"

section \<open>The run-queue invariant\<close>

text \<open>
  The references handed out so far carry distinct ids below the counter; the queues hold only such
  references, each at most once.
\<close>

definition kwf :: "KState \<Rightarrow> bool" where
  "kwf K \<longleftrightarrow> reg_wf (k_reg K) \<and> distinct (all_queued (k_reg K)) \<and>
     set (all_queued (k_reg K)) \<subseteq> {..< k_next_ref K} \<and>
     inj_on (\<lambda>t. task_id (k_heap K t)) {..< k_next_ref K} \<and>
     (\<forall>t < k_next_ref K. task_id (k_heap K t) < k_next_id K) \<and> k_next_id K < 2 ^ 64"

definition kinv :: "KState \<Rightarrow> bool" where
  "kinv K \<longleftrightarrow> kwf K \<and> (\<forall>t \<in> set (all_queued (k_reg K)). runstate (k_heap K t) \<noteq> Blocked)"

text \<open>The operations on a live kernel: each acts on tasks that exist.\<close>

inductive kstep :: "KState \<Rightarrow> KState \<Rightarrow> bool" where
  unblock: "t < k_next_ref K \<Longrightarrow> unblock t K = Some (r, K') \<Longrightarrow> kstep K K'"
| block: "t < k_next_ref K \<Longrightarrow> block t K = (r, K') \<Longrightarrow> kstep K K'"
| kill: "t < k_next_ref K \<Longrightarrow> kill t reason K = (r, K') \<Longrightarrow> kstep K K'"
| exit: "t < k_next_ref K \<Longrightarrow> mark_as_exited t K = (r, K') \<Longrightarrow> kstep K K'"
| cleanup: "t < k_next_ref K \<Longrightarrow> K' = task_cleanup_failure t reason K \<Longrightarrow> kstep K K'"
| spawn: "k_next_id K < 2 ^ 64 - 1 \<Longrightarrow> spawn name sp False idle pin K = Some (t, K') \<Longrightarrow> kstep K K'"
| policy: "dyn_tasks s = [] \<Longrightarrow> K' = K\<lparr> k_reg := set_policy cpu cpu s (k_reg K) \<rparr> \<Longrightarrow> kstep K K'"
| schedule: "schedule enabled cpu now sp K = Some (r, K') \<Longrightarrow> kstep K K'"

lemma kwf_frame:
  assumes "kwf K" and "k_next_ref K' = k_next_ref K" "k_next_id K' = k_next_id K"
    and "\<And>t. task_id (k_heap K' t) = task_id (k_heap K t)"
    and "reg_wf (k_reg K')" "distinct (all_queued (k_reg K'))"
    and "set (all_queued (k_reg K')) \<subseteq> {..< k_next_ref K}"
  shows "kwf K'"
  using assms by (simp add: kwf_def)

lemma kwf_ids: "kwf K \<Longrightarrow> ids_distinct (k_heap K) (all_queued (k_reg K))"
  using inj_on_subset by (fastforce simp: kwf_def ids_distinct_def distinct_map)

lemma kwf_task_eq: "kwf K \<Longrightarrow> t < k_next_ref K \<Longrightarrow> u < k_next_ref K \<Longrightarrow> task_eq (k_heap K) u t \<longleftrightarrow> u = t"
  by (auto simp: kwf_def task_eq_def inj_on_def)

lemma set_runstate_simps [simp]:
  "k_reg (set_runstate t st K) = k_reg K" "k_current (set_runstate t st K) = k_current K"
  "k_next_ref (set_runstate t st K) = k_next_ref K" "k_next_id (set_runstate t st K) = k_next_id K"
  "k_list (set_runstate t st K) = k_list K"
  "runstate (k_heap (set_runstate t st K) u) = (if u = t then st else runstate (k_heap K u))"
  "task_id (k_heap (set_runstate t st K) u) = task_id (k_heap K u)"
  by (simp_all add: set_runstate_def)

lemma kwf_set_runstate [simp]: "kwf (set_runstate t st K) = kwf K"
  by (simp add: kwf_def)

lemma set_runstate_same: "runstate (k_heap K t) = st \<Longrightarrow> set_runstate t st K = K"
  by (auto simp: set_runstate_def)

lemma cas_runstate_simp:
  "cas_runstate t e n K = (if runstate (k_heap K t) = e then (Inr e, set_runstate t n K) else (Inl (runstate (k_heap K t)), K))"
  by (simp add: cas_runstate_def compare_exchange_def set_runstate_same)

lemma sched_remove_frame [simp]:
  "k_heap (sched_remove t K) = k_heap K" "k_next_ref (sched_remove t K) = k_next_ref K"
  "k_next_id (sched_remove t K) = k_next_id K" "k_current (sched_remove t K) = k_current K"
  by (simp_all add: sched_remove_def)

lemma sched_remove_queue:
  assumes wf: "kwf K" and t: "t < k_next_ref K"
  shows "set (all_queued (k_reg (sched_remove t K))) = set (all_queued (k_reg K)) - {t}" (is ?set)
    and "kwf (sched_remove t K)"
proof -
  let ?h = "k_heap K" and ?R = "k_reg K" and ?R' = "k_reg (sched_remove t K)"
  have reg: "reg_wf ?R" using wf by (simp add: kwf_def)
  obtain ok where "remove_task ?h t ?R = (ok, ?R')" by (cases "remove_task ?h t ?R") (simp add: sched_remove_def)
  note R = remove_task_queued [OF reg kwf_ids [OF wf] this]
  have "mset (all_queued ?R') = mset (filter (\<lambda>u. \<not> task_eq ?h u t) (all_queued ?R))" using R(2) by simp
  moreover have "filter (\<lambda>u. \<not> task_eq ?h u t) (all_queued ?R) = filter (\<lambda>u. u \<noteq> t) (all_queued ?R)"
    using wf kwf_task_eq [OF wf t] by (intro filter_cong) (auto simp: kwf_def)
  ultimately have m: "mset (all_queued ?R') = mset (filter (\<lambda>u. u \<noteq> t) (all_queued ?R))" by simp
  show ?set using mset_eq_setD [OF m] by auto
  moreover have "distinct (all_queued ?R')"
    using mset_eq_imp_distinct_iff [OF m] wf by (simp add: kwf_def)
  ultimately show "kwf (sched_remove t K)"
    using R(3) wf by (intro kwf_frame [OF wf]) (auto simp: kwf_def)
qed

lemma reg_add_kwf:
  assumes wf: "kwf K" and t: "t < k_next_ref K" "t \<notin> set (all_queued (k_reg K))"
    and R': "mset (all_queued R') = add_mset t (mset (all_queued (k_reg K)))" "reg_wf R'"
  shows "set (all_queued R') = insert t (set (all_queued (k_reg K))) \<and> kwf (K\<lparr> k_reg := R' \<rparr>)"
proof -
  have m: "mset (all_queued R') = mset (t # all_queued (k_reg K))" using R'(1) by simp
  have s: "set (all_queued R') = insert t (set (all_queued (k_reg K)))" using mset_eq_setD [OF m] by simp
  moreover have "distinct (all_queued R')" using mset_eq_imp_distinct_iff [OF m] wf t by (simp add: kwf_def)
  ultimately show ?thesis using wf t R'(2) by (auto intro!: kwf_frame [OF wf] simp: kwf_def)
qed

lemma sched_add_queue:
  assumes wf: "kwf K" and t: "t < k_next_ref K" "t \<notin> set (all_queued (k_reg K))"
    and a: "sched_add t K = Some K'"
  shows "set (all_queued (k_reg K')) = insert t (set (all_queued (k_reg K))) \<and> kwf K' \<and> k_heap K' = k_heap K"
proof -
  obtain R' where R': "add_task t (k_reg K) = Some R'" "K' = K\<lparr> k_reg := R' \<rparr>"
    using a by (auto simp: sched_add_def)
  have "reg_wf (k_reg K)" using wf by (simp add: kwf_def)
  from reg_add_kwf [OF wf t add_task_queued [OF this R'(1)]] show ?thesis by (simp add: R'(2))
qed

section \<open>Each operation keeps the invariant\<close>

lemma unblock_kinv: "kinv K \<Longrightarrow> t < k_next_ref K \<Longrightarrow> unblock t K = Some (r, K') \<Longrightarrow> kinv K'"
proof (cases "runstate (k_heap K t) = Blocked")
  case True
  assume K: "kinv K" "t < k_next_ref K" "unblock t K = Some (r, K')"
  let ?K = "set_runstate t Runnable K"
  have a: "sched_add t ?K = Some K'" using K(3) True by (auto simp: unblock_def cas_runstate_simp)
  have "t \<notin> set (all_queued (k_reg ?K))" using K(1) True by (auto simp: kinv_def)
  from sched_add_queue [OF _ _ this a] K show ?thesis by (auto simp: kinv_def)
qed (auto simp: unblock_def cas_runstate_simp)

lemma block_kinv: "kinv K \<Longrightarrow> t < k_next_ref K \<Longrightarrow> block t K = (r, K') \<Longrightarrow> kinv K'"
proof -
  assume K: "kinv K" "t < k_next_ref K" "block t K = (r, K')"
  let ?K = "set_runstate t Blocked K"
  have "kwf ?K" "t < k_next_ref ?K" using K by (simp_all add: kinv_def)
  note Q = sched_remove_queue [OF this]
  have "K' = K \<or> K' = sched_remove t ?K"
    using K(3) by (auto simp: block_def cas_runstate_simp set_runstate_same split: RunState.splits if_splits)
  then show ?thesis using K Q by (auto simp: kinv_def)
qed

lemma kill_kinv: "kinv K \<Longrightarrow> t < k_next_ref K \<Longrightarrow> kill t v K = (r, K') \<Longrightarrow> kinv K'"
proof -
  assume K: "kinv K" "t < k_next_ref K" "kill t v K = (r, K')"
  let ?K = "set_runstate t (Exited (Killed v)) K"
  have "kwf ?K" "t < k_next_ref ?K" using K by (simp_all add: kinv_def)
  note Q = sched_remove_queue [OF this]
  have "K' = K \<or> K' = sched_remove t ?K"
    using K(3) by (auto simp: kill_def split: RunState.splits ExitValue.splits)
  then show ?thesis using K Q by (auto simp: kinv_def)
qed

lemma mark_as_cases: "snd (mark_as t v K) = K \<or> snd (mark_as t v K) = set_runstate t (Exited v) K"
  by (auto simp: mark_as_def cas_runstate_simp split: RunState.splits)

lemma exit_kinv: "kinv K \<Longrightarrow> kinv (snd (mark_as t v K))"
  using mark_as_cases [of t v K] by (auto simp: kinv_def split: if_splits)

lemma mark_as_next_ref [simp]: "k_next_ref (snd (mark_as t v K)) = k_next_ref K"
  using mark_as_cases [of t v K] by auto

lemma cleanup_kinv: "kinv K \<Longrightarrow> t < k_next_ref K \<Longrightarrow> kinv (task_cleanup_failure t v K)"
proof -
  assume K: "kinv K" "t < k_next_ref K"
  let ?K = "snd (mark_as t (Killed v) K)"
  have k: "kinv ?K" using K(1) by (rule exit_kinv)
  then have "kwf ?K" "t < k_next_ref ?K" using K(2) by (simp_all add: kinv_def)
  note Q = sched_remove_queue [OF this]
  show ?thesis using k Q by (auto simp: kinv_def task_cleanup_failure_def mark_as_killed_def)
qed

lemma add_task_to_queued:
  assumes "reg_wf R"
  shows "all_queued (add_task_to cpu t R) = all_queued R \<and> reg_wf (add_task_to cpu t R) \<or>
    mset (all_queued (add_task_to cpu t R)) = add_mset t (mset (all_queued R)) \<and> reg_wf (add_task_to cpu t R)"
proof (cases "find_cpu cpu R")
  case None
  then show ?thesis using assms by (simp add: add_task_to_def)
next
  case (Some a)
  then obtain c where ca: "(c, a) \<in> set (schedulers R)"
    using find_SomeD by (fastforce simp: find_cpu_def)
  have "distinct (map snd (schedulers R))" using assms by (simp add: reg_wf_def)
  then obtain M where "mset (all_queued R) = mset (dyn_tasks (sched_at R a)) + mset M"
    "\<And>s. mset (all_queued (upd_sched a s R)) = mset (dyn_tasks s) + mset M"
    using all_queued_upd [OF _ ca] by blast
  then show ?thesis using Some assms by (simp add: add_task_to_def dyn.add_tasks)
qed

text \<open>A new task enters the store and, unless it is an idle task, one queue.\<close>

lemma from_task_kwf:
  assumes K: "kinv K" and i: "k_next_id K < 2 ^ 64 - 1"
    and t: "task_id task = k_next_id K" "(r, K1) = from_task task (snd (get_next_task_id K))"
  shows "kwf K1 \<and> r = k_next_ref K \<and> r < k_next_ref K1 \<and> k_reg K1 = k_reg K \<and>
    k_heap K1 = (k_heap K)(r := task) \<and> r \<notin> set (all_queued (k_reg K1))"
proof -
  have K1: "r = k_next_ref K" "k_reg K1 = k_reg K" "k_heap K1 = (k_heap K)(r := task)"
      "k_next_ref K1 = Suc (k_next_ref K)" "k_next_id K1 = Suc (k_next_id K)"
    using t i by (auto simp: from_task_def get_next_task_id_def Let_def)
  have wf: "kwf K" using K by (simp add: kinv_def)
  have "inj_on (\<lambda>t. task_id (k_heap K1 t)) {..< Suc (k_next_ref K)}"
    using wf t(1) unfolding lessThan_Suc K1 kwf_def by (auto simp: inj_on_def)
  moreover have "\<forall>u < Suc (k_next_ref K). task_id (k_heap K1 u) < Suc (k_next_id K)"
    using wf t(1) by (auto simp: K1 kwf_def less_Suc_eq)
  ultimately show ?thesis using wf i K1 unfolding kwf_def by auto
qed

lemma spawn_kinv:
  assumes K: "kinv K" and i: "k_next_id K < 2 ^ 64 - 1" and sp: "spawn name sp False idle pin K = Some (t, K')"
  shows "kinv K'"
proof -
  let ?task = "(Task_new (k_next_id K) name)\<lparr> runstate := Runnable, saved_sp := sp, is_an_idle_task := idle \<rparr>"
  obtain r K1 where f: "(r, K1) = from_task ?task (snd (get_next_task_id K))" by (metis surj_pair)
  have "task_id ?task = k_next_id K" by (simp add: Task_new_def)
  note F = from_task_kwf [OF K i this f]
  have inv: "kinv (K1\<lparr> k_reg := R \<rparr>)" if "set (all_queued R) \<subseteq> insert r (set (all_queued (k_reg K1)))"
      "kwf (K1\<lparr> k_reg := R \<rparr>)" for R
    using that K F by (auto simp: kinv_def Task_new_def)
  have reg: "reg_wf (k_reg K1)" using conjunct1 [OF F] by (simp only: kwf_def)
  have "K' = K1 \<or> (\<exists>c. K' = K1\<lparr> k_reg := add_task_to c r (k_reg K1) \<rparr>) \<or> sched_add r K1 = Some K'"
    using sp f by (auto simp: spawn_def Let_def get_next_task_id_def make_inited_task_runnable_def
        compare_exchange_def Task_new_def split: prod.splits if_splits option.splits)
  then consider "K' = K1" | c where "K' = K1\<lparr> k_reg := add_task_to c r (k_reg K1) \<rparr>"
    | R where "add_task r (k_reg K1) = Some R" "K' = K1\<lparr> k_reg := R \<rparr>" by (auto simp: sched_add_def)
  then show ?thesis
  proof cases
    case 1
    moreover have "K1\<lparr> k_reg := k_reg K1 \<rparr> = K1" by (cases K1) simp
    ultimately show ?thesis using inv [of "k_reg K1"] conjunct1 [OF F] by (simp add: subset_insertI)
  next
    case (2 c)
    then show ?thesis
      using inv [of "add_task_to c r (k_reg K1)"] reg_add_kwf [of K1 r "add_task_to c r (k_reg K1)"]
        kwf_frame [of K1 "K1\<lparr> k_reg := add_task_to c r (k_reg K1) \<rparr>"] add_task_to_queued [OF reg, of c r] F
      by (auto simp: kwf_def subset_insertI)
  next
    case (3 R)
    then show ?thesis using inv [of R] reg_add_kwf [of K1 r R] add_task_queued [OF reg 3(1)] F by auto
  qed
qed

lemma task_switch_frame:
  "k_reg (snd (task_switch n c sp K)) = k_reg K \<and> k_next_ref (snd (task_switch n c sp K)) = k_next_ref K \<and>
   k_next_id (snd (task_switch n c sp K)) = k_next_id K \<and>
   task_id (k_heap (snd (task_switch n c sp K)) t) = task_id (k_heap K t) \<and>
   runstate (k_heap (snd (task_switch n c sp K)) t) = runstate (k_heap K t)"
  by (simp add: task_switch_def Let_def split: option.split)

lemma schedule_kinv:
  assumes K: "kinv K" and "schedule e cpu now sp K = Some (r, K')"
  shows "kinv K'"
proof -
  have wf: "kwf K" "reg_wf (k_reg K)" using K by (simp_all add: kinv_def kwf_def)
  have "K' = K \<or> (\<exists>a n s. local_sched (k_reg K) cpu = Some a \<and>
      dyn_next (k_heap K) (get_my_current_task_id cpu K) now (sched_at (k_reg K) a) = (n, s) \<and>
      K' = snd (task_switch n cpu sp (K\<lparr> k_reg := upd_sched a s (k_reg K) \<rparr>)))"
    using assms(2) by (auto simp: schedule_def split: if_splits option.splits prod.splits)
  then show ?thesis
  proof (elim disjE exE conjE)
    fix a n s
    assume a: "local_sched (k_reg K) cpu = Some a"
      and s: "dyn_next (k_heap K) (get_my_current_task_id cpu K) now (sched_at (k_reg K) a) = (n, s)"
      and K': "K' = snd (task_switch n cpu sp (K\<lparr> k_reg := upd_sched a s (k_reg K) \<rparr>))"
    have ca: "(cpu, a) \<in> set (schedulers (k_reg K))" using a reg_wf_local [OF wf(2)] by simp
    have "mset (dyn_tasks s) = mset (dyn_tasks (sched_at (k_reg K) a))"
      using dyn.next_tasks [of "k_heap K" "get_my_current_task_id cpu K" now "sched_at (k_reg K) a"] s by simp
    then have m: "mset (all_queued (upd_sched a s (k_reg K))) = mset (all_queued (k_reg K))"
      using all_queued_upd [OF _ ca] wf(2) by (metis reg_wf_def)
    have q: "set (all_queued (k_reg K')) = set (all_queued (k_reg K))" "distinct (all_queued (k_reg K'))"
      using mset_eq_setD [OF m] mset_eq_imp_distinct_iff [OF m] wf(1) by (simp_all add: K' task_switch_frame kwf_def)
    have "kwf K'" by (rule kwf_frame [OF wf(1)]) (use q wf in \<open>simp_all add: K' task_switch_frame kwf_def\<close>)
    then show ?thesis using K q by (simp add: kinv_def K' task_switch_frame)
  qed (use K in simp)
qed

lemma policy_kinv:
  assumes K: "kinv K" and s: "dyn_tasks s = []"
  shows "kinv (K\<lparr> k_reg := set_policy cpu cpu s (k_reg K) \<rparr>)"
proof -
  have wf: "kwf K" "reg_wf (k_reg K)" using K by (simp_all add: kinv_def kwf_def)
  have m: "mset (all_queued (set_policy cpu cpu s (k_reg K))) = mset (all_queued (k_reg K))"
    using set_policy_tasks [OF wf(2), of cpu s] s by simp
  have "kwf (K\<lparr> k_reg := set_policy cpu cpu s (k_reg K) \<rparr>)"
    using mset_eq_setD [OF m] mset_eq_imp_distinct_iff [OF m] wf set_policy_wf [OF wf(2)]
    by (intro kwf_frame [OF wf(1)]) (simp_all add: kwf_def)
  then show ?thesis using K mset_eq_setD [OF m] by (simp add: kinv_def)
qed

lemma kstep_kinv: "kstep K K' \<Longrightarrow> kinv K \<Longrightarrow> kinv K'"
proof (induction rule: kstep.induct)
  case (exit t K r K')
  then show ?case using exit_kinv [of K t "Completed 0"] by (simp add: mark_as_exited_def)
qed (auto intro: unblock_kinv block_kinv kill_kinv cleanup_kinv spawn_kinv schedule_kinv policy_kinv)


definition kstate_ex :: KState where
  "kstate_ex = \<lparr> k_heap = ep_ex_heap, k_list = [], k_current = (\<lambda>c. Some (8 + c)), k_reg = reg_ex,
     k_next_id = 10, k_next_ref = 10 \<rparr>"

lemma kinv_kstate_ex: "kinv kstate_ex"
  by (auto simp: kinv_def kwf_def kstate_ex_def reg_ex_def reg_wf_def all_queued_def ep_ex_def ep_tasks_def
      pr_tasks_def ep_ex_heap_def Task_new_def inj_on_def split: if_splits)


section \<open>A task spawned as blocked\<close>

text \<open>
  The guarantee excludes tasks spawned as blocked for a reason: \<open>spawn\<close> queues such a task
  although it is blocked, so the first \<open>unblock\<close> queues it a second time.
\<close>

theorem spawn_blocked_queued_twice:
  assumes K: "kinv K" and i: "k_next_id K < 2 ^ 64 - 1"
    and sp: "spawn name sp True False None K = Some (t, K1)" and un: "unblock t K1 = Some (r, K2)"
  shows "count (mset (all_queued (k_reg K2))) t = 2"
proof -
  let ?task = "(Task_new (k_next_id K) name)\<lparr> runstate := Blocked, saved_sp := sp, is_an_idle_task := False \<rparr>"
  obtain r' K0 where f: "(r', K0) = from_task ?task (snd (get_next_task_id K))" by (metis surj_pair)
  have "task_id ?task = k_next_id K" by (simp add: Task_new_def)
  note F = from_task_kwf [OF K i this f]
  have a: "sched_add r' K0 = Some K1" and t: "t = r'"
    using sp f by (auto simp: spawn_def Let_def get_next_task_id_def block_initing_task_def
        compare_exchange_def Task_new_def split: prod.splits)
  obtain R1 where R1: "add_task t (k_reg K0) = Some R1" "K1 = K0\<lparr> k_reg := R1 \<rparr>"
    using a t by (auto simp: sched_add_def)
  have "reg_wf (k_reg K0)" using conjunct1 [OF F] by (simp only: kwf_def)
  note A = add_task_queued [OF this R1(1)]
  have "runstate (k_heap K1 t) = Blocked" using R1(2) F t by (simp add: Task_new_def)
  then obtain R2 where R2: "add_task t R1 = Some R2" "k_reg K2 = R2"
    using un R1(2) by (auto simp: unblock_def cas_runstate_simp sched_add_def)
  have "t \<notin> set (all_queued (k_reg K0))" using F t by blast
  then have "count (mset (all_queued (k_reg K0))) t = 0" by (simp add: count_mset_0_iff)
  then show ?thesis using A(1) add_task_queued(1) [OF A(2) R2(1)] R2(2) by simp
qed

theorem spawn_blocked_queued_twice_witness:
  "\<exists>K1 r K2. spawn ''b'' 4096 True False None kstate_ex = Some (10, K1) \<and> unblock 10 K1 = Some (r, K2) \<and>
     count (mset (all_queued (k_reg K2))) 10 = 2"
proof -
  have "\<exists>K1. spawn ''b'' 4096 True False None kstate_ex = Some (10, K1) \<and> (\<exists>r K2. unblock 10 K1 = Some (r, K2))"
    by (simp add: spawn_def kstate_ex_def get_next_task_id_def block_initing_task_def compare_exchange_def
        Task_new_def from_task_def sched_add_def add_task_def reg_ex_def ep_ex_def ep_busyness_def pr_busyness_def
        unblock_def cas_runstate_def set_runstate_def pr_add_def upd_sched_def)
  then obtain K1 r K2 where 1: "spawn ''b'' 4096 True False None kstate_ex = Some (10, K1)"
    and 2: "unblock 10 K1 = Some (r, K2)" by blast
  have "k_next_id kstate_ex < 2 ^ 64 - 1" by (simp add: kstate_ex_def)
  from spawn_blocked_queued_twice [OF kinv_kstate_ex this 1 2] 1 2 show ?thesis by blast
qed

section \<open>Context switches\<close>


definition kstate_run :: KState where
  "kstate_run = kstate_ex\<lparr> k_heap := (\<lambda>i. (Task_new i ''t'')\<lparr> saved_sp := 4096 \<rparr>) \<rparr>"

lemma kinv_kstate_run: "kinv kstate_run"
  by (auto simp: kinv_def kwf_def kstate_run_def kstate_ex_def reg_ex_def reg_wf_def all_queued_def ep_ex_def
      ep_tasks_def pr_tasks_def Task_new_def inj_on_def split: if_splits)


end
