(* ===== verification/Memory_Structs.thy ===== *)
theory Memory_Structs
  imports Prelude
begin

text \<open>
  Addresses, pages, frames and ranges of them (\<open>kernel/memory_structs/src/lib.rs\<close>,
  \<open>libs/range_inclusive/src/lib.rs\<close>, the constants of \<open>kernel/kernel_config/src/memory.rs\<close>), for
  x86\_64.  The macros that define the virtual and the physical types are instantiated
  through an argument: the address kind selects the canonical form, the page size is the
  phantom parameter \<open>P\<close>.  A page or frame is its number in units of 4 KiB.  All quantities are 64-bit
  words, with the wrapping or saturating arithmetic of the code.
\<close>

unbundle bit_operations_syntax

section \<open>Constants\<close>

definition PAGE_SHIFT :: nat where "PAGE_SHIFT = 12"
definition PAGE_SIZE :: usize where "PAGE_SIZE = push_bit PAGE_SHIFT 1"
definition BYTES_PER_ADDR :: usize where "BYTES_PER_ADDR = 8"
definition ENTRIES_PER_PAGE_TABLE :: usize where "ENTRIES_PER_PAGE_TABLE = PAGE_SIZE div BYTES_PER_ADDR"
definition canonicalize :: "usize \<Rightarrow> usize" where "canonicalize addr = addr OR 0xFFFF000000000000"
definition MAX_VIRTUAL_ADDRESS :: usize where "MAX_VIRTUAL_ADDRESS = canonicalize (- 1)"
definition MAX_PAGE_NUMBER :: usize where "MAX_PAGE_NUMBER = MAX_VIRTUAL_ADDRESS div PAGE_SIZE"

datatype PageSize = Page4K | Page2M | Page1G

fun NUM_4K_PAGES :: "PageSize \<Rightarrow> usize" where
  "NUM_4K_PAGES Page4K = 1"
| "NUM_4K_PAGES Page2M = 1 * ENTRIES_PER_PAGE_TABLE"
| "NUM_4K_PAGES Page1G = 1 * ENTRIES_PER_PAGE_TABLE * ENTRIES_PER_PAGE_TABLE"

fun SIZE_IN_BYTES :: "PageSize \<Rightarrow> usize" where
  "SIZE_IN_BYTES Page4K = PAGE_SIZE"
| "SIZE_IN_BYTES p = NUM_4K_PAGES p * PAGE_SIZE"

lemma memory_constants [simp]:
  "PAGE_SIZE = 4096" "ENTRIES_PER_PAGE_TABLE = 512" "MAX_VIRTUAL_ADDRESS = - 1"
  "MAX_PAGE_NUMBER = 0xFFFFFFFFFFFFF"
  by (simp_all add: PAGE_SIZE_def PAGE_SHIFT_def ENTRIES_PER_PAGE_TABLE_def BYTES_PER_ADDR_def
      MAX_VIRTUAL_ADDRESS_def canonicalize_def MAX_PAGE_NUMBER_def push_bit_eq_mult)

section \<open>Addresses\<close>

datatype AddrKind = Virtual | Physical

definition CANONICAL_VIRT_ADDR_MASK :: usize where "CANONICAL_VIRT_ADDR_MASK = 0x00007FFFFFFFFFFF"
definition CANONICAL_PHYS_ADDR_MASK :: usize where "CANONICAL_PHYS_ADDR_MASK = 0x000FFFFFFFFFFFFF"

definition is_canonical_virtual_address :: "usize \<Rightarrow> bool" where
  "is_canonical_virtual_address virt_addr =
     (let upper17 = virt_addr AND NOT CANONICAL_VIRT_ADDR_MASK
      in upper17 = 0 \<or> upper17 = NOT CANONICAL_VIRT_ADDR_MASK)"

definition canonicalize_virtual_address :: "usize \<Rightarrow> usize" where
  "canonicalize_virtual_address virt_addr = signed_drop_bit 16 (push_bit 16 virt_addr)"

definition is_canonical_physical_address :: "usize \<Rightarrow> bool" where
  "is_canonical_physical_address phys_addr \<longleftrightarrow> phys_addr AND NOT CANONICAL_PHYS_ADDR_MASK = 0"

definition canonicalize_physical_address :: "usize \<Rightarrow> usize" where
  "canonicalize_physical_address phys_addr = phys_addr AND CANONICAL_PHYS_ADDR_MASK"

fun is_canonical :: "AddrKind \<Rightarrow> usize \<Rightarrow> bool" where
  "is_canonical Virtual a = is_canonical_virtual_address a"
| "is_canonical Physical a = is_canonical_physical_address a"

text \<open>\<open>new\<close>, \<open>new_canonical\<close> and the saturating arithmetic of both address types.\<close>

fun new_canonical :: "AddrKind \<Rightarrow> usize \<Rightarrow> usize" where
  "new_canonical Virtual a = canonicalize_virtual_address a"
| "new_canonical Physical a = canonicalize_physical_address a"

definition addr_new :: "AddrKind \<Rightarrow> usize \<Rightarrow> usize option" where
  "addr_new k a = (if is_canonical k a then Some a else None)"

definition page_offset :: "usize \<Rightarrow> usize" where
  "page_offset a = a AND (SIZE_IN_BYTES Page4K - 1)"

definition addr_add :: "AddrKind \<Rightarrow> usize \<Rightarrow> usize \<Rightarrow> usize" where
  "addr_add k a rhs = new_canonical k (sat_add a rhs)"

definition addr_sub :: "AddrKind \<Rightarrow> usize \<Rightarrow> usize \<Rightarrow> usize" where
  "addr_sub k a rhs = new_canonical k (sat_sub a rhs)"

section \<open>Pages and frames\<close>

text \<open>\<open>containing_address\<close> and its 2 MiB and 1 GiB variants.\<close>

definition containing_address :: "usize \<Rightarrow> usize" where
  "containing_address a = a div SIZE_IN_BYTES Page4K"

definition containing_address_2mb :: "usize \<Rightarrow> usize" where
  "containing_address_2mb a = a div SIZE_IN_BYTES Page2M * NUM_4K_PAGES Page2M"

definition containing_address_1gb :: "usize \<Rightarrow> usize" where
  "containing_address_1gb a = a div SIZE_IN_BYTES Page1G * NUM_4K_PAGES Page1G"

definition start_address :: "AddrKind \<Rightarrow> usize \<Rightarrow> usize" where
  "start_address k n = new_canonical k (n * SIZE_IN_BYTES Page4K)"

text \<open>
  \<open>next_multiple_of\<close>: a zero alignment is a division by zero and panics (\<open>None\<close>); otherwise the
  sum wraps.
\<close>

definition align_up :: "usize \<Rightarrow> usize \<Rightarrow> usize option" where
  "align_up n alignment_4k_pages =
     (if alignment_4k_pages = 0 then None
      else let r = n mod alignment_4k_pages
           in Some (if r = 0 then n else n + (alignment_4k_pages - r)))"

definition page_add :: "PageSize \<Rightarrow> usize \<Rightarrow> usize \<Rightarrow> usize" where
  "page_add p n rhs = min MAX_PAGE_NUMBER (sat_add n (sat_mul rhs (NUM_4K_PAGES p)))"

definition page_sub :: "PageSize \<Rightarrow> usize \<Rightarrow> usize \<Rightarrow> usize" where
  "page_sub p n rhs = sat_sub n (sat_mul rhs (NUM_4K_PAGES p))"

text \<open>\<open>Step\<close>: the checked successor used by the iterators.\<close>

definition forward_checked :: "PageSize \<Rightarrow> usize \<Rightarrow> usize \<Rightarrow> usize option" where
  "forward_checked p start n =
     (let c = n * NUM_4K_PAGES p in if unat start + unat c < 2 ^ 64 then Some (start + c) else None)"

definition backward_checked :: "PageSize \<Rightarrow> usize \<Rightarrow> usize \<Rightarrow> usize option" where
  "backward_checked p start n =
     (let c = n * NUM_4K_PAGES p in if c \<le> start then Some (start - c) else None)"

definition steps_between :: "PageSize \<Rightarrow> usize \<Rightarrow> usize \<Rightarrow> usize option" where
  "steps_between p start stop = (if start \<le> stop then Some ((stop - start) div NUM_4K_PAGES p) else None)"

text \<open>\<open>TryFrom\<close> a 4 KiB page to a huge one.\<close>

definition try_from_4k :: "PageSize \<Rightarrow> usize \<Rightarrow> usize option" where
  "try_from_4k p n = (if n mod NUM_4K_PAGES p = 0 then Some n else None)"

definition p4_index :: "usize \<Rightarrow> usize" where "p4_index n = drop_bit 27 n AND 0x1FF"
definition p3_index :: "usize \<Rightarrow> usize" where "p3_index n = drop_bit 18 n AND 0x1FF"
definition p2_index :: "usize \<Rightarrow> usize" where "p2_index n = drop_bit 9 n AND 0x1FF"
definition p1_index :: "usize \<Rightarrow> usize" where "p1_index n = n AND 0x1FF"

section \<open>Ranges\<close>

record RangeInclusive =
  range_start :: usize
  range_end :: usize

definition range_new :: "usize \<Rightarrow> usize \<Rightarrow> RangeInclusive" where
  "range_new s e = \<lparr> range_start = s, range_end = e \<rparr>"

definition range_empty :: RangeInclusive where
  "range_empty = range_new 1 0"

definition is_empty :: "RangeInclusive \<Rightarrow> bool" where
  "is_empty r \<longleftrightarrow> \<not> range_start r \<le> range_end r"

definition range_contains :: "RangeInclusive \<Rightarrow> usize \<Rightarrow> bool" where
  "range_contains r item \<longleftrightarrow> range_start r \<le> item \<and> item \<le> range_end r"

definition from_addr :: "AddrKind \<Rightarrow> usize \<Rightarrow> usize \<Rightarrow> RangeInclusive" where
  "from_addr k starting_addr size_in_bytes =
     (if size_in_bytes = 0 then range_empty
      else range_new (containing_address starting_addr)
             (containing_address (new_canonical k (starting_addr + (size_in_bytes - 1)))))"

definition range_start_address :: "AddrKind \<Rightarrow> RangeInclusive \<Rightarrow> usize" where
  "range_start_address k r = start_address k (range_start r)"

definition size_in_pages :: "PageSize \<Rightarrow> RangeInclusive \<Rightarrow> usize" where
  "size_in_pages p r =
     sat_sub (range_end r + 1 * NUM_4K_PAGES p) (range_start r) div NUM_4K_PAGES p"

definition size_in_bytes :: "PageSize \<Rightarrow> RangeInclusive \<Rightarrow> usize" where
  "size_in_bytes p r = size_in_pages p r * SIZE_IN_BYTES p"

definition contains_address :: "RangeInclusive \<Rightarrow> usize \<Rightarrow> bool" where
  "contains_address r addr =
     (let c = containing_address addr in range_start r \<le> c \<and> c \<le> range_end r)"

definition offset_of_address :: "AddrKind \<Rightarrow> RangeInclusive \<Rightarrow> usize \<Rightarrow> usize option" where
  "offset_of_address k r addr =
     (if contains_address r addr then Some (addr - range_start_address k r) else None)"

definition address_at_offset :: "AddrKind \<Rightarrow> PageSize \<Rightarrow> RangeInclusive \<Rightarrow> usize \<Rightarrow> usize option" where
  "address_at_offset k p r offset =
     (if offset < size_in_bytes p r then Some (new_canonical k (range_start_address k r + offset)) else None)"

definition to_extended :: "RangeInclusive \<Rightarrow> usize \<Rightarrow> RangeInclusive" where
  "to_extended r to_include =
     (if is_empty r then range_new to_include to_include
      else range_new (min (range_start r) to_include) (max (range_end r) to_include))"

definition contains_range :: "RangeInclusive \<Rightarrow> RangeInclusive \<Rightarrow> bool" where
  "contains_range r other \<longleftrightarrow>
     \<not> is_empty other \<and> range_start r \<le> range_start other \<and> range_end other \<le> range_end r"

definition overlap :: "RangeInclusive \<Rightarrow> RangeInclusive \<Rightarrow> RangeInclusive option" where
  "overlap r other =
     (let starts = max (range_start r) (range_start other); ends = min (range_end r) (range_end other)
      in if starts \<le> ends then Some (range_new starts ends) else None)"

definition into_4k :: "PageSize \<Rightarrow> RangeInclusive \<Rightarrow> RangeInclusive" where
  "into_4k p r = range_new (range_start r) (range_end r + 1 * NUM_4K_PAGES p - 1)"

definition range_try_from :: "PageSize \<Rightarrow> RangeInclusive \<Rightarrow> RangeInclusive option" where
  "range_try_from p r =
     (case try_from_4k p (page_add Page4K (range_end r) 1) of
        Some aligned_upper_bound \<Rightarrow>
          (case try_from_4k p (range_start r) of
             Some s \<Rightarrow> Some (range_new s (page_sub p aligned_upper_bound 1))
           | None \<Rightarrow> None)
      | None \<Rightarrow> None)"

text \<open>
  \<open>RangeInclusiveIterator\<close>: \<open>next\<close> gives \<open>None\<close> for the panic of \<open>expect\<close>, \<open>Some None\<close> at the end.
\<close>

definition iter_next :: "PageSize \<Rightarrow> RangeInclusive \<Rightarrow> (usize \<times> RangeInclusive) option option" where
  "iter_next p it =
     (if range_start it > range_end it then Some None
      else case forward_checked p (range_start it) 1 of
             None \<Rightarrow> None
           | Some n \<Rightarrow> Some (Some (range_start it, it\<lparr> range_start := n \<rparr>)))"

definition iter_next_back :: "PageSize \<Rightarrow> RangeInclusive \<Rightarrow> (usize \<times> RangeInclusive) option option" where
  "iter_next_back p it =
     (if range_start it > range_end it then Some None
      else case backward_checked p (range_end it) 1 of
             None \<Rightarrow> None
           | Some n \<Rightarrow> Some (Some (range_end it, it\<lparr> range_end := n \<rparr>)))"

definition iter_len :: "PageSize \<Rightarrow> RangeInclusive \<Rightarrow> usize" where
  "iter_len p it = (case steps_between p (range_start it) (range_end it) of Some x \<Rightarrow> x + 1 | None \<Rightarrow> 0)"

section \<open>Canonical addresses\<close>

lemma bit_canonicalize_virtual:
  "bit (canonicalize_virtual_address a) n \<longleftrightarrow> n < 64 \<and> bit a (if n < 48 then n else 47)"
  by (auto simp: canonicalize_virtual_address_def bit_signed_drop_bit_iff bit_push_bit_iff bit_imp_le_length)

lemma bit_virt_mask: "bit CANONICAL_VIRT_ADDR_MASK n \<longleftrightarrow> n < 47"
  and bit_phys_mask: "bit CANONICAL_PHYS_ADDR_MASK n \<longleftrightarrow> n < 52"
proof -
  have "CANONICAL_VIRT_ADDR_MASK = mask 47" "CANONICAL_PHYS_ADDR_MASK = mask 52"
    by (simp_all add: CANONICAL_VIRT_ADDR_MASK_def CANONICAL_PHYS_ADDR_MASK_def mask_eq_exp_minus_1)
  note m = this
  show "bit CANONICAL_VIRT_ADDR_MASK n \<longleftrightarrow> n < 47" "bit CANONICAL_PHYS_ADDR_MASK n \<longleftrightarrow> n < 52"
    unfolding m bit_mask_iff by auto
qed

lemma is_canonical_virtual_bits:
  "is_canonical_virtual_address a \<longleftrightarrow> (\<forall>n. 47 \<le> n \<and> n < 64 \<longrightarrow> bit a n = bit a 47)"
proof -
  have z: "a AND NOT CANONICAL_VIRT_ADDR_MASK = 0 \<longleftrightarrow> (\<forall>n. 47 \<le> n \<and> n < 64 \<longrightarrow> \<not> bit a n)"
    by (auto simp: word_eq_0_iff_bits bit_and_iff bit_not_iff bit_virt_mask not_less dest: bit_imp_le_length)
  have o: "a AND NOT CANONICAL_VIRT_ADDR_MASK = NOT CANONICAL_VIRT_ADDR_MASK \<longleftrightarrow>
      (\<forall>n. 47 \<le> n \<and> n < 64 \<longrightarrow> bit a n)"
    by (auto simp: bit_eq_iff bit_and_iff bit_not_iff bit_virt_mask not_less dest: bit_imp_le_length)
  show ?thesis unfolding is_canonical_virtual_address_def Let_def z o by auto
qed

lemma canonicalize_virtual_canonical: "is_canonical_virtual_address (canonicalize_virtual_address a)"
proof -
  have "bit (canonicalize_virtual_address a) n = bit (canonicalize_virtual_address a) 47"
    if "47 \<le> n" "n < 64" for n
    using that by (cases "n = 47") (simp_all add: bit_canonicalize_virtual)
  then show ?thesis unfolding is_canonical_virtual_bits by blast
qed

lemma canonical_virtual_iff: "is_canonical_virtual_address a \<longleftrightarrow> canonicalize_virtual_address a = a"
proof
  assume c: "is_canonical_virtual_address a"
  show "canonicalize_virtual_address a = a"
  proof (rule bit_word_eqI)
    fix n assume n: "n < LENGTH(64)"
    have "n < 64" using n by simp
    then have "47 \<le> n \<Longrightarrow> bit a 47 = bit a n" using c unfolding is_canonical_virtual_bits by blast
    then show "bit (canonicalize_virtual_address a) n = bit a n"
      using n by (cases "n < 48") (simp_all add: bit_canonicalize_virtual)
  qed
next
  assume "canonicalize_virtual_address a = a"
  then show "is_canonical_virtual_address a" using canonicalize_virtual_canonical [of a] by simp
qed

lemma canonical_physical_iff: "is_canonical_physical_address a \<longleftrightarrow> canonicalize_physical_address a = a"
  by (auto simp: is_canonical_physical_address_def canonicalize_physical_address_def bit_eq_iff
      bit_and_iff bit_not_iff bit_phys_mask dest: bit_imp_le_length)

lemma canonical_iff: "is_canonical k a \<longleftrightarrow> new_canonical k a = a"
  by (cases k) (simp_all add: canonical_virtual_iff canonical_physical_iff)

lemma new_canonical_canonical: "is_canonical k (new_canonical k a)"
proof (cases k)
  case Virtual
  then show ?thesis by (simp add: canonicalize_virtual_canonical)
next
  case Physical
  then show ?thesis
    by (simp add: canonical_physical_iff) (simp add: canonicalize_physical_address_def and.assoc)
qed

section \<open>Addresses and pages\<close>

lemma containing_address_drop: "containing_address a = drop_bit 12 a"
  by (simp add: containing_address_def drop_bit_eq_div)

lemma page_times: "(n :: usize) * 4096 = push_bit 12 n"
  by (simp add: push_bit_eq_mult)

lemma bit_page_offset: "bit (page_offset a) n \<longleftrightarrow> n < 12 \<and> bit a n"
proof -
  have "page_offset a = a AND mask 12" by (simp add: page_offset_def mask_eq_exp_minus_1)
  then show ?thesis by (auto simp: bit_and_iff bit_mask_iff dest: bit_imp_le_length)
qed

lemma bit_start_of_page: "bit (containing_address a * 4096) n \<longleftrightarrow> 12 \<le> n \<and> bit a n"
  unfolding page_times containing_address_drop
  by (auto simp: bit_push_bit_iff bit_drop_bit_eq dest: bit_imp_le_length)

lemma start_of_page_canonical: "is_canonical k a \<Longrightarrow> is_canonical k (containing_address a * 4096)"
proof (cases k)
  case Virtual
  assume "is_canonical k a"
  then have c: "47 \<le> n \<Longrightarrow> n < 64 \<Longrightarrow> bit a n = bit a 47" for n
    unfolding Virtual is_canonical.simps is_canonical_virtual_bits by blast
  have "bit (containing_address a * 4096) n = bit (containing_address a * 4096) 47" if "47 \<le> n" "n < 64" for n
    using that c [OF that] by (simp add: bit_start_of_page)
  then show ?thesis unfolding Virtual is_canonical.simps is_canonical_virtual_bits by blast
next
  case Physical
  assume "is_canonical k a"
  then have "bit a n \<Longrightarrow> n < 52" for n
    using Physical by (simp add: canonical_physical_iff canonicalize_physical_address_def)
      (metis bit_and_iff bit_phys_mask)
  then show ?thesis using Physical
    by (simp add: canonical_physical_iff canonicalize_physical_address_def)
      (auto simp: bit_eq_iff bit_and_iff bit_phys_mask bit_start_of_page)
qed

lemma start_address_containing:
  "is_canonical k a \<Longrightarrow> start_address k (containing_address a) = containing_address a * 4096"
  using start_of_page_canonical [of k a] by (simp add: start_address_def canonical_iff)

lemma page_split: "containing_address a * 4096 OR page_offset a = a"
  by (rule bit_word_eqI) (auto simp: bit_or_iff bit_start_of_page bit_page_offset)

lemma page_split_add: "containing_address a * 4096 + page_offset a = a"
proof -
  have "containing_address a * 4096 AND page_offset a = 0"
    by (auto simp: word_eq_0_iff_bits bit_and_iff bit_start_of_page bit_page_offset)
  from disjunctive_add_eq_or [OF this] show ?thesis by (simp add: page_split)
qed

lemma bit_9: "bit (0x1FF :: usize) n \<longleftrightarrow> n < 9"
proof -
  have m: "(0x1FF :: usize) = mask 9" by (simp add: mask_eq_exp_minus_1)
  show ?thesis unfolding m bit_mask_iff by auto
qed

lemma bit_p_index:
  "bit (p4_index m) n \<longleftrightarrow> n < 9 \<and> bit m (27 + n)" "bit (p3_index m) n \<longleftrightarrow> n < 9 \<and> bit m (18 + n)"
  "bit (p2_index m) n \<longleftrightarrow> n < 9 \<and> bit m (9 + n)" "bit (p1_index m) n \<longleftrightarrow> n < 9 \<and> bit m n"
  by (auto simp only: p4_index_def p3_index_def p2_index_def p1_index_def bit_and_iff bit_9 bit_drop_bit_eq comp_def)

text \<open>
  C30: The page-table walk covers the address.  A canonical virtual address is determined by
  the four 9-bit table indices of its page and its offset in the page: putting them back in
  place and sign-extending gives the address.
\<close>

theorem page_indices_determine_address:
  assumes "is_canonical Virtual a"
  shows "new_canonical Virtual
      (push_bit 39 (p4_index (containing_address a)) OR push_bit 30 (p3_index (containing_address a)) OR
       push_bit 21 (p2_index (containing_address a)) OR push_bit 12 (p1_index (containing_address a)) OR
       page_offset a) = a"
proof -
  let ?w = "push_bit 39 (p4_index (containing_address a)) OR push_bit 30 (p3_index (containing_address a)) OR
       push_bit 21 (p2_index (containing_address a)) OR push_bit 12 (p1_index (containing_address a)) OR
       page_offset a"
  note B = bit_or_iff bit_push_bit_iff bit_p_index containing_address_drop bit_drop_bit_eq bit_page_offset
  have low: "bit ?w n \<longleftrightarrow> bit a n" if n: "n < 48" for n
  proof -
    consider "n < 12" | "12 \<le> n" "n < 21" | "21 \<le> n" "n < 30" | "30 \<le> n" "n < 39" | "39 \<le> n" by linarith
    then show ?thesis by cases (use n in \<open>auto simp: B\<close>)
  qed
  have "canonicalize_virtual_address ?w = canonicalize_virtual_address a"
    by (rule bit_word_eqI) (simp only: bit_canonicalize_virtual, auto simp only: low split: if_splits)
  then show ?thesis using assms by (simp add: canonical_virtual_iff)
qed

theorem page_indices_determine_address_witness:
  "new_canonical Virtual
      (push_bit 39 (p4_index (containing_address 0xFFFFFE8000401234)) OR
       push_bit 30 (p3_index (containing_address 0xFFFFFE8000401234)) OR
       push_bit 21 (p2_index (containing_address 0xFFFFFE8000401234)) OR
       push_bit 12 (p1_index (containing_address 0xFFFFFE8000401234)) OR
       page_offset 0xFFFFFE8000401234) = 0xFFFFFE8000401234"
  by (rule page_indices_determine_address)
    (simp add: is_canonical_virtual_address_def CANONICAL_VIRT_ADDR_MASK_def)

section \<open>Ranges as sets of page numbers\<close>

definition range_pages :: "RangeInclusive \<Rightarrow> usize set" where
  "range_pages r = {n. range_start r \<le> n \<and> n \<le> range_end r}"

lemma range_new_simps [simp]: "range_start (range_new s e) = s" "range_end (range_new s e) = e"
  by (simp_all add: range_new_def)

lemma range_contains_pages: "range_contains r n \<longleftrightarrow> n \<in> range_pages r"
  by (simp add: range_contains_def range_pages_def)

lemma is_empty_pages: "is_empty r \<longleftrightarrow> range_pages r = {}"
proof
  assume "range_pages r = {}"
  then have "range_start r \<notin> range_pages r" by simp
  then show "is_empty r" by (simp add: range_pages_def is_empty_def)
qed (auto simp: is_empty_def range_pages_def)

lemma range_empty_pages [simp]: "range_pages range_empty = {}"
  by (auto simp: range_empty_def range_pages_def)

lemma contains_range_pages: "contains_range r s \<longleftrightarrow> range_pages s \<noteq> {} \<and> range_pages s \<subseteq> range_pages r"
proof (cases "is_empty s")
  case True
  then show ?thesis by (simp add: contains_range_def flip: is_empty_pages)
next
  case False
  then have "range_start s \<in> range_pages s" "range_end s \<in> range_pages s"
    by (simp_all add: is_empty_def range_pages_def)
  moreover have "range_pages s \<subseteq> range_pages r"
    if "range_start r \<le> range_start s" "range_end s \<le> range_end r"
    using that by (auto simp: range_pages_def)
  ultimately show ?thesis using False
    by (auto simp: contains_range_def is_empty_pages) (auto simp: range_pages_def)
qed

lemma overlap_pages:
  "(case overlap r s of None \<Rightarrow> {} | Some x \<Rightarrow> range_pages x) = range_pages r \<inter> range_pages s"
proof -
  let ?x = "range_new (max (range_start r) (range_start s)) (min (range_end r) (range_end s))"
  have "range_pages ?x = range_pages r \<inter> range_pages s" by (auto simp: range_pages_def)
  moreover have "is_empty ?x \<Longrightarrow> range_pages ?x = {}" by (simp add: is_empty_pages)
  ultimately show ?thesis by (simp add: overlap_def Let_def is_empty_def)
qed

lemma overlap_None: "overlap r s = None \<longleftrightarrow> range_pages r \<inter> range_pages s = {}"
proof (cases "overlap r s")
  case (Some x)
  then have "\<not> is_empty x" by (auto simp: overlap_def Let_def is_empty_def split: if_splits)
  then show ?thesis using overlap_pages [of r s] Some by (simp add: is_empty_pages)
qed (use overlap_pages [of r s] in simp)

lemma to_extended_upper: "insert n (range_pages r) \<subseteq> range_pages (to_extended r n)"
  by (auto simp: to_extended_def range_pages_def is_empty_def min_le_iff_disj le_max_iff_disj)

lemma to_extended_least:
  assumes "insert n (range_pages r) \<subseteq> range_pages s"
  shows "range_pages (to_extended r n) \<subseteq> range_pages s"
proof (cases "is_empty r")
  case True
  then show ?thesis using assms by (auto simp: to_extended_def range_pages_def)
next
  case False
  then have "range_start r \<in> range_pages r" "range_end r \<in> range_pages r"
    by (simp_all add: is_empty_def range_pages_def)
  then have "{n, range_start r, range_end r} \<subseteq> range_pages s" using assms by blast
  then show ?thesis using False
    by (auto simp: to_extended_def range_pages_def min_le_iff_disj le_max_iff_disj)
qed



text \<open>Converting a 4 KiB range to huge pages and back loses nothing.\<close>

lemma huge_range_roundtrip:
  assumes p: "p \<noteq> Page4K" and e: "range_end r \<le> MAX_PAGE_NUMBER" and t: "range_try_from p r = Some r'"
  shows "into_4k p r' = r"
proof -
  let ?N = "NUM_4K_PAGES p" and ?A = "range_end r + 1"
  have N: "?N = 512 \<or> ?N = 262144" using p by (cases p) simp_all
  have ne: "range_end r \<noteq> MAX_PAGE_NUMBER"
  proof
    assume max: "range_end r = MAX_PAGE_NUMBER"
    have "unat (MAX_PAGE_NUMBER mod ?N) \<noteq> 0" using N by (auto simp: unat_mod_distrib)
    then have "MAX_PAGE_NUMBER mod ?N \<noteq> 0" by (metis unat_0)
    then have "try_from_4k p MAX_PAGE_NUMBER = None" unfolding try_from_4k_def by presburger
    moreover have "page_add Page4K MAX_PAGE_NUMBER 1 = MAX_PAGE_NUMBER"
      by (simp add: page_add_def sat_add_def sat_mul_def min_def)
    ultimately show False using t unfolding range_try_from_def max by simp
  qed
  have E: "unat (range_end r) < 0xFFFFFFFFFFFFF"
    using order_neq_le_trans [OF ne e] by (simp add: word_less_nat_alt)
  then have A: "unat ?A = unat (range_end r) + 1" by (intro unat_add_one) simp
  have "sat_add (range_end r) (sat_mul 1 1) = ?A" using E by (simp add: sat_add_def sat_mul_def)
  moreover have "?A \<le> MAX_PAGE_NUMBER" using E A by (simp add: word_le_nat_alt)
  ultimately have "page_add Page4K (range_end r) 1 = ?A" by (simp only: page_add_def NUM_4K_PAGES.simps min_absorb2)
  then have m: "?A mod ?N = 0" and r': "r' = range_new (range_start r) (page_sub p ?A 1)"
    using t by (auto simp: range_try_from_def try_from_4k_def split: if_splits)
  have "unat ?A mod unat ?N = 0" using m by (simp flip: unat_mod_distrib)
  moreover have "unat ?A \<noteq> 0" using A by simp
  ultimately have "?N \<le> ?A" using mod_less by (fastforce simp: word_le_nat_alt)
  then have "page_sub p ?A 1 = ?A - ?N" using N by (auto simp: page_sub_def sat_mul_def sat_sub_def)
  then show ?thesis by (simp add: into_4k_def r' range_new_def)
qed

section \<open>Offsets\<close>

lemma unat_containing: "unat (containing_address a) = unat a div 4096"
  by (simp add: containing_address_def unat_div_distrib)

text \<open>
  Offsets in a range of 4 KiB pages or frames are exact: for a canonical address covered by the
  range, the offset is the distance from the range's first byte, it lies within the range's
  size in bytes, and the address at that offset is the address again.
\<close>

theorem offset_address_roundtrip:
  assumes c: "is_canonical k a" "is_canonical k b" and r: "range_start r = containing_address b"
    and e: "range_end r < MAX_PAGE_NUMBER" and m: "contains_address r a"
  shows "\<exists>off. offset_of_address k r a = Some off \<and> unat off = unat a - unat (range_start r) * 4096 \<and>
    unat off < unat (size_in_bytes Page4K r) \<and> address_at_offset k Page4K r off = Some a"
proof -
  let ?s = "unat (range_start r)" and ?e = "unat (range_end r)" and ?b = "range_start r * 4096"
  have start: "range_start_address k r = ?b"
    using start_address_containing [OF c(2)] by (simp add: range_start_address_def r)
  have m': "?s \<le> unat a div 4096" "unat a div 4096 \<le> ?e"
    using m by (simp_all add: contains_address_def Let_def word_le_nat_alt unat_containing)
  have e': "?e < 0xFFFFFFFFFFFFF" using e by (simp add: word_less_nat_alt)
  have s4: "unat ?b = ?s * 4096" using m' e' by (subst unat_mult_nowrap) simp_all
  have le: "?b \<le> a" using m'(1) by (simp add: word_le_nat_alt s4 less_eq_div_iff_mult_less_eq)
  have off: "unat (a - ?b) = unat a - ?s * 4096" using le by (simp add: unat_sub s4)
  have "unat (size_in_pages Page4K r) = ?e + 1 - ?s"
    using e' by (simp add: size_in_pages_def unat_add_one)
  then have size: "unat (size_in_bytes Page4K r) = (?e + 1 - ?s) * 4096"
    using e' unfolding size_in_bytes_def by (subst unat_mult_nowrap) simp_all
  have "unat a < (?e + 1) * 4096" using m'(2) by (simp add: div_less_iff_less_mult flip: less_Suc_eq_le)
  then have lt: "unat (a - ?b) < unat (size_in_bytes Page4K r)" using le unfolding off size
    by (simp add: diff_mult_distrib word_le_nat_alt s4)
  have "offset_of_address k r a = Some (a - ?b)" using m by (simp add: offset_of_address_def start)
  moreover have "address_at_offset k Page4K r (a - ?b) = Some a"
    using lt c(1) by (simp add: address_at_offset_def start word_less_nat_alt canonical_iff)
  ultimately show ?thesis using off lt by blast
qed

theorem offset_address_roundtrip_witness:
  "address_at_offset Physical Page4K (range_new 2 9) 0x1500 = Some 0x3500"
  using offset_address_roundtrip [of Physical "0x3500" "0x2000" "range_new 2 9"]
  by (simp add: is_canonical_physical_address_def CANONICAL_PHYS_ADDR_MASK_def containing_address_def
      contains_address_def offset_of_address_def range_start_address_def start_address_def
      canonicalize_physical_address_def)

end
