(* ===== verification/Page_Allocator.thy ===== *)
theory Page_Allocator
  imports Memory_Structs
begin

text \<open>
  The virtual-page allocator of \<open>kernel/page_allocator/src/lib.rs\<close> with its free list
  (\<open>static_array_rb_tree.rs\<close>): an array of 32 slots before the heap exists, an intrusive red-black
  tree afterwards.  The tree comes from the crate \<open>intrusive_collections\<close>, which is not part of the
  sources: it is the record of operations \<open>rb_api\<close> that the definitions take as an argument, and
  the predicate \<open>rb_spec\<close> states what its documentation promises of them.
\<close>

section \<open>The free list\<close>

type_synonym Chunk = RangeInclusive

definition Chunk_empty :: Chunk where "Chunk_empty = range_empty"

text \<open>
  The operations used: insertion, the two searches with an inclusive bound and the one without,
  and on a cursor reading, moving, removing (the cursor moves on) and replacing (an error
  returns the value).
\<close>

record ('t, 'c) rb_api =
  rb_new :: 't
  rb_insert :: "Chunk \<Rightarrow> 't \<Rightarrow> 't"
  rb_lower :: "usize \<Rightarrow> 't \<Rightarrow> 'c"
  rb_upper :: "usize \<Rightarrow> 't \<Rightarrow> 'c"
  rb_back :: "'t \<Rightarrow> 'c"
  rb_get :: "'c \<Rightarrow> 't \<Rightarrow> Chunk option"
  rb_next :: "'c \<Rightarrow> 't \<Rightarrow> 'c"
  rb_prev :: "'c \<Rightarrow> 't \<Rightarrow> 'c"
  rb_remove :: "'c \<Rightarrow> 't \<Rightarrow> Chunk option \<times> 'c \<times> 't"
  rb_replace :: "'c \<Rightarrow> Chunk \<Rightarrow> 't \<Rightarrow> (Chunk + Chunk) \<times> 't"

datatype 't Inner = Array "Chunk option list" | RBTree 't

datatype 'c ValueRefMut = RefArray nat | RefTree 'c

text \<open>\<open>StaticArrayRBTree::insert\<close>; \<open>Inl\<close> gives the value back when the array is full.\<close>

definition list_insert :: "('t, 'c) rb_api \<Rightarrow> Chunk \<Rightarrow> 't Inner \<Rightarrow> Chunk + 't Inner" where
  "list_insert A v L =
     (case L of
        Array arr \<Rightarrow>
          (case position (\<lambda>e. e = None) arr of
             Some i \<Rightarrow> Inr (Array (arr[i := Some v]))
           | None \<Rightarrow> Inl v)
      | RBTree t \<Rightarrow> Inr (RBTree (rb_insert A v t)))"

definition convert_to_heap_allocated :: "('t, 'c) rb_api \<Rightarrow> 't Inner \<Rightarrow> 't Inner" where
  "convert_to_heap_allocated A L =
     (case L of
        Array arr \<Rightarrow>
          RBTree (fold (\<lambda>elem tree. case elem of Some e \<Rightarrow> rb_insert A e tree | None \<Rightarrow> tree) arr (rb_new A))
      | RBTree t \<Rightarrow> RBTree t)"

definition value_remove :: "('t, 'c) rb_api \<Rightarrow> 'c ValueRefMut \<Rightarrow> 't Inner \<Rightarrow> Chunk option \<times> 't Inner" where
  "value_remove A r L =
     (case (r, L) of
        (RefArray i, Array arr) \<Rightarrow> (arr ! i, Array (arr[i := None]))
      | (RefTree c, RBTree t) \<Rightarrow> (case rb_remove A c t of (v, _, t') \<Rightarrow> (v, RBTree t'))
      | _ \<Rightarrow> (None, L))"

section \<open>Allocated pages\<close>

text \<open>\<open>AllocatedPages::merge\<close> and \<open>split\<close>; \<open>Inl\<close> returns the argument on failure.\<close>

definition ap_merge :: "PageSize \<Rightarrow> RangeInclusive \<Rightarrow> RangeInclusive \<Rightarrow> RangeInclusive + RangeInclusive" where
  "ap_merge p self ap =
     (if range_start ap \<noteq> page_add p (range_end self) 1 then Inl ap
      else Inr (range_new (range_start self) (range_end ap)))"

definition ap_split ::
  "PageSize \<Rightarrow> RangeInclusive \<Rightarrow> usize \<Rightarrow> RangeInclusive + RangeInclusive \<times> RangeInclusive" where
  "ap_split p self at_page =
     (let end_of_first = page_sub p at_page 1
      in if at_page = range_start self \<and> at_page \<le> range_end self
         then Inr (range_empty, range_new at_page (range_end self))
         else if at_page = page_add p (range_end self) 1 \<and> range_start self \<le> end_of_first
         then Inr (range_new (range_start self) (range_end self), range_empty)
         else if range_start self < at_page \<and> end_of_first \<le> range_end self
         then Inr (range_new (range_start self) end_of_first, range_new at_page (range_end self))
         else Inl self)"

text \<open>
  \<open>Drop for AllocatedPages\<close>: the pages go back to the free list, merged with one adjacent chunk
  if there is one.  A full array drops them (the code logs an error).
\<close>

definition ap_drop :: "('t, 'c) rb_api \<Rightarrow> PageSize \<Rightarrow> RangeInclusive \<Rightarrow> 't Inner \<Rightarrow> 't Inner" where
  "ap_drop A p pages L =
     (if size_in_pages p pages = 0 then L
      else let chunk = into_4k p pages
      in case L of
           Array _ \<Rightarrow> (case list_insert A chunk L of Inr L' \<Rightarrow> L' | Inl _ \<Rightarrow> L)
         | RBTree t \<Rightarrow>
             let c = rb_lower A (range_start chunk) t;
                 merged_next =
                   (case rb_get A c t of
                      Some nxt \<Rightarrow>
                        if page_add Page4K (range_end chunk) 1 = range_start nxt
                        then (case rb_replace A c (range_new (range_start chunk) (range_end nxt)) t of
                                (Inr _, t') \<Rightarrow> Some t'
                              | (Inl _, _) \<Rightarrow> None)
                        else None
                    | None \<Rightarrow> None);
                 merged_prev =
                   (case rb_get A (rb_prev A c t) t of
                      Some prv \<Rightarrow>
                        if page_add Page4K (range_end prv) 1 = range_start chunk
                        then (case rb_replace A (rb_prev A c t) (range_new (range_start prv) (range_end chunk)) t of
                                (Inr _, t') \<Rightarrow> Some t'
                              | (Inl _, _) \<Rightarrow> None)
                        else None
                    | None \<Rightarrow> None)
             in RBTree (case merged_next of
                          Some t' \<Rightarrow> t'
                        | None \<Rightarrow> (case merged_prev of Some t' \<Rightarrow> t' | None \<Rightarrow> rb_insert A chunk t)))"

text \<open>\<open>DeferredAllocAction\<close>: dropping it inserts its chunks; \<open>None\<close> is the panic of \<open>unwrap\<close>.\<close>

record DeferredAllocAction =
  free1 :: Chunk
  free2 :: Chunk

definition DeferredAllocAction_new :: "Chunk option \<Rightarrow> Chunk option \<Rightarrow> DeferredAllocAction" where
  "DeferredAllocAction_new f1 f2 =
     \<lparr> free1 = (case f1 of Some c \<Rightarrow> c | None \<Rightarrow> Chunk_empty),
       free2 = (case f2 of Some c \<Rightarrow> c | None \<Rightarrow> Chunk_empty) \<rparr>"

definition insert_nonempty :: "('t, 'c) rb_api \<Rightarrow> Chunk \<Rightarrow> 't Inner \<Rightarrow> 't Inner option" where
  "insert_nonempty A c L =
     (if 0 < size_in_pages Page4K c
      then (case list_insert A c L of Inr L' \<Rightarrow> Some L' | Inl _ \<Rightarrow> None)
      else Some L)"

definition action_drop :: "('t, 'c) rb_api \<Rightarrow> DeferredAllocAction \<Rightarrow> 't Inner \<Rightarrow> 't Inner option" where
  "action_drop A act L = do { L1 \<leftarrow> insert_nonempty A (free1 act) L; insert_nonempty A (free2 act) L1 }"

section \<open>Searching and allocating\<close>

definition UPCOMING_PAGE_TABLE_RECURSIVE_P4_START :: usize where
  "UPCOMING_PAGE_TABLE_RECURSIVE_P4_START = canonicalize (push_bit (27 + PAGE_SHIFT) (ENTRIES_PER_PAGE_TABLE - 4))"
definition KERNEL_HEAP_START :: usize where
  "KERNEL_HEAP_START = canonicalize (push_bit (27 + PAGE_SHIFT) (ENTRIES_PER_PAGE_TABLE - 3))"
definition RECURSIVE_P4_START :: usize where
  "RECURSIVE_P4_START = canonicalize (push_bit (27 + PAGE_SHIFT) (ENTRIES_PER_PAGE_TABLE - 2))"
definition KERNEL_TEXT_START :: usize where
  "KERNEL_TEXT_START = canonicalize (push_bit (27 + PAGE_SHIFT) (ENTRIES_PER_PAGE_TABLE - 1))"

definition DESIGNATED_PAGES_HIGH_START :: usize where
  "DESIGNATED_PAGES_HIGH_START =
     containing_address (new_canonical Virtual UPCOMING_PAGE_TABLE_RECURSIVE_P4_START)"
definition MIN_PAGE :: usize where "MIN_PAGE = containing_address 0"
definition MAX_PAGE :: usize where
  "MAX_PAGE = containing_address (new_canonical Virtual MAX_VIRTUAL_ADDRESS)"

datatype AllocationError =
    AddressNotFree usize usize
  | OutOfAddressSpace usize "RangeInclusive option"
  | NotInitialized

fun alloc_err_str :: "AllocationError \<Rightarrow> string" where
  "alloc_err_str (AddressNotFree _ _) = ''address was in use or outside of this page allocator's range''"
| "alloc_err_str (OutOfAddressSpace _ (Some _)) = ''out of virtual address space in specified range''"
| "alloc_err_str (OutOfAddressSpace _ None) = ''out of virtual address space''"
| "alloc_err_str NotInitialized = ''the page allocator has not yet been initialized''"

text \<open>
  \<open>adjust_chosen_chunk\<close> cuts the allocation out of the chosen chunk.  The assertions of the code are
  kept: \<open>None\<close> is their panic.  Chunks are compared by their first page only.
\<close>

definition adjust_chosen_chunk ::
  "('t, 'c) rb_api \<Rightarrow> usize \<Rightarrow> usize \<Rightarrow> Chunk \<Rightarrow> 'c ValueRefMut \<Rightarrow> 't Inner \<Rightarrow>
     ((RangeInclusive \<times> DeferredAllocAction) \<times> 't Inner) option" where
  "adjust_chosen_chunk A start_page num_pages chosen_chunk chosen_ref L =
     (let new_allocation = range_new start_page (page_add Page4K start_page (num_pages - 1));
          before = (if start_page = MIN_PAGE then None
                    else Some (range_new (range_start chosen_chunk) (page_sub Page4K (range_start new_allocation) 1)));
          after = (if range_end new_allocation = MAX_PAGE then None
                   else Some (range_new (page_add Page4K (range_end new_allocation) 1) (range_end chosen_chunk)));
          ok_before = (case before of None \<Rightarrow> True | Some b \<Rightarrow>
            \<not> range_contains new_allocation (range_end b) \<and> \<not> range_contains b (range_start new_allocation));
          ok_after = (case after of None \<Rightarrow> True | Some a \<Rightarrow>
            \<not> range_contains new_allocation (range_start a) \<and> \<not> range_contains a (range_end new_allocation));
          (removed, L') = value_remove A chosen_ref L
      in if ok_before \<and> ok_after \<and> map_option range_start removed = Some (range_start chosen_chunk)
         then Some ((new_allocation, DeferredAllocAction_new before after), L')
         else None)"

text \<open>
  The search conditions of \<open>find_any_chunk\<close> for one chunk: the lowest aligned page from which the
  request fits, if any.  The outer \<open>None\<close> is the panic of a zero alignment.
\<close>

definition fit_in_range :: "RangeInclusive \<Rightarrow> usize \<Rightarrow> usize \<Rightarrow> Chunk \<Rightarrow> usize option option" where
  "fit_in_range rng num_pages alignment chunk =
     (case align_up (max (range_start chunk) (range_start rng)) alignment of
        None \<Rightarrow> None
      | Some lowest \<Rightarrow>
          let highest = min (range_end chunk) (range_end rng)
          in Some (if page_add Page4K lowest num_pages \<le> highest then Some lowest else None))"

definition fit_in_chunk :: "usize \<Rightarrow> usize \<Rightarrow> Chunk \<Rightarrow> usize option option" where
  "fit_in_chunk num_pages alignment chunk =
     (case align_up (range_start chunk) alignment of
        None \<Rightarrow> None
      | Some lowest \<Rightarrow> Some (if page_add Page4K lowest num_pages \<le> range_end chunk then Some lowest else None))"

fun scan_array ::
  "(Chunk \<Rightarrow> usize option option) \<Rightarrow> Chunk option list \<Rightarrow> nat \<Rightarrow> (usize \<times> Chunk \<times> nat) option option" where
  "scan_array f [] i = Some None"
| "scan_array f (None # rest) i = scan_array f rest (Suc i)"
| "scan_array f (Some chunk # rest) i =
     (case f chunk of
        None \<Rightarrow> None
      | Some None \<Rightarrow> scan_array f rest (Suc i)
      | Some (Some s) \<Rightarrow> Some (Some (s, chunk, i)))"

text \<open>
  The loops over a cursor that moves to lower addresses; \<open>brk\<close> is the test before the fit, \<open>aft\<close> the
  one after it.
\<close>

partial_function (option) scan_tree ::
  "('t, 'c) rb_api \<Rightarrow> (Chunk \<Rightarrow> usize option option) \<Rightarrow> (Chunk \<Rightarrow> bool) \<Rightarrow> (Chunk \<Rightarrow> bool) \<Rightarrow> 'c \<Rightarrow> 't \<Rightarrow>
     (usize \<times> Chunk \<times> 'c) option option" where
  "scan_tree A f brk aft c t =
     (case rb_get A c t of
        None \<Rightarrow> Some None
      | Some chunk \<Rightarrow>
          if brk chunk then Some None
          else (case f chunk of
                  None \<Rightarrow> None
                | Some (Some s) \<Rightarrow> Some (Some (s, chunk, c))
                | Some None \<Rightarrow> if aft chunk then Some None else scan_tree A f brk aft (rb_prev A c t) t))"

definition search ::
  "('t, 'c) rb_api \<Rightarrow> (Chunk \<Rightarrow> usize option option) \<Rightarrow> (Chunk \<Rightarrow> bool) \<Rightarrow> (Chunk \<Rightarrow> bool) \<Rightarrow> ('t \<Rightarrow> 'c) \<Rightarrow>
     't Inner \<Rightarrow> (usize \<times> Chunk \<times> 'c ValueRefMut) option option" where
  "search A f brk aft from L =
     (case L of
        Array arr \<Rightarrow> map_option (map_option (\<lambda>(s, c, i). (s, c, RefArray i))) (scan_array f arr 0)
      | RBTree t \<Rightarrow> map_option (map_option (\<lambda>(s, c, k). (s, c, RefTree k))) (scan_tree A f brk aft (from t) t))"

type_synonym 't alloc_result = "((AllocationError + RangeInclusive \<times> DeferredAllocAction) \<times> 't Inner) option"

definition alloc_from ::
  "('t, 'c) rb_api \<Rightarrow> usize \<Rightarrow> 't Inner \<Rightarrow> usize \<times> Chunk \<times> 'c ValueRefMut \<Rightarrow> 't alloc_result" where
  "alloc_from A num_pages L = (\<lambda>(s, chunk, r).
     map_option (map_prod Inr (\<lambda>x. x)) (adjust_chosen_chunk A s num_pages chunk r L))"

definition find_any_chunk ::
  "('t, 'c) rb_api \<Rightarrow> usize option \<Rightarrow> 't Inner \<Rightarrow> usize \<Rightarrow> RangeInclusive option \<Rightarrow> usize \<Rightarrow> 't alloc_result" where
  "find_any_chunk A low_end L num_pages within_range alignment =
     (case low_end of
        None \<Rightarrow> Some (Inl NotInitialized, L)
      | Some designated_low_end \<Rightarrow>
          let full_range = range_new (page_add Page4K designated_low_end 1) (page_sub Page4K DESIGNATED_PAGES_HIGH_START 1);
              rng = (case within_range of Some r \<Rightarrow> r | None \<Rightarrow> full_range)
          in do {
            first \<leftarrow> search A (fit_in_range rng num_pages alignment) (\<lambda>_. False)
                       (\<lambda>c. range_start c \<le> range_start rng) (rb_upper A (range_end rng)) L;
            case first of
              Some hit \<Rightarrow> alloc_from A num_pages L hit
            | None \<Rightarrow>
                if within_range \<noteq> None then Some (Inl (OutOfAddressSpace num_pages within_range), L)
                else do {
                  low \<leftarrow> search A (fit_in_chunk num_pages alignment) (\<lambda>_. False) (\<lambda>_. False)
                           (rb_upper A designated_low_end) L;
                  case low of
                    Some hit \<Rightarrow> alloc_from A num_pages L hit
                  | None \<Rightarrow>
                      (case L of
                         Array _ \<Rightarrow> Some (Inl (OutOfAddressSpace num_pages None), L)
                       | RBTree _ \<Rightarrow> do {
                           high \<leftarrow> search A (fit_in_chunk num_pages alignment)
                                     (\<lambda>c. range_start c < DESIGNATED_PAGES_HIGH_START) (\<lambda>_. False) (rb_back A) L;
                           case high of
                             Some hit \<Rightarrow> alloc_from A num_pages L hit
                           | None \<Rightarrow> Some (Inl (OutOfAddressSpace num_pages None), L)
                         })
                }
          })"

text \<open>The loop of \<open>find_specific_chunk\<close> that absorbs the contiguous chunks after the one found.\<close>

partial_function (option) merge_loop ::
  "('t, 'c) rb_api \<Rightarrow> 'c \<Rightarrow> 't \<Rightarrow> usize \<Rightarrow> ('c \<times> 't \<times> usize) option" where
  "merge_loop A c t new_end_page =
     (case rb_get A c t of
        None \<Rightarrow> Some (c, t, new_end_page)
      | Some next_chunk \<Rightarrow>
          if page_sub Page4K (range_start next_chunk) 1 = new_end_page
          then (case rb_remove A c t of
                  (Some _, c', t') \<Rightarrow> merge_loop A c' t' (range_end next_chunk)
                | (None, _, _) \<Rightarrow> None)
          else Some (c, t, new_end_page))"

definition find_specific_chunk ::
  "('t, 'c) rb_api \<Rightarrow> 't Inner \<Rightarrow> usize \<Rightarrow> usize \<Rightarrow> 't alloc_result" where
  "find_specific_chunk A L requested_page num_pages =
     (let requested_end_page = page_add Page4K requested_page (num_pages - 1);
          fail = (\<lambda>L. Some (Inl (AddressNotFree requested_page num_pages), L))
      in case L of
           Array arr \<Rightarrow>
             do {
               hit \<leftarrow> scan_array (\<lambda>chunk. Some (if range_start chunk \<le> requested_page \<and> requested_end_page \<le> range_end chunk
                                               then Some requested_page else None)) arr 0;
               case hit of
                 Some (s, chunk, i) \<Rightarrow> alloc_from A num_pages L (s, chunk, RefArray i)
               | None \<Rightarrow> fail L
             }
         | RBTree t \<Rightarrow>
             let c = rb_upper A requested_page t
             in case rb_get A c t of
                  None \<Rightarrow> fail L
                | Some chunk \<Rightarrow>
                    if \<not> range_start chunk \<le> requested_page then fail L
                    else if requested_end_page \<le> range_end chunk
                    then alloc_from A num_pages L (requested_page, chunk, RefTree c)
                    else do {
                      (c1, t1, new_end_page) \<leftarrow> merge_loop A (rb_next A c t) t (range_end chunk);
                      if range_end chunk < new_end_page
                      then let c2 = rb_prev A c1 t1
                           in case rb_replace A c2 (range_new (range_start chunk) new_end_page) t1 of
                                (Inr _, t2) \<Rightarrow> alloc_from A num_pages (RBTree t2) (requested_page, chunk, RefTree c2)
                              | (Inl _, _) \<Rightarrow> None
                      else fail (RBTree t1)
                    })"

datatype AllocationRequest = AtVirtualAddress usize | AlignedTo usize | WithinRange RangeInclusive | Any

definition allocate_pages_deferred ::
  "('t, 'c) rb_api \<Rightarrow> usize option \<Rightarrow> AllocationRequest \<Rightarrow> usize \<Rightarrow> 't Inner \<Rightarrow>
     ((string + RangeInclusive \<times> DeferredAllocAction) \<times> 't Inner) option" where
  "allocate_pages_deferred A low_end request num_pages L =
     (if num_pages = 0 then Some (Inl ''cannot allocate zero pages'', L)
      else map_option (map_prod (map_sum alloc_err_str (\<lambda>x. x)) (\<lambda>x. x))
        (case request of
           AtVirtualAddress vaddr \<Rightarrow> find_specific_chunk A L (containing_address vaddr) num_pages
         | AlignedTo alignment \<Rightarrow> find_any_chunk A low_end L num_pages None alignment
         | WithinRange rng \<Rightarrow> find_any_chunk A low_end L num_pages (Some rng) 1
         | Any \<Rightarrow> find_any_chunk A low_end L num_pages None 1))"

text \<open>Rounding bytes up to pages: the sums wrap.\<close>

definition allocate_pages_by_bytes_deferred ::
  "('t, 'c) rb_api \<Rightarrow> usize option \<Rightarrow> AllocationRequest \<Rightarrow> usize \<Rightarrow> 't Inner \<Rightarrow>
     ((string + RangeInclusive \<times> DeferredAllocAction) \<times> 't Inner) option" where
  "allocate_pages_by_bytes_deferred A low_end request num_bytes L =
     (let actual_num_bytes = (case request of AtVirtualAddress vaddr \<Rightarrow> num_bytes + vaddr mod PAGE_SIZE | _ \<Rightarrow> num_bytes);
          num_pages = (actual_num_bytes + PAGE_SIZE - 1) div PAGE_SIZE
      in allocate_pages_deferred A low_end request num_pages L)"

text \<open>The convenience functions drop the deferred action at once.\<close>

definition allocate_now ::
  "('t, 'c) rb_api \<Rightarrow> ((string + RangeInclusive \<times> DeferredAllocAction) \<times> 't Inner) option \<Rightarrow>
     ((string + RangeInclusive) \<times> 't Inner) option" where
  "allocate_now A r =
     (case r of
        None \<Rightarrow> None
      | Some (Inl e, L) \<Rightarrow> Some (Inl e, L)
      | Some (Inr (ap, act), L) \<Rightarrow> map_option (\<lambda>L'. (Inr ap, L')) (action_drop A act L))"

fun sum_ok :: "'e + 'a \<Rightarrow> 'a option" where
  "sum_ok (Inr x) = Some x"
| "sum_ok (Inl _) = None"

definition allocate_pages ::
  "('t, 'c) rb_api \<Rightarrow> usize option \<Rightarrow> usize \<Rightarrow> 't Inner \<Rightarrow> (RangeInclusive option \<times> 't Inner) option" where
  "allocate_pages A low_end num_pages L =
     map_option (map_prod sum_ok (\<lambda>x. x)) (allocate_now A (allocate_pages_deferred A low_end Any num_pages L))"

definition allocate_pages_by_bytes ::
  "('t, 'c) rb_api \<Rightarrow> usize option \<Rightarrow> usize \<Rightarrow> 't Inner \<Rightarrow> (RangeInclusive option \<times> 't Inner) option" where
  "allocate_pages_by_bytes A low_end num_bytes L =
     map_option (map_prod sum_ok (\<lambda>x. x)) (allocate_now A (allocate_pages_by_bytes_deferred A low_end Any num_bytes L))"

definition allocate_pages_by_bytes_at ::
  "('t, 'c) rb_api \<Rightarrow> usize option \<Rightarrow> usize \<Rightarrow> usize \<Rightarrow> 't Inner \<Rightarrow> ((string + RangeInclusive) \<times> 't Inner) option" where
  "allocate_pages_by_bytes_at A low_end vaddr num_bytes L =
     allocate_now A (allocate_pages_by_bytes_deferred A low_end (AtVirtualAddress vaddr) num_bytes L)"

definition allocate_pages_by_bytes_in_range ::
  "('t, 'c) rb_api \<Rightarrow> usize option \<Rightarrow> usize \<Rightarrow> RangeInclusive \<Rightarrow> 't Inner \<Rightarrow> ((string + RangeInclusive) \<times> 't Inner) option" where
  "allocate_pages_by_bytes_in_range A low_end num_bytes rng L =
     allocate_now A (allocate_pages_by_bytes_deferred A low_end (WithinRange rng) num_bytes L)"

definition allocate_pages_at ::
  "('t, 'c) rb_api \<Rightarrow> usize option \<Rightarrow> usize \<Rightarrow> usize \<Rightarrow> 't Inner \<Rightarrow> ((string + RangeInclusive) \<times> 't Inner) option" where
  "allocate_pages_at A low_end vaddr num_pages L =
     allocate_now A (allocate_pages_deferred A low_end (AtVirtualAddress vaddr) num_pages L)"

definition allocate_pages_in_range ::
  "('t, 'c) rb_api \<Rightarrow> usize option \<Rightarrow> usize \<Rightarrow> RangeInclusive \<Rightarrow> 't Inner \<Rightarrow> ((string + RangeInclusive) \<times> 't Inner) option" where
  "allocate_pages_in_range A low_end num_pages rng L =
     allocate_now A (allocate_pages_deferred A low_end (WithinRange rng) num_pages L)"

definition page_alloc_init :: "usize \<Rightarrow> usize option \<Rightarrow> 't Inner \<Rightarrow> (usize option \<times> 't Inner) option" where
  "page_alloc_init end_vaddr low_end L =
     (if \<not> end_vaddr < start_address Virtual DESIGNATED_PAGES_HIGH_START then None
      else let designated_low_end = (case low_end of Some p \<Rightarrow> p | None \<Rightarrow> containing_address end_vaddr)
           in Some (Some designated_low_end,
                Array ([Some (range_new (containing_address 0) designated_low_end),
                        Some (range_new (page_add Page4K designated_low_end 1)
                                (page_sub Page4K DESIGNATED_PAGES_HIGH_START 1)),
                        Some (range_new (containing_address (new_canonical Virtual KERNEL_HEAP_START))
                                (containing_address (new_canonical Virtual (RECURSIVE_P4_START - 1)))),
                        Some (range_new (containing_address (new_canonical Virtual KERNEL_TEXT_START)) MAX_PAGE)] @
                       replicate 28 None)))"

section \<open>What the tree promises\<close>

text \<open>
  The documented behaviour of \<open>RBTree\<close>: \<open>ent\<close> lists the elements in key order and \<open>pos\<close> gives the
  position of a cursor, a position past the end being the null object.  Searches return the first
  element not below, or the last element not above the bound; moving wraps around through the
  null object; removing advances to the next element; replacing is possible where the order
  is kept.
\<close>

definition sorted_chunks :: "Chunk list \<Rightarrow> bool" where
  "sorted_chunks cs \<longleftrightarrow> sorted (map range_start cs)"

definition rb_spec :: "('t, 'c) rb_api \<Rightarrow> ('t \<Rightarrow> Chunk list) \<Rightarrow> ('c \<Rightarrow> 't \<Rightarrow> nat) \<Rightarrow> bool" where
  "rb_spec A ent pos \<longleftrightarrow>
     ent (rb_new A) = [] \<and>
     (\<forall>v t. sorted_chunks (ent t) \<longrightarrow> mset (ent (rb_insert A v t)) = add_mset v (mset (ent t)) \<and>
        sorted_chunks (ent (rb_insert A v t))) \<and>
     (\<forall>c t. rb_get A c t = vec_get (ent t) (pos c t)) \<and>
     (\<forall>k t. sorted_chunks (ent t) \<longrightarrow>
        pos (rb_lower A k t) t = length (filter (\<lambda>x. range_start x < k) (ent t))) \<and>
     (\<forall>k t. sorted_chunks (ent t) \<longrightarrow>
        pos (rb_upper A k t) t =
          (let m = length (filter (\<lambda>x. range_start x \<le> k) (ent t)) in if m = 0 then length (ent t) else m - 1)) \<and>
     (\<forall>t. pos (rb_back A t) t = length (ent t) - 1) \<and>
     (\<forall>c t. pos (rb_next A c t) t = (if pos c t < length (ent t) then Suc (pos c t) else 0)) \<and>
     (\<forall>c t. pos (rb_prev A c t) t =
        (if length (ent t) \<le> pos c t then length (ent t) - 1
         else if pos c t = 0 then length (ent t) else pos c t - 1)) \<and>
     (\<forall>c t. pos c t < length (ent t) \<longrightarrow>
        (\<exists>c' t'. rb_remove A c t = (Some (ent t ! pos c t), c', t') \<and>
           ent t' = remove_at (pos c t) (ent t) \<and> pos c' t' = pos c t)) \<and>
     (\<forall>c v t. pos c t < length (ent t) \<and> sorted_chunks ((ent t)[pos c t := v]) \<longrightarrow>
        (\<exists>t'. rb_replace A c v t = (Inr (ent t ! pos c t), t') \<and> ent t' = (ent t)[pos c t := v] \<and> pos c t' = pos c t))"

lemma rb_specD:
  assumes "rb_spec A ent pos"
  shows rb_spec_new: "ent (rb_new A) = []"
    and rb_spec_insert: "\<And>v t. sorted_chunks (ent t) \<Longrightarrow>
      mset (ent (rb_insert A v t)) = add_mset v (mset (ent t)) \<and> sorted_chunks (ent (rb_insert A v t))"
    and rb_spec_get: "\<And>c t. rb_get A c t = vec_get (ent t) (pos c t)"
    and rb_spec_lower: "\<And>k t. sorted_chunks (ent t) \<Longrightarrow>
      pos (rb_lower A k t) t = length (filter (\<lambda>x. range_start x < k) (ent t))"
    and rb_spec_upper: "\<And>k t. sorted_chunks (ent t) \<Longrightarrow> pos (rb_upper A k t) t =
      (let m = length (filter (\<lambda>x. range_start x \<le> k) (ent t)) in if m = 0 then length (ent t) else m - 1)"
    and rb_spec_back: "\<And>t. pos (rb_back A t) t = length (ent t) - 1"
    and rb_spec_next: "\<And>c t. pos (rb_next A c t) t = (if pos c t < length (ent t) then Suc (pos c t) else 0)"
    and rb_spec_prev: "\<And>c t. pos (rb_prev A c t) t = (if length (ent t) \<le> pos c t then length (ent t) - 1
         else if pos c t = 0 then length (ent t) else pos c t - 1)"
    and rb_spec_remove: "\<And>c t. pos c t < length (ent t) \<Longrightarrow>
      \<exists>c' t'. rb_remove A c t = (Some (ent t ! pos c t), c', t') \<and>
           ent t' = remove_at (pos c t) (ent t) \<and> pos c' t' = pos c t"
    and rb_spec_replace: "\<And>c v t. pos c t < length (ent t) \<Longrightarrow> sorted_chunks ((ent t)[pos c t := v]) \<Longrightarrow>
      \<exists>t'. rb_replace A c v t = (Inr (ent t ! pos c t), t') \<and> ent t' = (ent t)[pos c t := v] \<and> pos c t' = pos c t"
  using assms unfolding rb_spec_def by blast+

section \<open>Page accounting\<close>

text \<open>How many chunks of a list, and of a free list, hold a page.\<close>

definition holds :: "usize \<Rightarrow> Chunk \<Rightarrow> nat" where
  "holds n c = (if range_contains c n then 1 else 0)"

fun somes :: "'a option list \<Rightarrow> 'a list" where
  "somes [] = []"
| "somes (None # xs) = somes xs"
| "somes (Some x # xs) = x # somes xs"

definition chunks_of :: "('t \<Rightarrow> Chunk list) \<Rightarrow> 't Inner \<Rightarrow> Chunk list" where
  "chunks_of ent L = (case L of Array arr \<Rightarrow> somes arr | RBTree t \<Rightarrow> ent t)"

definition free_count :: "('t \<Rightarrow> Chunk list) \<Rightarrow> usize \<Rightarrow> 't Inner \<Rightarrow> nat" where
  "free_count ent n L = sum_list (map (holds n) (chunks_of ent L))"

definition chunk_ok :: "Chunk \<Rightarrow> bool" where
  "chunk_ok c \<longleftrightarrow> range_start c \<le> MAX_PAGE_NUMBER \<and> range_end c \<le> MAX_PAGE_NUMBER"

definition list_ok :: "('t \<Rightarrow> Chunk list) \<Rightarrow> 't Inner \<Rightarrow> bool" where
  "list_ok ent L \<longleftrightarrow> (\<forall>c \<in> set (chunks_of ent L). chunk_ok c \<and> range_start c \<le> range_end c) \<and>
     (case L of Array _ \<Rightarrow> True | RBTree t \<Rightarrow> sorted_chunks (ent t))"

text \<open>A reference designates a chunk of the list.\<close>

definition ref_ok :: "('t, 'c) rb_api \<Rightarrow> 'c ValueRefMut \<Rightarrow> Chunk \<Rightarrow> 't Inner \<Rightarrow> bool" where
  "ref_ok A r chunk L \<longleftrightarrow>
     (case (r, L) of
        (RefArray i, Array arr) \<Rightarrow> i < length arr \<and> arr ! i = Some chunk
      | (RefTree c, RBTree t) \<Rightarrow> rb_get A c t = Some chunk
      | _ \<Rightarrow> False)"

abbreviation opt_mset :: "'a option \<Rightarrow> 'a multiset" where
  "opt_mset x \<equiv> (case x of None \<Rightarrow> {#} | Some y \<Rightarrow> {# y #})"

lemma mset_somes_Cons: "mset (somes (x # xs)) = opt_mset x + mset (somes xs)"
  by (cases x) simp_all

lemma mset_somes_update:
  "i < length arr \<Longrightarrow> mset (somes (arr[i := v])) + opt_mset (arr ! i) = mset (somes arr) + opt_mset v"
proof (induction arr arbitrary: i)
  case (Cons a arr)
  then show ?case by (cases i) (simp_all add: mset_somes_Cons add.assoc add.commute del: somes.simps)
qed simp

lemma set_somes: "x \<in> set (somes arr) \<longleftrightarrow> Some x \<in> set arr"
  by (induction arr rule: somes.induct) auto

lemma free_count_mset:
  "mset (chunks_of ent L') + M = mset (chunks_of ent L) + N \<Longrightarrow>
   free_count ent n L' + sum_mset (image_mset (holds n) M) = free_count ent n L + sum_mset (image_mset (holds n) N)"
proof -
  assume "mset (chunks_of ent L') + M = mset (chunks_of ent L) + N"
  then have "sum_mset (image_mset (holds n) (mset (chunks_of ent L') + M)) =
      sum_mset (image_mset (holds n) (mset (chunks_of ent L) + N))" by simp
  then show ?thesis by (simp add: free_count_def flip: sum_mset_sum_list)
qed

lemma sorted_chunks_Cons [simp]:
  "sorted_chunks (c # cs) \<longleftrightarrow> (\<forall>d \<in> set cs. range_start c \<le> range_start d) \<and> sorted_chunks cs"
  "sorted_chunks []"
  by (simp_all add: sorted_chunks_def)

lemma sorted_chunks_remove: "sorted_chunks cs \<Longrightarrow> sorted_chunks (remove_at i cs)"
proof (induction cs arbitrary: i)
  case (Cons a cs)
  then show ?case using set_remove_at_subset [of _ cs] by (cases i) auto
qed simp

lemma value_remove_ok:
  assumes spec: "rb_spec A ent pos" and r: "ref_ok A r chunk L" and ok: "list_ok ent L"
  obtains L' where "value_remove A r L = (Some chunk, L')"
    and "mset (chunks_of ent L') + {# chunk #} = mset (chunks_of ent L)" and "list_ok ent L'"
proof (cases L)
  case (Array arr)
  then obtain i where r: "r = RefArray i" and i: "i < length arr" "arr ! i = Some chunk"
    using r by (cases r) (auto simp: ref_ok_def)
  have m: "mset (somes (arr[i := None])) + {# chunk #} = mset (somes arr)"
    using mset_somes_update [OF i(1), of None] i(2) by simp
  then have "set (somes (arr[i := None])) \<subseteq> set (somes arr)"
    by (metis mset_subset_eq_add_left set_mset_mono set_mset_mset)
  then have "list_ok ent (Array (arr[i := None]))" using ok Array by (auto simp: list_ok_def chunks_of_def)
  then show ?thesis
    using m i by (intro that [of "Array (arr[i := None])"]) (simp_all add: value_remove_def r Array chunks_of_def)
next
  case (RBTree t)
  then obtain c where r: "r = RefTree c" and c: "rb_get A c t = Some chunk"
    using r by (cases r) (auto simp: ref_ok_def)
  then have i: "pos c t < length (ent t)" "ent t ! pos c t = chunk"
    by (simp_all add: rb_spec_get [OF spec] vec_get_Some)
  then obtain c' t' where t': "rb_remove A c t = (Some chunk, c', t')" "ent t' = remove_at (pos c t) (ent t)"
    using rb_spec_remove [OF spec i(1)] by auto
  have m: "mset (ent t) = add_mset chunk (mset (ent t'))" using mset_remove_at [OF i(1)] i(2) t'(2) by simp
  have "list_ok ent (RBTree t')"
    using ok RBTree t'(2) sorted_chunks_remove [of "ent t"] set_remove_at_subset [of "pos c t" "ent t"]
    by (auto simp: list_ok_def chunks_of_def)
  then show ?thesis
    using m t'(1) by (intro that [of "RBTree t'"]) (simp_all add: value_remove_def r RBTree chunks_of_def)
qed

section \<open>Cutting an allocation out of a chunk\<close>

lemma MIN_MAX_PAGE [simp]: "MIN_PAGE = 0" "MAX_PAGE = MAX_PAGE_NUMBER"
proof -
  have "canonicalize_virtual_address (- 1) = - 1"
    by (rule bit_word_eqI) (simp add: bit_canonicalize_virtual)
  then show "MIN_PAGE = 0" "MAX_PAGE = MAX_PAGE_NUMBER"
    by (simp_all add: MIN_PAGE_def MAX_PAGE_def containing_address_def)
qed

lemma page_add_le: "page_add p n k \<le> MAX_PAGE_NUMBER"
  by (simp add: page_add_def)

lemma unat_page_add: "unat (page_add Page4K n k) = min 0xFFFFFFFFFFFFF (unat n + unat k)"
proof -
  have k: "unat (sat_mul k 1) = unat k"
  proof -
    have "unat k * unat (1 :: usize) < 2 ^ LENGTH(64)" using unsigned_less [of k] by simp
    from unat_sat_mul_nowrap [OF this] show ?thesis by simp
  qed
  have "unat (sat_add n (sat_mul k 1)) = (if unat n + unat k < 2 ^ 64 then unat n + unat k else 2 ^ 64 - 1)"
    by (simp add: sat_add_def k unat_add_nowrap unsigned_minus_1_eq_mask mask_eq_exp_minus_1)
  then show ?thesis by (simp add: page_add_def min_def word_le_nat_alt)
qed

lemma unat_page_sub1: "unat (page_sub Page4K n 1) = unat n - 1"
  by (simp add: page_sub_def sat_mul_def)

lemma holds_nat: "holds n c = (if unat (range_start c) \<le> unat n \<and> unat n \<le> unat (range_end c) then 1 else 0)"
  by (simp add: holds_def range_contains_def word_le_nat_alt)

lemma holds_empty [simp]: "holds n Chunk_empty = 0"
  by (simp add: holds_nat Chunk_empty_def range_empty_def)

lemma unat_page_succ:
  assumes "e \<le> MAX_PAGE_NUMBER" "e \<noteq> MAX_PAGE_NUMBER"
  shows "unat (page_add Page4K e 1) = unat e + 1"
proof -
  have "e < MAX_PAGE_NUMBER" using assms order_neq_le_trans by blast
  then show ?thesis by (simp add: unat_page_add word_less_nat_alt)
qed

lemma holds_split:
  assumes "chunk_ok chunk" "range_start chunk \<le> s" "s \<le> e" "e \<le> range_end chunk"
  shows "holds n (range_new s e) +
    (if s = 0 then 0 else holds n (range_new (range_start chunk) (page_sub Page4K s 1))) +
    (if e = MAX_PAGE_NUMBER then 0 else holds n (range_new (page_add Page4K e 1) (range_end chunk))) = holds n chunk"
proof -
  have b: "unat (range_start chunk) \<le> unat s" "unat s \<le> unat e" "unat e \<le> unat (range_end chunk)"
    "unat (range_end chunk) \<le> unat MAX_PAGE_NUMBER"
    using assms by (simp_all add: word_le_nat_alt chunk_ok_def del: memory_constants)
  have e: "e \<noteq> MAX_PAGE_NUMBER \<Longrightarrow> unat (page_add Page4K e 1) = unat e + 1"
    using assms by (intro unat_page_succ) (auto simp: chunk_ok_def)
  have s: "s \<noteq> 0 \<Longrightarrow> 0 < unat s" by (simp add: unat_gt_0)
  have E: "e = MAX_PAGE_NUMBER \<Longrightarrow> unat e = unat MAX_PAGE_NUMBER" by simp
  show ?thesis using b e s E unfolding holds_nat range_new_simps unat_page_sub1 by auto
qed

lemma adjust_chosen_chunk_ok:
  assumes spec: "rb_spec A ent pos" and r: "ref_ok A r chunk L" and ok: "list_ok ent L"
    and s: "range_start chunk \<le> s" and e: "page_add Page4K s (num - 1) \<le> range_end chunk"
    and se: "s \<le> page_add Page4K s (num - 1)"
  obtains act L' where
    "adjust_chosen_chunk A s num chunk r L = Some ((range_new s (page_add Page4K s (num - 1)), act), L')"
    and "list_ok ent L'" and "chunk_ok (free1 act)" "chunk_ok (free2 act)"
    and "\<And>n. holds n (range_new s (page_add Page4K s (num - 1))) + holds n (free1 act) + holds n (free2 act) +
      free_count ent n L' = free_count ent n L"
proof -
  let ?e = "page_add Page4K s (num - 1)"
  let ?b = "if s = 0 then None else Some (range_new (range_start chunk) (page_sub Page4K s 1))"
  let ?a = "if ?e = MAX_PAGE_NUMBER then None else Some (range_new (page_add Page4K ?e 1) (range_end chunk))"
  let ?act = "DeferredAllocAction_new ?b ?a"
  obtain L' where rem: "value_remove A r L = (Some chunk, L')"
    and m: "mset (chunks_of ent L') + {# chunk #} = mset (chunks_of ent L)" and ok': "list_ok ent L'"
    using value_remove_ok [OF spec r ok] .
  have chunk: "chunk_ok chunk" using m ok by (metis add_mset_add_single list_ok_def set_mset_mset union_single_eq_member)
  have e1: "unat (page_add Page4K ?e 1) = unat ?e + 1" if "?e \<noteq> MAX_PAGE_NUMBER"
    using that by (intro unat_page_succ page_add_le)
  have s1: "unat (page_sub Page4K s 1) < unat s" if "s \<noteq> 0" using that by (simp add: unat_page_sub1 unat_gt_0)
  have "adjust_chosen_chunk A s num chunk r L = Some ((range_new s ?e, ?act), L')"
    using rem se s1 e1
    by (auto simp: adjust_chosen_chunk_def Let_def range_contains_def word_le_nat_alt)
  moreover have "chunk_ok (free1 ?act)" "chunk_ok (free2 ?act)"
    using chunk s e se page_add_le [of Page4K ?e 1]
    by (auto simp: DeferredAllocAction_new_def Chunk_empty_def range_empty_def chunk_ok_def
        word_le_nat_alt unat_page_sub1)
  moreover have "holds n (range_new s ?e) + holds n (free1 ?act) + holds n (free2 ?act) = holds n chunk" for n
  proof -
    have "holds n (free1 ?act) = (if s = 0 then 0 else holds n (range_new (range_start chunk) (page_sub Page4K s 1)))"
      "holds n (free2 ?act) = (if ?e = MAX_PAGE_NUMBER then 0 else holds n (range_new (page_add Page4K ?e 1) (range_end chunk)))"
      by (simp_all add: DeferredAllocAction_new_def)
    then show ?thesis using holds_split [OF chunk s se e, of n] by (simp only:)
  qed
  moreover have "free_count ent n L' + holds n chunk = free_count ent n L" for n
    using free_count_mset [of ent L' "{# chunk #}" L "{#}" n] m by simp
  ultimately show ?thesis using ok' by (intro that [of ?act L']) (simp_all add: add.commute)
qed

section \<open>The search\<close>

lemma scan_array_hit:
  "scan_array f arr i = Some (Some (s, c, j)) \<Longrightarrow>
   \<exists>k. j = i + k \<and> k < length arr \<and> arr ! k = Some c \<and> f c = Some (Some s)"
proof (induction f arr i rule: scan_array.induct)
  case (2 f rest i)
  then obtain k where "j = Suc i + k" "k < length rest" "rest ! k = Some c" "f c = Some (Some s)" by auto
  then show ?case by (intro exI [of _ "Suc k"]) simp
next
  case (3 f chunk rest i)
  show ?case
  proof (cases "f chunk = Some None")
    case True
    then obtain k where "j = Suc i + k" "k < length rest" "rest ! k = Some c" "f c = Some (Some s)"
      using 3 by auto
    then show ?thesis by (intro exI [of _ "Suc k"]) simp
  next
    case False
    then show ?thesis using "3.prems" by (intro exI [of _ 0]) (auto split: option.splits)
  qed
qed simp

lemma scan_tree_hit:
  assumes "scan_tree A f brk aft c t = Some (Some (s, chunk, k))"
  shows "rb_get A k t = Some chunk \<and> f chunk = Some (Some s)"
proof -
  have "Some (s, chunk, k) = Some (s, chunk, k) \<longrightarrow> rb_get A k t = Some chunk \<and> f chunk = Some (Some s)"
    by (rule scan_tree.raw_induct [where P = "\<lambda>A f brk aft c t r.
          r = Some (s, chunk, k) \<longrightarrow> rb_get A k t = Some chunk \<and> f chunk = Some (Some s)", OF _ assms])
      (auto split: option.splits if_splits)
  then show ?thesis by simp
qed

lemma search_hit:
  assumes "search A f brk aft frm L = Some (Some (s, chunk, r))"
  shows "ref_ok A r chunk L \<and> f chunk = Some (Some s)"
proof (cases L)
  case (Array arr)
  then obtain i where "scan_array f arr 0 = Some (Some (s, chunk, i))" "r = RefArray i"
    using assms by (auto simp: search_def)
  then show ?thesis using scan_array_hit [of f arr 0 s chunk i] Array by (auto simp: ref_ok_def)
next
  case (RBTree t)
  then obtain k where "scan_tree A f brk aft (frm t) t = Some (Some (s, chunk, k))" "r = RefTree k"
    using assms by (auto simp: search_def)
  then show ?thesis using scan_tree_hit [of A f brk aft "frm t" t] RBTree by (simp add: ref_ok_def)
qed

lemma ref_ok_mem: "rb_spec A ent pos \<Longrightarrow> ref_ok A r chunk L \<Longrightarrow> chunk \<in> set (chunks_of ent L)"
  by (cases r; cases L)
    (auto simp: ref_ok_def chunks_of_def set_somes rb_spec_get vec_get_Some intro: nth_mem, metis nth_mem)

lemma align_up_ok:
  assumes n: "n \<le> MAX_PAGE_NUMBER" and a: "align_up n a = Some s"
  shows "unat n \<le> unat s \<and> unat s mod unat a = 0"
proof -
  let ?r = "unat n mod unat a"
  have a0: "0 < unat a" using a by (auto simp: align_up_def unat_gt_0 split: if_splits)
  have n': "unat n \<le> 0xFFFFFFFFFFFFF" using n by (simp add: word_le_nat_alt)
  have r: "unat (n mod a) = ?r" by (simp add: unat_mod_distrib)
  show ?thesis
  proof (cases "?r = 0")
    case True
    then have "n mod a = 0" using r by (metis unat_eq_zero)
    then show ?thesis using a True by (auto simp: align_up_def Let_def split: if_splits)
  next
    case False
    have lt: "?r < unat a" using a0 by simp
    have d: "unat (a - n mod a) = unat a - ?r" using lt r by (simp add: unat_sub word_le_nat_alt)
    have "unat n + (unat a - ?r) < 2 ^ 64"
    proof (cases "unat a \<le> unat n")
      case True
      then have "unat n + (unat a - ?r) \<le> 2 * 0xFFFFFFFFFFFFF" using n' by linarith
      then show ?thesis by simp
    next
      case a: False
      then have "?r = unat n" by simp
      moreover have "unat a < 2 ^ 64" using unsigned_less [of a] by simp
      ultimately show ?thesis using a by simp
    qed
    then have s: "unat s = unat n + (unat a - ?r)"
      using a False r d by (auto simp: align_up_def Let_def unat_add_nowrap split: if_splits)
    have "unat n + (unat a - ?r) = unat n div unat a * unat a + unat a"
      using lt div_mult_mod_eq [of "unat n" "unat a"] by linarith
    then have "(unat n + (unat a - ?r)) mod unat a = 0" by simp
    then show ?thesis using s by simp
  qed
qed

text \<open>
  A chunk that fits gives room for the request.  The sum saturates at the last page, so a
  request that reaches it is cut short there.
\<close>

lemma fit_ok:
  assumes hi: "hi \<le> MAX_PAGE_NUMBER" and lo: "lo \<le> MAX_PAGE_NUMBER" and num: "num \<noteq> 0"
    and top: "al = 1 \<or> hi < MAX_PAGE_NUMBER"
    and a: "align_up lo al = Some s" and le: "page_add Page4K s num \<le> hi"
  shows "lo \<le> s \<and> unat s mod unat al = 0 \<and> s \<le> page_add Page4K s (num - 1) \<and>
    page_add Page4K s (num - 1) \<le> hi \<and>
    unat (page_add Page4K s (num - 1)) = min 0xFFFFFFFFFFFFF (unat s + unat num - 1)"
proof -
  have n1: "unat (num - 1) = unat num - 1" and n0: "0 < unat num"
    using num by (simp_all add: unat_minus_one unat_gt_0)
  have hi': "unat hi \<le> 0xFFFFFFFFFFFFF" and le': "min 0xFFFFFFFFFFFFF (unat s + unat num) \<le> unat hi"
    using hi le by (simp_all add: word_le_nat_alt unat_page_add)
  have s: "unat s \<le> 0xFFFFFFFFFFFFF"
  proof (cases "al = 1")
    case True
    then have "s = lo" using a by (simp add: align_up_def Let_def)
    then show ?thesis using lo by (simp add: word_le_nat_alt)
  next
    case False
    then have "unat hi < 0xFFFFFFFFFFFFF" using top by (simp add: word_less_nat_alt)
    then show ?thesis using le' by (simp add: min_def split: if_splits)
  qed
  have e: "unat (page_add Page4K s (num - 1)) = min 0xFFFFFFFFFFFFF (unat s + unat num - 1)"
    using n0 by (simp add: unat_page_add n1)
  show ?thesis using align_up_ok [OF lo a] s hi' le' n0 e by (auto simp: word_le_nat_alt)
qed

definition req_ok :: "AllocationRequest \<Rightarrow> bool" where
  "req_ok req = (case req of WithinRange r \<Rightarrow> range_start r \<le> MAX_PAGE_NUMBER | AtVirtualAddress _ \<Rightarrow> False | _ \<Rightarrow> True)"

text \<open>What an allocation for a request, a size and an alignment promises.\<close>

definition served :: "('t \<Rightarrow> Chunk list) \<Rightarrow> usize \<Rightarrow> usize \<Rightarrow> RangeInclusive option \<Rightarrow> 't Inner \<Rightarrow>
    RangeInclusive \<Rightarrow> DeferredAllocAction \<Rightarrow> 't Inner \<Rightarrow> bool" where
  "served ent num al within L ap act L' \<longleftrightarrow>
     range_start ap \<le> range_end ap \<and>
     unat (range_end ap) = min 0xFFFFFFFFFFFFF (unat (range_start ap) + unat num - 1) \<and>
     unat (range_start ap) mod unat al = 0 \<and>
     (case within of None \<Rightarrow> True | Some r \<Rightarrow> range_start r \<le> range_start ap \<and> range_end ap \<le> range_end r) \<and>
     (\<forall>n. holds n ap + holds n (free1 act) + holds n (free2 act) + free_count ent n L' = free_count ent n L) \<and>
     list_ok ent L' \<and> chunk_ok (free1 act) \<and> chunk_ok (free2 act)"

lemma alloc_from_ok:
  assumes spec: "rb_spec A ent pos" and ok: "list_ok ent L" and r: "ref_ok A r chunk L"
    and s: "range_start chunk \<le> s" and se: "s \<le> page_add Page4K s (num - 1)"
    and fit: "page_add Page4K s (num - 1) \<le> range_end chunk"
    and e: "unat (page_add Page4K s (num - 1)) = min 0xFFFFFFFFFFFFF (unat s + unat num - 1)"
    and al: "unat s mod unat al = 0"
    and w: "case within of None \<Rightarrow> True | Some rg \<Rightarrow> range_start rg \<le> s \<and> page_add Page4K s (num - 1) \<le> range_end rg"
  shows "\<exists>ap act L'. alloc_from A num L (s, chunk, r) = Some (Inr (ap, act), L') \<and> served ent num al within L ap act L'"
proof -
  let ?e = "page_add Page4K s (num - 1)"
  obtain act L' where "adjust_chosen_chunk A s num chunk r L = Some ((range_new s ?e, act), L')"
    and "list_ok ent L'" "chunk_ok (free1 act)" "chunk_ok (free2 act)"
    and "\<And>n. holds n (range_new s ?e) + holds n (free1 act) + holds n (free2 act) + free_count ent n L' = free_count ent n L"
    using adjust_chosen_chunk_ok [OF spec r ok s fit se] by metis
  then show ?thesis using e se al w
    by (auto simp: alloc_from_def served_def split: option.splits)
qed

text \<open>Every hit of the two searches is served.\<close>

lemma hit_in_range_served:
  assumes spec: "rb_spec A ent pos" and ok: "list_ok ent L" and num: "num \<noteq> 0"
    and top: "al = 1 \<or> (\<forall>c \<in> set (chunks_of ent L). range_end c < MAX_PAGE_NUMBER)"
    and rng: "range_start rng \<le> MAX_PAGE_NUMBER"
    and hit: "search A (fit_in_range rng num al) brk aft frm L = Some (Some (s, chunk, r))"
  shows "\<exists>ap act L'. alloc_from A num L (s, chunk, r) = Some (Inr (ap, act), L') \<and>
    served ent num al (Some rng) L ap act L'"
proof -
  have r: "ref_ok A r chunk L" and f: "fit_in_range rng num al chunk = Some (Some s)"
    using search_hit [OF hit] by simp_all
  have mem: "chunk \<in> set (chunks_of ent L)" using ref_ok_mem [OF spec r] .
  have ch: "range_start chunk \<le> MAX_PAGE_NUMBER" "range_end chunk \<le> MAX_PAGE_NUMBER"
    using ok mem by (auto simp: list_ok_def chunk_ok_def)
  let ?lo = "max (range_start chunk) (range_start rng)" and ?hi = "min (range_end chunk) (range_end rng)"
  have a: "align_up ?lo al = Some s" and le: "page_add Page4K s num \<le> ?hi"
    using f by (auto simp: fit_in_range_def Let_def split: option.splits if_splits)
  have t: "al = 1 \<or> ?hi < MAX_PAGE_NUMBER" using top mem by (meson min.strict_coboundedI1)
  have b: "?lo \<le> MAX_PAGE_NUMBER" "?hi \<le> MAX_PAGE_NUMBER" using ch rng
    by (simp_all add: min.coboundedI1)
  have F: "?lo \<le> s \<and> unat s mod unat al = 0 \<and> s \<le> page_add Page4K s (num - 1) \<and>
      page_add Page4K s (num - 1) \<le> ?hi \<and>
      unat (page_add Page4K s (num - 1)) = min 0xFFFFFFFFFFFFF (unat s + unat num - 1)"
    by (rule fit_ok [OF b(2,1) num t a le])
  show ?thesis by (rule alloc_from_ok [OF spec ok r]) (use F in auto)
qed

lemma hit_in_chunk_served:
  assumes spec: "rb_spec A ent pos" and ok: "list_ok ent L" and num: "num \<noteq> 0"
    and top: "al = 1 \<or> (\<forall>c \<in> set (chunks_of ent L). range_end c < MAX_PAGE_NUMBER)"
    and hit: "search A (fit_in_chunk num al) brk aft frm L = Some (Some (s, chunk, r))"
  shows "\<exists>ap act L'. alloc_from A num L (s, chunk, r) = Some (Inr (ap, act), L') \<and> served ent num al None L ap act L'"
proof -
  have r: "ref_ok A r chunk L" and f: "fit_in_chunk num al chunk = Some (Some s)"
    using search_hit [OF hit] by simp_all
  have mem: "chunk \<in> set (chunks_of ent L)" using ref_ok_mem [OF spec r] .
  have a: "align_up (range_start chunk) al = Some s" and le: "page_add Page4K s num \<le> range_end chunk"
    using f by (auto simp: fit_in_chunk_def split: option.splits if_splits)
  have "range_start chunk \<le> MAX_PAGE_NUMBER" "range_end chunk \<le> MAX_PAGE_NUMBER"
    using ok mem by (auto simp: list_ok_def chunk_ok_def)
  from fit_ok [OF this(2,1) num _ a le] top mem
  have F: "range_start chunk \<le> s \<and> unat s mod unat al = 0 \<and> s \<le> page_add Page4K s (num - 1) \<and>
      page_add Page4K s (num - 1) \<le> range_end chunk \<and>
      unat (page_add Page4K s (num - 1)) = min 0xFFFFFFFFFFFFF (unat s + unat num - 1)" by blast
  show ?thesis by (rule alloc_from_ok [OF spec ok r]) (use F in auto)
qed

text \<open>The searches end: the cursor reaches the null object.\<close>

lemma scan_tree_returns:
  assumes spec: "rb_spec A ent pos" and f: "\<And>c. f c \<noteq> None"
  shows "\<exists>r. scan_tree A f brk aft c t = Some r"
proof (induction "if pos c t < length (ent t) then Suc (pos c t) else 0" arbitrary: c)
  case 0
  then have "rb_get A c t = None" by (simp add: rb_spec_get [OF spec] vec_get_None split: if_splits)
  then show ?case by (simp add: scan_tree.simps)
next
  case (Suc i)
  then have i: "pos c t < length (ent t)" "pos c t = i" by (auto split: if_splits)
  have "i = (if pos (rb_prev A c t) t < length (ent t) then Suc (pos (rb_prev A c t) t) else 0)"
    using i by (auto simp: rb_spec_prev [OF spec])
  from Suc.hyps(1) [OF this] obtain r where "scan_tree A f brk aft (rb_prev A c t) t = Some r" by blast
  moreover have "rb_get A c t = Some (ent t ! pos c t)" using i by (simp add: rb_spec_get [OF spec] vec_get_def)
  moreover obtain y where "f (ent t ! pos c t) = Some y" using f by blast
  ultimately show ?case by (subst scan_tree.simps) (auto split: option.split)
qed

lemma scan_array_returns: "(\<And>c. f c \<noteq> None) \<Longrightarrow> \<exists>r. scan_array f arr i = Some r"
  by (induction f arr i rule: scan_array.induct) (auto split: option.split)

lemma search_returns:
  assumes "rb_spec A ent pos" and "\<And>c. f c \<noteq> None"
  shows "\<exists>r. search A f brk aft frm L = Some r"
proof (cases L)
  case (Array arr)
  then show ?thesis using scan_array_returns [of f arr 0] assms(2) by (auto simp: search_def)
next
  case (RBTree t)
  then show ?thesis using scan_tree_returns [OF assms] by (fastforce simp: search_def)
qed

lemma fit_returns: "al \<noteq> 0 \<Longrightarrow> fit_in_range rng num al c \<noteq> None" "al \<noteq> 0 \<Longrightarrow> fit_in_chunk num al c \<noteq> None"
  by (auto simp: fit_in_range_def fit_in_chunk_def align_up_def Let_def)

definition alloc_outcome ::
  "('t \<Rightarrow> Chunk list) \<Rightarrow> usize \<Rightarrow> usize \<Rightarrow> RangeInclusive option \<Rightarrow> 't Inner \<Rightarrow>
     ('e + RangeInclusive \<times> DeferredAllocAction) \<times> 't Inner \<Rightarrow> bool" where
  "alloc_outcome ent num al within L res =
     (case res of (Inl _, L') \<Rightarrow> L' = L | (Inr (ap, act), L') \<Rightarrow> served ent num al within L ap act L')"

lemma served_weaken: "served ent num al (Some r) L ap act L' \<Longrightarrow> served ent num al None L ap act L'"
  by (auto simp: served_def)

lemma find_any_chunk_outcome:
  assumes spec: "rb_spec A ent pos" and ok: "list_ok ent L" and num: "num \<noteq> 0" and al: "al \<noteq> 0"
    and top: "al = 1 \<or> (\<forall>c \<in> set (chunks_of ent L). range_end c < MAX_PAGE_NUMBER)"
    and w: "\<And>r. within = Some r \<Longrightarrow> range_start r \<le> MAX_PAGE_NUMBER"
  shows "\<exists>res. find_any_chunk A low_end L num within al = Some res \<and> alloc_outcome ent num al within L res"
proof (cases low_end)
  case None
  then show ?thesis by (simp add: find_any_chunk_def alloc_outcome_def)
next
  case (Some l)
  define rng where "rng = (case within of Some r \<Rightarrow> r
    | None \<Rightarrow> range_new (page_add Page4K l 1) (page_sub Page4K DESIGNATED_PAGES_HIGH_START 1))"
  have rng: "range_start rng \<le> MAX_PAGE_NUMBER" using w page_add_le by (auto simp: rng_def split: option.split)
  let ?s1 = "search A (fit_in_range rng num al) (\<lambda>_. False) (\<lambda>c. range_start c \<le> range_start rng)
      (rb_upper A (range_end rng)) L"
  let ?s2 = "search A (fit_in_chunk num al) (\<lambda>_. False) (\<lambda>_. False) (rb_upper A l) L"
  let ?s3 = "search A (fit_in_chunk num al) (\<lambda>c. range_start c < DESIGNATED_PAGES_HIGH_START) (\<lambda>_. False) (rb_back A) L"
  note S = search_returns [OF spec] and fit = fit_returns [OF al]
  obtain r1 where r1: "?s1 = Some r1" using S fit(1) by blast
  obtain r2 where r2: "?s2 = Some r2" using S fit(2) by blast
  obtain r3 where r3: "?s3 = Some r3" using S fit(2) by blast
  have F: "find_any_chunk A low_end L num within al =
      (case r1 of Some hit \<Rightarrow> alloc_from A num L hit
       | None \<Rightarrow> if within \<noteq> None then Some (Inl (OutOfAddressSpace num within), L)
         else (case r2 of Some hit \<Rightarrow> alloc_from A num L hit
           | None \<Rightarrow> (case L of Array _ \<Rightarrow> Some (Inl (OutOfAddressSpace num None), L)
               | RBTree _ \<Rightarrow> (case r3 of Some hit \<Rightarrow> alloc_from A num L hit
                   | None \<Rightarrow> Some (Inl (OutOfAddressSpace num None), L)))))"
    unfolding find_any_chunk_def Some option.case Let_def rng_def [symmetric] r1 r2 r3 Option.bind.simps ..
  have H1: "\<exists>res. alloc_from A num L hit = Some res \<and> alloc_outcome ent num al within L res"
    if h: "r1 = Some hit" for hit
  proof -
    obtain s chunk r where hit: "hit = (s, chunk, r)" by (cases hit)
    obtain ap act L' where "alloc_from A num L hit = Some (Inr (ap, act), L')" "served ent num al (Some rng) L ap act L'"
      using hit_in_range_served [OF spec ok num top rng] r1 h hit by blast
    then show ?thesis using served_weaken by (cases within) (auto simp: alloc_outcome_def rng_def)
  qed
  have H2: "\<exists>res. alloc_from A num L hit = Some res \<and> alloc_outcome ent num al None L res"
    if "r2 = Some hit \<or> r3 = Some hit" for hit
  proof -
    obtain s chunk r where hit: "hit = (s, chunk, r)" by (cases hit)
    then show ?thesis using hit_in_chunk_served [OF spec ok num top] r2 r3 that
      by (fastforce simp: alloc_outcome_def)
  qed
  show ?thesis unfolding F using H1 H2
    by (auto simp: alloc_outcome_def split: option.splits Inner.splits)
qed

fun req_align :: "AllocationRequest \<Rightarrow> usize" where
  "req_align (AlignedTo a) = a"
| "req_align _ = 1"

fun req_range :: "AllocationRequest \<Rightarrow> RangeInclusive option" where
  "req_range (WithinRange r) = Some r"
| "req_range _ = None"

lemma allocate_outcome:
  assumes spec: "rb_spec A ent pos" and ok: "list_ok ent L" and num: "num \<noteq> 0"
    and top: "req_align req = 1 \<or> (\<forall>c \<in> set (chunks_of ent L). range_end c < MAX_PAGE_NUMBER)"
    and req: "req_ok req" "req_align req \<noteq> 0"
  shows "\<exists>res. allocate_pages_deferred A low_end req num L = Some res \<and>
    alloc_outcome ent num (req_align req) (req_range req) L res"
proof -
  have "\<And>r. req_range req = Some r \<Longrightarrow> range_start r \<le> MAX_PAGE_NUMBER"
    using req(1) by (cases req) (auto simp: req_ok_def)
  from find_any_chunk_outcome [where low_end = low_end, OF spec ok num req(2) top this]
  obtain res where r: "find_any_chunk A low_end L num (req_range req) (req_align req) = Some res"
    "alloc_outcome ent num (req_align req) (req_range req) L res" by blast
  have "allocate_pages_deferred A low_end req num L =
      Some (map_prod (map_sum alloc_err_str (\<lambda>x. x)) (\<lambda>x. x) res)"
    using r(1) num req(1) by (cases req) (auto simp: allocate_pages_deferred_def req_ok_def)
  then show ?thesis using r(2) by (cases res; cases "fst res") (auto simp: alloc_outcome_def)
qed

section \<open>Giving pages back\<close>

lemma list_insert_count:
  assumes spec: "rb_spec A ent pos" and ok: "list_ok ent L" and c: "chunk_ok c" "range_start c \<le> range_end c"
    and ins: "list_insert A c L = Inr L'"
  shows "free_count ent n L' = free_count ent n L + holds n c \<and> list_ok ent L'"
proof -
  have "mset (chunks_of ent L') = add_mset c (mset (chunks_of ent L)) \<and>
      (case L' of Array _ \<Rightarrow> True | RBTree t \<Rightarrow> sorted_chunks (ent t))"
  proof (cases L)
    case (Array arr)
    then obtain i where i: "position (\<lambda>e. e = None) arr = Some i" "L' = Array (arr[i := Some c])"
      using ins by (auto simp: list_insert_def split: option.splits)
    then have "i < length arr" "arr ! i = None" by (simp_all add: position_Some)
    then show ?thesis using mset_somes_update [of i arr "Some c"] i(2) Array by (simp add: chunks_of_def)
  next
    case (RBTree t)
    then show ?thesis using ins ok rb_spec_insert [OF spec, of t c]
      by (auto simp: list_insert_def chunks_of_def list_ok_def)
  qed
  then have m: "mset (chunks_of ent L') = add_mset c (mset (chunks_of ent L))"
    and s: "case L' of Array _ \<Rightarrow> True | RBTree t \<Rightarrow> sorted_chunks (ent t)" by blast+
  have "set (chunks_of ent L') = insert c (set (chunks_of ent L))"
    using arg_cong [OF m, of set_mset] by simp
  then have "list_ok ent L'" using ok c s by (auto simp: list_ok_def)
  then show ?thesis using free_count_mset [of ent L' "{#}" L "{# c #}" n] m by simp
qed

lemma size_in_pages_0:
  assumes "chunk_ok c"
  shows "size_in_pages Page4K c = 0 \<longleftrightarrow> \<not> range_start c \<le> range_end c"
proof -
  have "unat (range_end c) + 1 < 2 ^ 64" using assms by (simp add: chunk_ok_def word_le_nat_alt)
  then have "unat (size_in_pages Page4K c) = unat (range_end c) + 1 - unat (range_start c)"
    by (simp add: size_in_pages_def unat_add_one)
  then have "unat (size_in_pages Page4K c) = 0 \<longleftrightarrow> \<not> unat (range_start c) \<le> unat (range_end c)" by linarith
  then show ?thesis by (simp add: word_le_nat_alt unat_eq_zero)
qed

lemma holds_no_page: "\<not> range_start c \<le> range_end c \<Longrightarrow> holds n c = 0"
  by (auto simp: holds_def range_contains_def)

lemma insert_nonempty_count:
  assumes spec: "rb_spec A ent pos" and ok: "list_ok ent L" and c: "chunk_ok c"
    and ins: "insert_nonempty A c L = Some L'"
  shows "free_count ent n L' = free_count ent n L + holds n c \<and> list_ok ent L'"
proof (cases "range_start c \<le> range_end c")
  case True
  then have "size_in_pages Page4K c \<noteq> 0" using size_in_pages_0 [OF c] by simp
  then have "list_insert A c L = Inr L'" using ins by (auto simp: insert_nonempty_def word_gt_0 split: sum.splits)
  then show ?thesis using list_insert_count [OF spec ok c True] by blast
next
  case False
  then show ?thesis using ins ok size_in_pages_0 [OF c] holds_no_page [OF False] by (auto simp: insert_nonempty_def)
qed

lemma action_drop_count:
  assumes spec: "rb_spec A ent pos" and ok: "list_ok ent L" and c: "chunk_ok (free1 act)" "chunk_ok (free2 act)"
    and d: "action_drop A act L = Some L'"
  shows "free_count ent n L' = free_count ent n L + holds n (free1 act) + holds n (free2 act) \<and> list_ok ent L'"
proof -
  obtain L1 where L1: "insert_nonempty A (free1 act) L = Some L1" "insert_nonempty A (free2 act) L1 = Some L'"
    using d by (auto simp: action_drop_def split: Option.bind_splits)
  note 1 = insert_nonempty_count [OF spec ok c(1) L1(1)]
  have "list_ok ent L1" using 1 by blast
  from insert_nonempty_count [OF spec this c(2) L1(2)] 1 show ?thesis by simp
qed

text \<open>In the tree a chunk is merged with one neighbour or inserted.\<close>

lemma holds_join:
  assumes "unat (range_end a) + 1 = unat (range_start b)" "range_start a \<le> range_end a" "range_start b \<le> range_end b"
  shows "holds n (range_new (range_start a) (range_end b)) = holds n a + holds n b"
  using assms by (auto simp: holds_nat word_le_nat_alt)

lemma sorted_filter_prefix:
  "sorted_chunks cs \<Longrightarrow> i < length (filter (\<lambda>x. range_start x < k) cs) \<Longrightarrow> range_start (cs ! i) < k"
proof (induction cs arbitrary: i)
  case (Cons a cs)
  show ?case
  proof (cases "range_start a < k")
    case True
    then show ?thesis using Cons by (cases i) auto
  next
    case False
    then have "filter (\<lambda>x. range_start x < k) cs = []" using Cons.prems(1) by (auto simp: filter_empty_conv)
    then show ?thesis using Cons.prems(2) False by simp
  qed
qed simp

lemma sorted_filter_suffix:
  "sorted_chunks cs \<Longrightarrow> length (filter (\<lambda>x. range_start x < k) cs) \<le> i \<Longrightarrow> i < length cs \<Longrightarrow> k \<le> range_start (cs ! i)"
proof (induction cs arbitrary: i)
  case (Cons a cs)
  show ?case
  proof (cases "range_start a < k")
    case True
    then show ?thesis using Cons by (cases i) auto
  next
    case False
    then show ?thesis using Cons.prems by (cases i) (auto, metis nth_mem order_trans not_less)
  qed
qed simp

lemma sorted_chunks_nth:
  "sorted_chunks cs \<longleftrightarrow> (\<forall>i j. i < j \<longrightarrow> j < length cs \<longrightarrow> range_start (cs ! i) \<le> range_start (cs ! j))"
  by (auto simp: sorted_chunks_def sorted_iff_nth_mono_less)

end
