(* ===== verification/Page_Alloc_Correct.thy ===== *)
theory Page_Alloc_Correct
  imports Page_Allocator
begin

text \<open>
  What the page allocator of theory \<open>Page_Allocator\<close> guarantees: allocations are cut out of the free
  list page by page, dropped pages return to it, and where the request for a specific
  address has to merge chunks the accounting breaks.  A list of chunks with positions as cursors
  is an instance of the tree interface, on which the statements are evaluated.
\<close>

section \<open>A tree as a sorted list\<close>

definition list_api :: "(Chunk list, nat) rb_api" where
  "list_api =
     \<lparr> rb_new = [],
       rb_insert = (\<lambda>v t. takeWhile (\<lambda>x. range_start x < range_start v) t @ v #
                           dropWhile (\<lambda>x. range_start x < range_start v) t),
       rb_lower = (\<lambda>k t. length (filter (\<lambda>x. range_start x < k) t)),
       rb_upper = (\<lambda>k t. let m = length (filter (\<lambda>x. range_start x \<le> k) t) in if m = 0 then length t else m - 1),
       rb_back = (\<lambda>t. length t - 1),
       rb_get = (\<lambda>c t. vec_get t c),
       rb_next = (\<lambda>c t. if c < length t then Suc c else 0),
       rb_prev = (\<lambda>c t. if length t \<le> c then length t - 1 else if c = 0 then length t else c - 1),
       rb_remove = (\<lambda>c t. (vec_get t c, c, remove_at c t)),
       rb_replace = (\<lambda>c v t. if c < length t then (Inr (t ! c), t[c := v]) else (Inl v, t)) \<rparr>"

lemma sorted_insert_at:
  assumes "sorted_chunks t"
  shows "sorted_chunks (takeWhile (\<lambda>x. range_start x < range_start v) t @ v # dropWhile (\<lambda>x. range_start x < range_start v) t)"
  using assms
proof (induction t)
  case (Cons a t)
  show ?case
  proof (cases "range_start a < range_start v")
    case True
    then show ?thesis using Cons
      by (auto dest: set_takeWhileD set_dropWhileD)
  next
    case False
    then show ?thesis using Cons.prems by (auto intro: order_trans)
  qed
qed simp

lemma list_api_spec: "rb_spec list_api (\<lambda>t. t) (\<lambda>c t. c)"
proof -
  have m: "mset (takeWhile P t) + mset (dropWhile P t) = mset t" for P and t :: "Chunk list"
    by (metis mset_append takeWhile_dropWhile_id)
  show ?thesis unfolding rb_spec_def list_api_def rb_api.simps
    by (intro conjI allI impI) (auto simp: m sorted_insert_at vec_get_def Let_def)
qed

section \<open>Giving pages back\<close>

text \<open>The chunk that takes in its neighbour keeps its place in the order.\<close>

lemma sum_list_replace:
  "i < length xs \<Longrightarrow> sum_list (map f (xs[i := v])) + f (xs ! i) = sum_list (map f xs) + (f v :: nat)"
proof (induction xs arbitrary: i)
  case (Cons a xs)
  then show ?case by (cases i) (simp_all add: add.assoc)
qed simp

lemma replace_count:
  assumes i: "i < length cs" and h: "holds n v = holds n (cs ! i) + holds n chunk"
  shows "sum_list (map (holds n) (cs[i := v])) = sum_list (map (holds n) cs) + holds n chunk"
  using sum_list_replace [OF i, of "holds n" v] h by simp

lemma sorted_chunks_update_next:
  assumes "sorted_chunks cs" and "i = length (filter (\<lambda>x. range_start x < k) cs)" "i < length cs" "range_start v = k"
  shows "sorted_chunks (cs[i := v])"
  unfolding sorted_chunks_nth
proof (intro allI impI)
  fix a b assume ab: "a < b" "b < length (cs[i := v])"
  show "range_start (cs[i := v] ! a) \<le> range_start (cs[i := v] ! b)"
    using ab assms sorted_filter_prefix [of cs a k] sorted_filter_suffix [of cs k b]
      assms(1) [unfolded sorted_chunks_nth, rule_format, of a b]
    by (auto simp: nth_list_update less_imp_le)
qed

lemma sorted_chunks_update_same:
  "sorted_chunks cs \<Longrightarrow> i < length cs \<Longrightarrow> range_start v = range_start (cs ! i) \<Longrightarrow> sorted_chunks (cs[i := v])"
  by (simp add: sorted_chunks_def map_update) (metis length_map list_update_id nth_map)

lemma into_4k_4k: "chunk_ok c \<Longrightarrow> into_4k Page4K c = c"
  by (simp add: into_4k_def)

lemma free_count_member:
  "c \<in> set (chunks_of ent L) \<Longrightarrow> holds n c \<le> free_count ent n L"
  unfolding free_count_def by (simp add: member_le_sum_list)

text \<open>Two chunks that the code takes to be adjacent are: the sum does not saturate.\<close>

definition apart :: "Chunk \<Rightarrow> Chunk \<Rightarrow> bool" where
  "apart a b \<longleftrightarrow> chunk_ok a \<and> chunk_ok b \<and> range_start a \<le> range_end a \<and> range_start b \<le> range_end b \<and>
     (\<forall>n. \<not> (range_contains a n \<and> range_contains b n))"

lemma adjacent_union:
  assumes "apart a b" and adj: "page_add Page4K (range_end a) 1 = range_start b"
  shows "chunk_ok (range_new (range_start a) (range_end b)) \<and> range_start a \<le> range_end b \<and>
    (\<forall>n. holds n (range_new (range_start a) (range_end b)) = holds n a + holds n b)"
proof -
  have a: "chunk_ok a" "range_start a \<le> range_end a" and b: "chunk_ok b" "range_start b \<le> range_end b"
    and dis: "\<not> (range_contains a n \<and> range_contains b n)" for n using assms(1) by (auto simp: apart_def)
  have "range_end a \<noteq> MAX_PAGE_NUMBER"
  proof
    assume E: "range_end a = MAX_PAGE_NUMBER"
    have "unat (page_add Page4K (range_end a) 1) = unat MAX_PAGE_NUMBER" by (simp add: E unat_page_add)
    then have "range_start b = MAX_PAGE_NUMBER" using adj by (metis word_unat_eq_iff)
    then show False using dis [of MAX_PAGE_NUMBER] E a b by (simp add: range_contains_def chunk_ok_def)
  qed
  then have e: "unat (range_end a) + 1 = unat (range_start b)"
    using adj unat_page_succ [of "range_end a"] a(1) by (simp add: chunk_ok_def)
  then have "range_start a \<le> range_end b" using a(2) b(2) by (simp add: word_le_nat_alt)
  then show ?thesis using a(1) b(1) holds_join [OF e a(2) b(2)] by (simp add: chunk_ok_def)
qed

text \<open>Replacing a chunk by its union with the pages.\<close>

lemma absorb_ok:
  assumes spec: "rb_spec A ent pos" and ok: "list_ok ent (RBTree t)" and c: "pos c t < length (ent t)"
    and v: "chunk_ok v" "range_start v \<le> range_end v" "sorted_chunks ((ent t)[pos c t := v])"
    and h: "\<And>n. holds n v = holds n (ent t ! pos c t) + holds n pages"
  obtains t' where "rb_replace A c v t = (Inr (ent t ! pos c t), t')" "list_ok ent (RBTree t')"
    "\<And>n. free_count ent n (RBTree t') = free_count ent n (RBTree t) + holds n pages"
proof -
  obtain t' where t': "rb_replace A c v t = (Inr (ent t ! pos c t), t')" "ent t' = (ent t)[pos c t := v]"
    using rb_spec_replace [OF spec c v(3)] by blast
  have "list_ok ent (RBTree t')"
    using ok v t'(2) set_update_subset_insert [of "ent t" "pos c t" v] by (auto simp: list_ok_def chunks_of_def)
  moreover have "free_count ent n (RBTree t') = free_count ent n (RBTree t) + holds n pages" for n
    using replace_count [OF c h] by (simp add: free_count_def chunks_of_def t'(2))
  ultimately show ?thesis using that t'(1) by blast
qed

lemma ap_drop_tree:
  assumes spec: "rb_spec A ent pos" and ok: "list_ok ent (RBTree t)" and p: "chunk_ok pages"
    and le: "range_start pages \<le> range_end pages"
    and own: "\<And>n. range_contains pages n \<Longrightarrow> free_count ent n (RBTree t) = 0"
  shows "\<exists>t'. ap_drop A Page4K pages (RBTree t) = RBTree t' \<and> list_ok ent (RBTree t') \<and>
    (\<forall>n. free_count ent n (RBTree t') = free_count ent n (RBTree t) + holds n pages)"
proof -
  define c where "c = rb_lower A (range_start pages) t"
  define P where "P = (\<lambda>t'. list_ok ent (RBTree t') \<and>
    (\<forall>n. free_count ent n (RBTree t') = free_count ent n (RBTree t) + holds n pages))"
  have srt: "sorted_chunks (ent t)" using ok by (simp add: list_ok_def)
  have pc: "pos c t = length (filter (\<lambda>x. range_start x < range_start pages) (ent t))"
    by (simp add: c_def rb_spec_lower [OF spec srt])
  have apart: "apart pages d" "apart d pages" if "d \<in> set (ent t)" for d
  proof -
    have "\<not> (range_contains pages n \<and> range_contains d n)" for n
      using own [of n] free_count_member [of d ent "RBTree t" n] that by (auto simp: chunks_of_def holds_def)
    then show "apart pages d" "apart d pages" using ok that p le by (auto simp: apart_def list_ok_def chunks_of_def)
  qed
  have at: "pos k t < length (ent t)" "ent t ! pos k t = d" "d \<in> set (ent t)" if "rb_get A k t = Some d" for k d
    using that by (auto simp: rb_spec_get [OF spec] vec_get_Some)
  have nxt: "\<exists>t'. rb_replace A c (range_new (range_start pages) (range_end d)) t = (Inr d, t') \<and> P t'"
    if d: "rb_get A c t = Some d" and adj: "page_add Page4K (range_end pages) 1 = range_start d" for d
  proof -
    let ?v = "range_new (range_start pages) (range_end d)"
    note U = adjacent_union [OF apart(1) [OF at(3) [OF d]] adj]
    have "sorted_chunks ((ent t)[pos c t := ?v])"
      by (rule sorted_chunks_update_next [OF srt pc at(1) [OF d]]) simp
    from absorb_ok [OF spec ok at(1) [OF d] _ _ this, of pages] U at(2) [OF d]
    show ?thesis unfolding P_def by (metis add.commute range_new_simps)
  qed
  have prv: "\<exists>t'. rb_replace A (rb_prev A c t) (range_new (range_start d) (range_end pages)) t = (Inr d, t') \<and> P t'"
    if d: "rb_get A (rb_prev A c t) t = Some d" and adj: "page_add Page4K (range_end d) 1 = range_start pages" for d
  proof -
    let ?v = "range_new (range_start d) (range_end pages)"
    note U = adjacent_union [OF apart(2) [OF at(3) [OF d]] adj]
    have "sorted_chunks ((ent t)[pos (rb_prev A c t) t := ?v])"
      by (rule sorted_chunks_update_same [OF srt at(1) [OF d]]) (simp add: at(2) [OF d])
    from absorb_ok [OF spec ok at(1) [OF d] _ _ this, of pages] U at(2) [OF d]
    show ?thesis unfolding P_def by (metis range_new_simps)
  qed
  have ins: "P (rb_insert A pages t)"
    using list_insert_count [OF spec ok p le] by (auto simp: P_def list_insert_def)
  have "size_in_pages Page4K pages \<noteq> 0" using size_in_pages_0 [OF p] le by simp
  then have "\<exists>t'. ap_drop A Page4K pages (RBTree t) = RBTree t' \<and> P t'" using nxt prv ins
    by (auto simp: ap_drop_def Let_def into_4k_4k [OF p] simp flip: c_def split: option.split)
  then show ?thesis by (simp only: P_def)
qed


section \<open>Allocations\<close>


definition ex_tree :: "Chunk list Inner" where
  "ex_tree = RBTree [range_new 0x10 0x1F, range_new 0x40 0x7F]"

lemma ex_tree_ok: "list_ok (\<lambda>t. t) ex_tree"
  by (simp add: ex_tree_def list_ok_def chunks_of_def chunk_ok_def)


text \<open>Dropping the deferred action in the tree cannot fail.\<close>

lemma action_drop_tree: "\<exists>t'. action_drop A act (RBTree t) = Some (RBTree t')"
  by (simp add: action_drop_def insert_nonempty_def list_insert_def)

lemma alloc_from_tree:
  assumes "alloc_from A num (RBTree t) hit = Some (res, L')"
  shows "\<exists>t'. L' = RBTree t'"
proof -
  obtain s chunk r where hit: "hit = (s, chunk, r)" by (cases hit)
  have "\<exists>t'. snd (value_remove A r (RBTree t)) = RBTree t'"
    by (cases r) (auto simp: value_remove_def split: prod.split)
  then show ?thesis using assms
    by (auto simp: alloc_from_def hit adjust_chosen_chunk_def Let_def split: prod.splits if_splits)
qed

lemma find_any_chunk_tree:
  assumes "find_any_chunk A low_end (RBTree t) num within al = Some (res, L')"
  shows "\<exists>t'. L' = RBTree t'"
  using assms by (cases low_end)
    (auto simp: find_any_chunk_def Let_def split: Option.bind_splits option.splits if_splits dest: alloc_from_tree)

lemma allocate_now_tree:
  assumes spec: "rb_spec A ent pos" and ok: "list_ok ent (RBTree t)" and num: "num \<noteq> 0"
  obtains e where "allocate_now A (allocate_pages_deferred A low_end Any num (RBTree t)) = Some (Inl e, RBTree t)"
  | ap t' where "allocate_now A (allocate_pages_deferred A low_end Any num (RBTree t)) = Some (Inr ap, RBTree t')"
      "list_ok ent (RBTree t')" "range_start ap \<le> range_end ap" "chunk_ok ap"
      "unat (range_end ap) = min 0xFFFFFFFFFFFFF (unat (range_start ap) + unat num - 1)"
      "\<And>n. holds n ap + free_count ent n (RBTree t') = free_count ent n (RBTree t)"
proof -
  obtain res L1 where r: "allocate_pages_deferred A low_end Any num (RBTree t) = Some (res, L1)"
    "alloc_outcome ent num 1 None (RBTree t) (res, L1)"
    using allocate_outcome [OF spec ok num, of Any low_end] by (auto simp: req_ok_def)
  show thesis
  proof (cases res)
    case (Inl e)
    then show thesis using r that(1) by (simp add: allocate_now_def alloc_outcome_def)
  next
    case (Inr x)
    then obtain ap act where x: "res = Inr (ap, act)" by (cases x) simp
    then have sv: "served ent num 1 None (RBTree t) ap act L1" using r(2) by (simp add: alloc_outcome_def)
    obtain e where "find_any_chunk A low_end (RBTree t) num None 1 = Some (e, L1)"
      using r(1) num by (auto simp: allocate_pages_deferred_def)
    from find_any_chunk_tree [OF this] obtain t1 where t1: "L1 = RBTree t1" ..
    obtain t2 where t2: "action_drop A act L1 = Some (RBTree t2)" using action_drop_tree [of A act t1] unfolding t1 by blast
    have c2: "free_count ent n (RBTree t2) = free_count ent n L1 + holds n (free1 act) + holds n (free2 act)"
      and ok2: "list_ok ent (RBTree t2)" for n
      using action_drop_count [OF spec _ _ _ t2] sv by (auto simp: served_def)
    have acc: "holds n ap + free_count ent n (RBTree t2) = free_count ent n (RBTree t)" for n
    proof -
      have "holds n ap + holds n (free1 act) + holds n (free2 act) + free_count ent n L1 = free_count ent n (RBTree t)"
        using sv by (simp add: served_def)
      then show ?thesis using c2 [of n] by linarith
    qed
    have ap: "range_start ap \<le> range_end ap" "chunk_ok ap" "unat (range_end ap) = min 0xFFFFFFFFFFFFF (unat (range_start ap) + unat num - 1)"
      using sv by (auto simp: served_def chunk_ok_def word_le_nat_alt)
    show thesis by (rule that(2) [OF _ ok2 ap acc]) (simp add: allocate_now_def r(1) x t2)
  qed
qed


lemma ex_tree_once: "free_count (\<lambda>t. t) n ex_tree \<le> 1"
  by (auto simp: ex_tree_def free_count_def chunks_of_def holds_nat word_le_nat_alt)


section \<open>Requests for a specific address\<close>

text \<open>The cut in the merge path: the chunk given is not the one that is removed.\<close>

lemma adjust_beyond:
  assumes ab: "a \<le> b" and b: "unat b < unat a + unat num - 1" "unat a + unat num - 1 < unat MAX_PAGE_NUMBER"
    and rem: "value_remove A r L = (Some (range_new a c), L')"
  shows "\<exists>act. adjust_chosen_chunk A a num (range_new a b) r L = Some ((range_new a (a + (num - 1)), act), L') \<and>
    (\<forall>n. holds n (free1 act) = 0 \<and> holds n (free2 act) = 0)"
proof -
  have n1: "unat (num - 1) = unat num - 1" using b(1) ab by (intro unat_minus_one) (auto simp: word_le_nat_alt)
  have n0: "0 < unat num" using b(1) ab by (simp add: word_le_nat_alt)
  have e: "unat (page_add Page4K a (num - 1)) = unat a + unat num - 1"
    using b n1 n0 by (simp add: unat_page_add)
  have "unat (a + (num - 1)) = unat a + unat num - 1" using b n1 n0 by (simp add: unat_add_nowrap)
  then have eq: "page_add Page4K a (num - 1) = a + (num - 1)" using e by (simp add: word_unat_eq_iff)
  have ne: "page_add Page4K a (num - 1) \<noteq> MAX_PAGE_NUMBER" using e b(2) by auto
  have e1: "unat (page_add Page4K (page_add Page4K a (num - 1)) 1) = unat a + unat num"
    using unat_page_succ [OF page_add_le ne] e b(1) by simp
  have s1: "a \<noteq> 0 \<Longrightarrow> unat (page_sub Page4K a 1) < unat a" by (simp add: unat_page_sub1 unat_gt_0)
  let ?e = "page_add Page4K a (num - 1)"
  let ?b = "if a = 0 then None else Some (range_new a (page_sub Page4K a 1))"
  let ?act = "DeferredAllocAction_new ?b (Some (range_new (page_add Page4K ?e 1) b))"
  have "adjust_chosen_chunk A a num (range_new a b) r L = Some ((range_new a ?e, ?act), L')"
    using rem ne s1 e e1 b(1) n0
    by (auto simp: adjust_chosen_chunk_def Let_def range_contains_def word_le_nat_alt)
  moreover have "holds n (free1 ?act) = 0" "holds n (free2 ?act) = 0" for n
    using s1 e1 b(1) by (auto simp: DeferredAllocAction_new_def holds_nat Chunk_empty_def range_empty_def)
  ultimately show ?thesis unfolding eq by blast
qed

text \<open>
  A request for a specific address whose chunk is too short merges the chunk with its
  successors and then cuts the allocation out of the unmerged chunk: whatever the
  number of pages, the request succeeds, even past the end of the merged chunk, and none of the
  pages of the merged chunk that it leaves over is free afterwards.
\<close>

theorem specific_merge_unsound:
  assumes spec: "rb_spec A ent pos" and ent: "ent t = [range_new a b, range_new (b + 1) c]"
    and ab: "a \<le> b" "b < c" "c < MAX_PAGE_NUMBER"
    and num: "unat b < unat a + unat num - 1" "unat a + unat num - 1 < unat MAX_PAGE_NUMBER"
  shows "\<exists>act L'. find_specific_chunk A (RBTree t) a num = Some (Inr (range_new a (a + (num - 1)), act), L') \<and>
    (\<forall>n. holds n (free1 act) + holds n (free2 act) + free_count ent n L' = 0)"
proof -
  have b1: "unat (b + 1) = unat b + 1"
    using ab(2,3) by (simp add: unat_add_one word_less_nat_alt)
  have ab1: "a < b + 1" "a \<le> b + 1" using ab(1) b1 by (simp_all add: word_le_nat_alt word_less_nat_alt)
  have b1b: "page_sub Page4K (b + 1) 1 = b" using b1 by (simp add: word_unat_eq_iff unat_page_sub1)
  have srt: "sorted_chunks (ent t)" using ab1 by (simp add: ent)
  define k where "k = rb_upper A a t"
  have k: "pos k t = 0" using ab1 by (simp add: k_def rb_spec_upper [OF spec srt] ent Let_def not_le)
  have g: "rb_get A k t = Some (range_new a b)" by (simp add: rb_spec_get [OF spec] k ent vec_get_def)
  have k1: "pos (rb_next A k t) t = 1" by (simp add: rb_spec_next [OF spec] k ent)
  have g1: "rb_get A (rb_next A k t) t = Some (range_new (b + 1) c)"
    by (simp add: rb_spec_get [OF spec] k1 ent vec_get_def)
  obtain k2 t2 where rm: "rb_remove A (rb_next A k t) t = (Some (range_new (b + 1) c), k2, t2)"
    and t2: "ent t2 = [range_new a b]" "pos k2 t2 = 1"
    using rb_spec_remove [OF spec, of "rb_next A k t" t] unfolding k1 ent by auto
  have "rb_get A k2 t2 = None" by (simp add: rb_spec_get [OF spec] t2 vec_get_def)
  then have loop: "merge_loop A (rb_next A k t) t b = Some (k2, t2, c)"
    using g1 rm b1b by (simp add: merge_loop.simps)
  have k3: "pos (rb_prev A k2 t2) t2 = 0" by (simp add: rb_spec_prev [OF spec] t2)
  obtain t3 where rp: "rb_replace A (rb_prev A k2 t2) (range_new a c) t2 = (Inr (range_new a b), t3)"
    and t3: "ent t3 = [range_new a c]" "pos (rb_prev A k2 t2) t3 = 0"
    using rb_spec_replace [OF spec, of "rb_prev A k2 t2" t2 "range_new a c"] k3 t2 by auto
  obtain k4 t4 where "rb_remove A (rb_prev A k2 t2) t3 = (Some (range_new a c), k4, t4)" and t4: "ent t4 = []"
    using rb_spec_remove [OF spec, of "rb_prev A k2 t2" t3] t3 by auto
  then have "value_remove A (RefTree (rb_prev A k2 t2)) (RBTree t3) = (Some (range_new a c), RBTree t4)"
    by (simp add: value_remove_def)
  note adj = adjust_beyond [OF ab(1) num this]
  have "num \<noteq> 0" using num(1) ab(1) by (auto simp: word_le_nat_alt)
  then have "\<not> page_add Page4K a (num - 1) \<le> b"
    using num unat_minus_one [of num] by (simp add: word_le_nat_alt unat_page_add)
  then have F: "find_specific_chunk A (RBTree t) a num =
      alloc_from A num (RBTree t3) (a, range_new a b, RefTree (rb_prev A k2 t2))"
    using g loop rp ab(2) by (simp add: find_specific_chunk_def Let_def flip: k_def)
  have "free_count ent n (RBTree t4) = 0" for n by (simp add: free_count_def chunks_of_def t4)
  then show ?thesis using adj unfolding F by (fastforce simp: alloc_from_def)
qed

theorem specific_merge_unsound_witness:
  "\<exists>act L'. find_specific_chunk list_api (RBTree [range_new 0x10 0x11, range_new (0x11 + 1) 0x20]) 0x10 0x100 =
      Some (Inr (range_new 0x10 (0x10 + (0x100 - 1)), act), L') \<and>
    (\<forall>n. holds n (free1 act) + holds n (free2 act) + free_count (\<lambda>t. t) n L' = 0)"
  by (rule specific_merge_unsound [OF list_api_spec, where b = "0x11" and c = "0x20"]) simp_all


section \<open>The initial free list\<close>

lemma region_pages [simp]:
  "DESIGNATED_PAGES_HIGH_START = 0xFFFFFE0000000"
  "containing_address (canonicalize_virtual_address KERNEL_HEAP_START) = 0xFFFFFE8000000"
  "containing_address (canonicalize_virtual_address (RECURSIVE_P4_START - 1)) = 0xFFFFFEFFFFFFF"
  "containing_address (canonicalize_virtual_address KERNEL_TEXT_START) = 0xFFFFFF8000000"
  "containing_address (canonicalize_virtual_address RECURSIVE_P4_START) = 0xFFFFFF0000000"
  by code_simp+

text \<open>The array and the tree made from it hold the same chunks.\<close>

lemma fold_insert_ok:
  assumes spec: "rb_spec A ent pos" and "sorted_chunks (ent t)"
  shows "mset (ent (fold (\<lambda>elem tree. case elem of Some e \<Rightarrow> rb_insert A e tree | None \<Rightarrow> tree) arr t)) =
      mset (ent t) + mset (somes arr) \<and>
    sorted_chunks (ent (fold (\<lambda>elem tree. case elem of Some e \<Rightarrow> rb_insert A e tree | None \<Rightarrow> tree) arr t))"
  using assms(2)
proof (induction arr arbitrary: t rule: somes.induct)
  case (3 x xs)
  then show ?case using rb_spec_insert [OF spec "3.prems", of x] by simp
qed simp_all

lemma convert_chunks:
  assumes spec: "rb_spec A ent pos"
  shows "mset (chunks_of ent (convert_to_heap_allocated A L)) = mset (chunks_of ent L) \<and>
    (list_ok ent L \<longrightarrow> list_ok ent (convert_to_heap_allocated A L))"
proof (cases L)
  case (Array arr)
  have "sorted_chunks (ent (rb_new A))" by (simp add: rb_spec_new [OF spec])
  note F = fold_insert_ok [OF spec this, of arr]
  have m: "mset (chunks_of ent (convert_to_heap_allocated A L)) = mset (chunks_of ent L)"
    unfolding Array chunks_of_def convert_to_heap_allocated_def Inner.case using F
    by (simp only: rb_spec_new [OF spec] mset.simps add_0)
  then have "set (chunks_of ent (convert_to_heap_allocated A L)) = set (chunks_of ent L)" by (metis set_mset_mset)
  moreover have "case convert_to_heap_allocated A L of Array _ \<Rightarrow> True | RBTree t \<Rightarrow> sorted_chunks (ent t)"
    unfolding Array convert_to_heap_allocated_def Inner.case using F by blast
  ultimately show ?thesis using m by (simp add: list_ok_def)
qed (simp add: convert_to_heap_allocated_def)

lemma convert_count: "rb_spec A ent pos \<Longrightarrow> free_count ent n (convert_to_heap_allocated A L) = free_count ent n L"
  using free_count_mset [of ent "convert_to_heap_allocated A L" "{#}" L "{#}" n] convert_chunks [of A ent pos L] by simp

lemma page_alloc_init_None:
  assumes "end_vaddr < 0x800000000000"
  shows "page_alloc_init end_vaddr None L0 = Some (Some (containing_address end_vaddr),
    Array ([Some (range_new 0 (containing_address end_vaddr)),
            Some (range_new (page_add Page4K (containing_address end_vaddr) 1) 0xFFFFFDFFFFFFF),
            Some (range_new 0xFFFFFE8000000 0xFFFFFEFFFFFFF), Some (range_new 0xFFFFFF8000000 MAX_PAGE)] @ replicate 28 None))"
proof -
  have "start_address Virtual 0xFFFFFE0000000 = 0xFFFFFE0000000000" by code_simp
  moreover have "page_sub Page4K 0xFFFFFE0000000 1 = 0xFFFFFDFFFFFFF"
    by (simp add: word_unat_eq_iff unat_page_sub1)
  moreover have "containing_address 0 = 0" by (simp add: containing_address_def)
  moreover have "end_vaddr < 0xFFFFFE0000000000" using assms by (simp add: word_less_nat_alt)
  ultimately show ?thesis by (simp add: page_alloc_init_def Let_def)
qed

text \<open>
  Initialised at a lower-half address, the free list is well formed and holds every page of the
  address space exactly once, but for the two page-table entries used for recursive mapping, which it does
  not hold at all; moving it into the tree changes neither.
\<close>

theorem page_alloc_init_ok:
  assumes spec: "rb_spec A ent pos" and low: "end_vaddr < 0x800000000000"
  shows "\<exists>L. page_alloc_init end_vaddr None L0 = Some (Some (containing_address end_vaddr), L) \<and>
    list_ok ent L \<and> list_ok ent (convert_to_heap_allocated A L) \<and>
    (\<forall>n. free_count ent n (convert_to_heap_allocated A L) = free_count ent n L \<and>
      free_count ent n L =
        (if MAX_PAGE < n \<or>
            DESIGNATED_PAGES_HIGH_START \<le> n \<and> n < containing_address (new_canonical Virtual KERNEL_HEAP_START) \<or>
            containing_address (new_canonical Virtual RECURSIVE_P4_START) \<le> n \<and>
              n < containing_address (new_canonical Virtual KERNEL_TEXT_START)
         then 0 else 1))"
proof -
  let ?p = "containing_address end_vaddr"
  let ?cs = "[range_new 0 ?p, range_new (page_add Page4K ?p 1) 0xFFFFFDFFFFFFF,
      range_new 0xFFFFFE8000000 0xFFFFFEFFFFFFF, range_new 0xFFFFFF8000000 MAX_PAGE]"
  let ?L = "Array (map Some ?cs @ replicate 28 None)"
  have p: "unat ?p < 0x800000000"
  proof -
    have "unat end_vaddr < 0x800000000 * 4096" using low by (simp add: word_less_nat_alt)
    then show ?thesis unfolding unat_containing by (rule less_mult_imp_div_less)
  qed
  then have p1: "unat (page_add Page4K ?p 1) = unat ?p + 1" by (simp add: unat_page_add)
  have cs: "chunks_of ent ?L = ?cs" by (simp add: chunks_of_def numeral_eq_Suc)
  have ok: "list_ok ent ?L" unfolding list_ok_def cs
    using p p1 by (simp add: chunk_ok_def word_le_nat_alt)
  have "free_count ent n ?L = (if MAX_PAGE < n \<or> 0xFFFFFE0000000 \<le> n \<and> n < 0xFFFFFE8000000 \<or>
      0xFFFFFF0000000 \<le> n \<and> n < 0xFFFFFF8000000 then 0 else 1)" for n
    unfolding free_count_def cs using p p1 by (auto simp: holds_nat word_le_nat_alt word_less_nat_alt)
  then show ?thesis
    using page_alloc_init_None [OF low, of L0] convert_chunks [OF spec, of ?L] convert_count [OF spec, of _ ?L] ok
    by (intro exI [of _ ?L]) simp
qed

theorem page_alloc_init_ok_witness:
  "\<exists>L. page_alloc_init 0x1234000 None (Array []) = Some (Some (containing_address 0x1234000), L) \<and>
    list_ok (\<lambda>t. t) L \<and> list_ok (\<lambda>t. t) (convert_to_heap_allocated list_api L) \<and>
    (\<forall>n. free_count (\<lambda>t. t) n (convert_to_heap_allocated list_api L) = free_count (\<lambda>t. t) n L \<and>
      free_count (\<lambda>t. t) n L =
        (if MAX_PAGE < n \<or>
            DESIGNATED_PAGES_HIGH_START \<le> n \<and> n < containing_address (new_canonical Virtual KERNEL_HEAP_START) \<or>
            containing_address (new_canonical Virtual RECURSIVE_P4_START) \<le> n \<and>
              n < containing_address (new_canonical Virtual KERNEL_TEXT_START)
         then 0 else 1))"
  by (rule page_alloc_init_ok [OF list_api_spec]) simp

end
