(* ===== verification/Pte_Flags.thy ===== *)
theory Pte_Flags
  imports Memory_Structs
begin

unbundle bit_operations_syntax

text \<open>
  Page table entries on x86-64: their flags (\<open>kernel/pte_flags/src/lib.rs\<close>, \<open>pte_flags_x86_64.rs\<close>) and the entry
  itself (\<open>kernel/page_table_entry/src/lib.rs\<close>).  The general flags and those of x86-64 are 64-bit words with the
  same bit positions, so each setter and getter is one definition for both.  \<open>set\<close>, \<open>contains\<close> and
  \<open>from_bits_truncate\<close> are those of the \<open>bitflags\<close> crate.
\<close>

type_synonym PteFlags = u64

section \<open>Flags\<close>

definition flag :: "nat \<Rightarrow> PteFlags" where "flag k = push_bit k 1"

abbreviation VALID :: PteFlags where "VALID \<equiv> flag 0"
abbreviation WRITABLE :: PteFlags where "WRITABLE \<equiv> flag 1"
abbreviation USER_ACCESSIBLE :: PteFlags where "USER_ACCESSIBLE \<equiv> flag 2"
abbreviation WRITE_THROUGH :: PteFlags where "WRITE_THROUGH \<equiv> flag 3"
abbreviation CACHE_DISABLE :: PteFlags where "CACHE_DISABLE \<equiv> flag 4"
abbreviation ACCESSED :: PteFlags where "ACCESSED \<equiv> flag 5"
abbreviation DIRTY :: PteFlags where "DIRTY \<equiv> flag 6"
abbreviation HUGE_PAGE :: PteFlags where "HUGE_PAGE \<equiv> flag 7"
abbreviation GLOBAL :: PteFlags where "GLOBAL \<equiv> flag 8"
abbreviation EXCLUSIVE :: PteFlags where "EXCLUSIVE \<equiv> flag 55"
abbreviation NOT_EXECUTABLE :: PteFlags where "NOT_EXECUTABLE \<equiv> flag 63"

abbreviation DEVICE_MEMORY :: PteFlags where "DEVICE_MEMORY \<equiv> CACHE_DISABLE"
abbreviation PAT_BIT0 :: PteFlags where "PAT_BIT0 \<equiv> WRITE_THROUGH"
abbreviation PAT_BIT1 :: PteFlags where "PAT_BIT1 \<equiv> CACHE_DISABLE"
abbreviation PAT_BIT2_FOR_P1 :: PteFlags where "PAT_BIT2_FOR_P1 \<equiv> flag 7"

text \<open>\<open>all()\<close> of the two types.\<close>

definition x86_all :: PteFlags where
  "x86_all = VALID OR WRITABLE OR USER_ACCESSIBLE OR WRITE_THROUGH OR CACHE_DISABLE OR ACCESSED OR DIRTY OR HUGE_PAGE
     OR GLOBAL OR EXCLUSIVE OR NOT_EXECUTABLE"

definition general_all :: PteFlags where
  "general_all = VALID OR WRITABLE OR USER_ACCESSIBLE OR DEVICE_MEMORY OR ACCESSED OR DIRTY OR GLOBAL
     OR NOT_EXECUTABLE OR EXCLUSIVE"

definition flag_set :: "PteFlags \<Rightarrow> bool \<Rightarrow> PteFlags \<Rightarrow> PteFlags" where
  "flag_set f enable w = (if enable then w OR f else w AND NOT f)"

definition flag_contains :: "PteFlags \<Rightarrow> PteFlags \<Rightarrow> bool" where
  "flag_contains w f \<longleftrightarrow> w AND f = f"

definition PteFlags_new :: PteFlags where
  "PteFlags_new = (ACCESSED OR NOT_EXECUTABLE) AND general_all"

definition PteFlagsX86_64_new :: PteFlags where
  "PteFlagsX86_64_new = NOT_EXECUTABLE"

definition pte_valid :: "bool \<Rightarrow> PteFlags \<Rightarrow> PteFlags" where "pte_valid = flag_set VALID"
definition pte_writable :: "bool \<Rightarrow> PteFlags \<Rightarrow> PteFlags" where "pte_writable = flag_set WRITABLE"
definition pte_executable :: "bool \<Rightarrow> PteFlags \<Rightarrow> PteFlags" where "pte_executable enable = flag_set NOT_EXECUTABLE (\<not> enable)"
definition pte_device_memory :: "bool \<Rightarrow> PteFlags \<Rightarrow> PteFlags" where "pte_device_memory = flag_set DEVICE_MEMORY"
definition pte_exclusive :: "bool \<Rightarrow> PteFlags \<Rightarrow> PteFlags" where "pte_exclusive = flag_set EXCLUSIVE"
definition pte_accessed :: "bool \<Rightarrow> PteFlags \<Rightarrow> PteFlags" where "pte_accessed = flag_set ACCESSED"
definition pte_dirty :: "bool \<Rightarrow> PteFlags \<Rightarrow> PteFlags" where "pte_dirty = flag_set DIRTY"

definition is_valid :: "PteFlags \<Rightarrow> bool" where "is_valid w = flag_contains w VALID"
definition is_writable :: "PteFlags \<Rightarrow> bool" where "is_writable w = flag_contains w WRITABLE"
definition is_executable :: "PteFlags \<Rightarrow> bool" where "is_executable w = (\<not> flag_contains w NOT_EXECUTABLE)"
definition is_device_memory :: "PteFlags \<Rightarrow> bool" where "is_device_memory w = flag_contains w DEVICE_MEMORY"
definition is_dirty :: "PteFlags \<Rightarrow> bool" where "is_dirty w = flag_contains w DIRTY"
definition is_accessed :: "PteFlags \<Rightarrow> bool" where "is_accessed w = flag_contains w ACCESSED"
definition is_exclusive :: "PteFlags \<Rightarrow> bool" where "is_exclusive w = flag_contains w EXCLUSIVE"
definition is_huge :: "PteFlags \<Rightarrow> bool" where "is_huge w = flag_contains w HUGE_PAGE"

definition pat_index :: "u8 \<Rightarrow> PteFlags \<Rightarrow> PteFlags" where
  "pat_index pat_slot w =
     flag_set PAT_BIT2_FOR_P1 (pat_slot AND 4 = 4)
       (flag_set PAT_BIT1 (pat_slot AND 2 = 2) (flag_set PAT_BIT0 (pat_slot AND 1 = 1) w))"

definition get_pat_index :: "PteFlags \<Rightarrow> u8" where
  "get_pat_index w =
     (let i = (if flag_contains w PAT_BIT0 then 0 OR 1 else 0);
          i = (if flag_contains w PAT_BIT1 then i OR 2 else i)
      in if flag_contains w PAT_BIT2_FOR_P1 then i OR 4 else i)"

definition adjust_for_higher_level_pte :: "PteFlags \<Rightarrow> PteFlags" where
  "adjust_for_higher_level_pte w = pte_valid True (pat_index 0 (pte_exclusive False (pte_executable True w)))"

definition to_x86 :: "PteFlags \<Rightarrow> PteFlags" where "to_x86 general = general AND x86_all"
definition to_general :: "PteFlags \<Rightarrow> PteFlags" where "to_general specific = specific AND general_all"

section \<open>Entries\<close>

definition PTE_FRAME_MASK :: u64 where
  "PTE_FRAME_MASK = 0x000FFFFFFFFFF000"

type_synonym pte = u64

definition is_unused :: "pte \<Rightarrow> bool" where "is_unused e \<longleftrightarrow> e = 0"

definition pte_flags :: "pte \<Rightarrow> PteFlags" where
  "pte_flags e = e AND NOT PTE_FRAME_MASK AND x86_all"

definition frame_value :: "pte \<Rightarrow> usize" where
  "frame_value e = containing_address (new_canonical Physical (e AND PTE_FRAME_MASK))"

definition pointed_frame :: "pte \<Rightarrow> usize option" where
  "pointed_frame e = (if is_valid (pte_flags e) then Some (frame_value e) else None)"

definition set_entry :: "usize \<Rightarrow> PteFlags \<Rightarrow> pte" where
  "set_entry frame flags = start_address Physical frame OR flags"

definition set_flags :: "PteFlags \<Rightarrow> pte \<Rightarrow> pte" where
  "set_flags new_flags e = e AND PTE_FRAME_MASK OR (new_flags AND NOT PTE_FRAME_MASK)"

datatype UnmapResult = Exclusive RangeInclusive | NonExclusive RangeInclusive

definition set_unmapped :: "pte \<Rightarrow> UnmapResult \<times> pte" where
  "set_unmapped e =
     (let frame = frame_value e; frame_range = range_new frame frame
      in (if is_exclusive (pte_flags e) then Exclusive frame_range else NonExclusive frame_range, 0))"

section \<open>Flags as bits\<close>

lemma bit_flag: "k < 64 \<Longrightarrow> bit (flag k) n \<longleftrightarrow> n = k"
  by (auto simp: flag_def bit_exp_iff)


lemma bit_flag_set:
  assumes "k < 64"
  shows "bit (flag_set (flag k) b w) n \<longleftrightarrow> (if n = k then b else bit w n)"
proof (cases "n < 64")
  case True
  then show ?thesis by (auto simp: flag_set_def bit_or_iff bit_and_iff bit_not_iff bit_flag assms)
next
  case False
  then show ?thesis using assms bit_imp_le_length [of w n] bit_imp_le_length [of "flag_set (flag k) b w" n] by auto
qed

lemma flag_contains_bit:
  assumes "k < 64"
  shows "flag_contains w (flag k) \<longleftrightarrow> bit w k"
  using assms by (auto simp: flag_contains_def bit_eq_iff [where 'a = "64 word"] bit_and_iff bit_flag)

lemma bit_x86_all: "bit x86_all n \<longleftrightarrow> n \<le> 8 \<or> n = 55 \<or> n = 63"
  by (auto simp: x86_all_def bit_or_iff bit_flag)

lemma bit_general_all: "bit general_all n \<longleftrightarrow> n \<in> {0, 1, 2, 4, 5, 6, 8, 55, 63}"
  by (auto simp: general_all_def bit_or_iff bit_flag)

lemma bit_frame_mask: "bit PTE_FRAME_MASK n \<longleftrightarrow> 12 \<le> n \<and> n < 52"
proof -
  have m: "PTE_FRAME_MASK = push_bit 12 (mask 40)" by (simp add: PTE_FRAME_MASK_def mask_eq_exp_minus_1 push_bit_eq_mult)
  show ?thesis unfolding m by (auto simp: bit_push_bit_iff bit_mask_iff)
qed

lemma getter_bits:
  "is_valid w = bit w 0" "is_writable w = bit w 1" "is_executable w = (\<not> bit w 63)" "is_device_memory w = bit w 4"
  "is_dirty w = bit w 6" "is_accessed w = bit w 5" "is_exclusive w = bit w 55" "is_huge w = bit w 7"
  by (simp_all add: is_valid_def is_writable_def is_executable_def is_device_memory_def is_dirty_def is_accessed_def
      is_exclusive_def is_huge_def flag_contains_bit)

lemma setter_bits:
  "bit (pte_valid b w) n = (if n = 0 then b else bit w n)"
  "bit (pte_writable b w) n = (if n = 1 then b else bit w n)"
  "bit (pte_executable b w) n = (if n = 63 then \<not> b else bit w n)"
  "bit (pte_device_memory b w) n = (if n = 4 then b else bit w n)"
  "bit (pte_exclusive b w) n = (if n = 55 then b else bit w n)"
  "bit (pte_accessed b w) n = (if n = 5 then b else bit w n)"
  "bit (pte_dirty b w) n = (if n = 6 then b else bit w n)"
  by (simp_all add: pte_valid_def pte_writable_def pte_executable_def pte_device_memory_def pte_exclusive_def
      pte_accessed_def pte_dirty_def bit_flag_set)

lemma pat_slot_bit: "(s :: u8) AND 1 = 1 \<longleftrightarrow> bit s 0" "s AND 2 = 2 \<longleftrightarrow> bit s 1" "s AND 4 = 4 \<longleftrightarrow> bit s 2"
proof -
  have a: "s AND 2 ^ k = 2 ^ k \<longleftrightarrow> bit s k" if "k < 8" for k
    using that by (auto simp: bit_eq_iff [where 'a = "8 word"] bit_and_iff bit_exp_iff)
  show "s AND 1 = 1 \<longleftrightarrow> bit s 0" "s AND 2 = 2 \<longleftrightarrow> bit s 1" "s AND 4 = 4 \<longleftrightarrow> bit s 2"
    using a [of 0] a [of 1] a [of 2] by simp_all
qed

lemma bit_pat_index:
  "bit (pat_index s w) n = (if n = 3 then bit s 0 else if n = 4 then bit s 1 else if n = 7 then bit s 2 else bit w n)"
  by (simp add: pat_index_def bit_flag_set pat_slot_bit)

lemma bit_adjust:
  "bit (adjust_for_higher_level_pte w) n = (if n = 0 then True else if n \<in> {3, 4, 7, 55, 63} then False else bit w n)"
  by (simp add: adjust_for_higher_level_pte_def setter_bits bit_pat_index)

lemmas pte_bits = getter_bits setter_bits bit_pat_index bit_adjust bit_x86_all bit_general_all bit_frame_mask

text \<open>The page attribute index is read back, cut to its three bits.\<close>

lemma pat_index_roundtrip: "get_pat_index (pat_index s w) = s AND 7"
proof -
  have "get_pat_index w' = (if bit w' 3 then 1 else 0) OR (if bit w' 4 then 2 else 0) OR (if bit w' 7 then 4 else 0)" for w'
    by (simp add: get_pat_index_def flag_contains_bit Let_def ac_simps)
  then have g: "get_pat_index (pat_index s w) = (if bit s 0 then 1 else 0) OR (if bit s 1 then 2 else 0) OR (if bit s 2 then 4 else 0)"
    by (simp add: bit_pat_index)
  have "bit (1 :: u8) n \<longleftrightarrow> n = 0" "bit (2 :: u8) n \<longleftrightarrow> n = 1" "bit (4 :: u8) n \<longleftrightarrow> n = 2" "bit (7 :: u8) n \<longleftrightarrow> n < 3"
    if "n < 8" for n
    using that bit_exp_iff [of 0 n, where 'a = "8 word"] bit_exp_iff [of 1 n, where 'a = "8 word"]
      bit_exp_iff [of 2 n, where 'a = "8 word"] bit_mask_iff [of 3 n, where 'a = "8 word"]
    by (auto simp: mask_eq_exp_minus_1)
  then show ?thesis
    unfolding g by (intro bit_word_eqI) (auto simp: bit_or_iff bit_and_iff numeral_2_eq_2 numeral_3_eq_3 less_Suc_eq)
qed

section \<open>Entries as frame and flags\<close>

lemma bit_start_address_physical: "bit (start_address Physical f) n \<longleftrightarrow> 12 \<le> n \<and> n < 52 \<and> bit f (n - 12)"
  by (auto simp: start_address_def canonicalize_physical_address_def bit_and_iff bit_phys_mask page_times bit_push_bit_iff
      simp del: push_bit_eq_mult)

lemma bit_frame_value: "bit (frame_value e) n \<longleftrightarrow> n < 40 \<and> bit e (n + 12)"
  by (auto simp: frame_value_def containing_address_drop canonicalize_physical_address_def bit_drop_bit_eq bit_and_iff
      bit_phys_mask bit_frame_mask add.commute)

lemma bit_pte_flags: "bit (pte_flags e) n \<longleftrightarrow> (n \<le> 8 \<or> n = 55 \<or> n = 63) \<and> bit e n"
  by (auto simp: pte_flags_def bit_and_iff bit_not_iff bit_frame_mask bit_x86_all)

lemma bit_set_entry:
  "bit (set_entry f fl) n \<longleftrightarrow> 12 \<le> n \<and> n < 52 \<and> bit f (n - 12) \<or> bit fl n"
  by (simp add: set_entry_def bit_or_iff bit_start_address_physical)

lemma bit_set_flags:
  "bit (set_flags fl e) n \<longleftrightarrow> (if 12 \<le> n \<and> n < 52 then bit e n else bit fl n)"
  by (auto simp: set_flags_def bit_or_iff bit_and_iff bit_not_iff bit_frame_mask dest: bit_imp_le_length)

text \<open>A frame number that fits the 40 bits of an entry, and flags of x86-64.\<close>

definition frame_ok :: "usize \<Rightarrow> bool" where "frame_ok f \<longleftrightarrow> f < 2 ^ 40"
definition flags_ok :: "PteFlags \<Rightarrow> bool" where "flags_ok fl \<longleftrightarrow> fl AND x86_all = fl"

lemma frame_ok_bits: "frame_ok f \<longleftrightarrow> (\<forall>n. bit f n \<longrightarrow> n < 40)"
proof -
  have "frame_ok f \<longleftrightarrow> take_bit 40 f = f"
    unfolding frame_ok_def word_less_nat_alt word_unat_eq_iff unsigned_take_bit_eq take_bit_nat_eq_self_iff
    by (simp add: take_bit_nat_eq_self_iff)
  also have "\<dots> \<longleftrightarrow> (\<forall>n < 64. bit f n \<longrightarrow> n < 40)" by (auto simp: bit_eq_iff [where 'a = "64 word"] bit_take_bit_iff)
  finally show ?thesis using bit_imp_le_length [of f] by auto
qed

lemma flags_ok_bits: "flags_ok fl \<longleftrightarrow> (\<forall>n. bit fl n \<longrightarrow> n \<le> 8 \<or> n = 55 \<or> n = 63)"
proof -
  have "flags_ok fl \<longleftrightarrow> (\<forall>n < 64. bit fl n \<longrightarrow> n \<le> 8 \<or> n = 55 \<or> n = 63)"
    by (auto simp: flags_ok_def bit_eq_iff [where 'a = "64 word"] bit_and_iff bit_x86_all)
  then show ?thesis using bit_imp_le_length [of fl] by auto
qed

lemma frame_value_ok [simp]: "frame_ok (frame_value e)"
  by (simp add: frame_ok_bits bit_frame_value)

lemma frame_value_set_entry [simp]: "frame_ok f \<Longrightarrow> flags_ok fl \<Longrightarrow> frame_value (set_entry f fl) = f"
  by (rule bit_word_eqI) (fastforce simp: bit_frame_value bit_set_entry frame_ok_bits flags_ok_bits)

lemma pte_flags_set_entry [simp]: "flags_ok fl \<Longrightarrow> pte_flags (set_entry f fl) = fl"
  by (rule bit_word_eqI) (auto simp: bit_pte_flags bit_set_entry flags_ok_bits)

lemma flags_ok_adjust: "flags_ok fl \<Longrightarrow> flags_ok (pte_writable True (pte_valid True (adjust_for_higher_level_pte fl)))"
  and flags_ok_actual: "flags_ok fl \<Longrightarrow> flags_ok (pte_exclusive b (pte_valid True fl))"
  by (auto simp: flags_ok_bits pte_bits split: if_splits)

text \<open>
  C37. A page table entry keeps the frame and the flags it is given: for every frame number of 40 bits and all
  flags of x86-64, the frame, the flags and the result of removing the mapping are those of \<open>set_entry\<close>, and
  changing the flags leaves the frame alone.
\<close>

theorem pte_entry_roundtrip:
  assumes "frame_ok f" "flags_ok fl" "flags_ok fl'"
  shows "pte_flags (set_entry f fl) = fl \<and> frame_value (set_entry f fl) = f \<and>
    pointed_frame (set_entry f fl) = (if is_valid fl then Some f else None) \<and>
    set_unmapped (set_entry f fl) =
      (if is_exclusive fl then Exclusive (range_new f f) else NonExclusive (range_new f f), 0) \<and>
    set_flags fl' (set_entry f fl) = set_entry f fl'"
proof -
  have "set_flags fl' (set_entry f fl) = set_entry f fl'"
    using assms by (intro bit_word_eqI) (auto simp: bit_set_flags bit_set_entry flags_ok_bits)
  then show ?thesis using assms by (simp add: pointed_frame_def set_unmapped_def)
qed

theorem pte_entry_roundtrip_witness:
  "pte_flags (set_entry 0x1234 (pte_valid True (pte_writable True PteFlagsX86_64_new))) =
     pte_valid True (pte_writable True PteFlagsX86_64_new)"
proof -
  have "flags_ok PteFlagsX86_64_new" by (simp add: flags_ok_bits PteFlagsX86_64_new_def bit_flag)
  then have "flags_ok (pte_valid True (pte_writable True PteFlagsX86_64_new))"
    by (auto simp: flags_ok_bits pte_bits split: if_splits)
  moreover have "frame_ok 0x1234" by (simp add: frame_ok_def)
  ultimately show ?thesis using pte_entry_roundtrip by blast
qed

text \<open>
  General flags survive the conversion to those of x86-64 and back; in the other direction only the
  write-through and huge-page bits are lost.
\<close>

lemma general_flags_lossless: "g AND general_all = g \<Longrightarrow> to_general (to_x86 g) = g"
  and x86_flags_lossy: "to_x86 (to_general fl) = fl AND general_all"
  by (auto simp: to_general_def to_x86_def bit_eq_iff [where 'a = "64 word"] bit_and_iff bit_x86_all bit_general_all)

end
