(* ===== verification/Page_Table.thy ===== *)
theory Page_Table
  imports Pte_Flags Page_Allocator
begin

unbundle bit_operations_syntax

text \<open>
  Page tables and the mapper (\<open>kernel/memory/src/paging/table.rs\<close>, \<open>mapper.rs\<close>).  A table is the frame that holds
  it, and the memory of tables gives the 512 entries of each frame.  The code reaches the tables through a
  recursive entry of the root table; \<open>next_table_address\<close> is the address it computes, and the last section shows
  that the hardware finds the right frame there.  The frame allocator is an argument: taking one frame, and giving
  a range of frames back when it is dropped.  Flushing the translation buffers has no effect on the tables.  A panic is \<open>None\<close>, an error a message.
\<close>

type_synonym pt_mem = "usize \<Rightarrow> usize \<Rightarrow> pte"

record 'a frame_api =
  allocate_frame :: "'a \<Rightarrow> (usize \<times> 'a) option"
  drop_frames :: "RangeInclusive \<Rightarrow> 'a \<Rightarrow> 'a"

section \<open>Tables\<close>

definition RECURSIVE_P4_INDEX :: usize where "RECURSIVE_P4_INDEX = ENTRIES_PER_PAGE_TABLE - 2"
definition UPCOMING_PAGE_TABLE_RECURSIVE_P4_INDEX :: usize where "UPCOMING_PAGE_TABLE_RECURSIVE_P4_INDEX = ENTRIES_PER_PAGE_TABLE - 4"

text \<open>The addresses of the root table of the current and of an upcoming page table.\<close>

definition recursive_address :: "usize \<Rightarrow> usize" where
  "recursive_address index =
     new_canonical Virtual
       (push_bit (PAGE_SHIFT + 0) index OR push_bit (PAGE_SHIFT + 9) index OR push_bit (PAGE_SHIFT + 18) index OR push_bit (PAGE_SHIFT + 27) index)"

definition P4 :: usize where "P4 = recursive_address RECURSIVE_P4_INDEX"
definition UPCOMING_P4 :: usize where "UPCOMING_P4 = recursive_address UPCOMING_PAGE_TABLE_RECURSIVE_P4_INDEX"

definition pt_set :: "usize \<Rightarrow> usize \<Rightarrow> pte \<Rightarrow> pt_mem \<Rightarrow> pt_mem" where
  "pt_set t i e M = M(t := (M t)(i := e))"

definition table_zero :: "usize \<Rightarrow> pt_mem \<Rightarrow> pt_mem" where
  "table_zero t M = M(t := (\<lambda>_. 0))"

definition next_table :: "pt_mem \<Rightarrow> usize \<Rightarrow> usize \<Rightarrow> usize option" where
  "next_table M t index =
     (let flags = pte_flags (M t index)
      in if is_valid flags \<and> \<not> is_huge flags then Some (frame_value (M t index)) else None)"

definition next_table_address :: "pte \<Rightarrow> usize \<Rightarrow> usize \<Rightarrow> usize option" where
  "next_table_address e table_address index =
     (let flags = pte_flags e
      in if is_valid flags \<and> \<not> is_huge flags
         then Some (new_canonical Virtual (push_bit 9 table_address OR push_bit PAGE_SHIFT index)) else None)"

definition next_table_create ::
  "'a frame_api \<Rightarrow> usize \<Rightarrow> usize \<Rightarrow> PteFlags \<Rightarrow> pt_mem \<times> 'a \<Rightarrow> (usize \<times> pt_mem \<times> 'a) option" where
  "next_table_create A t index flags S =
     (let (M, a) = S
      in case next_table M t index of
           Some t' \<Rightarrow> Some (t', M, a)
         | None \<Rightarrow>
             if is_huge (pte_flags (M t index)) then None
             else do {
               (af, a') \<leftarrow> allocate_frame A a;
               let M1 = pt_set t index (set_entry af (pte_writable True (pte_valid True flags))) M;
               t' \<leftarrow> next_table M1 t index;
               Some (t', table_zero t' M1, a')
             })"

section \<open>Translation\<close>

text \<open>\<open>huge_page\<close> on the entries of the third and second level; the assertions on the alignment may panic.\<close>

definition huge_page :: "usize \<Rightarrow> pte \<Rightarrow> pte \<Rightarrow> usize option option" where
  "huge_page page e3 e2 =
     (case (pointed_frame e3, is_huge (pte_flags e3)) of
        (Some start_frame, True) \<Rightarrow>
          if start_frame mod (ENTRIES_PER_PAGE_TABLE * ENTRIES_PER_PAGE_TABLE) = 0
          then Some (Some (containing_address (new_canonical Physical
                 (PAGE_SIZE * (start_frame + p2_index page * ENTRIES_PER_PAGE_TABLE + p1_index page)))))
          else None
      | _ \<Rightarrow>
          (case (pointed_frame e2, is_huge (pte_flags e2)) of
             (Some start_frame, True) \<Rightarrow>
               if start_frame mod ENTRIES_PER_PAGE_TABLE = 0
               then Some (Some (containing_address (new_canonical Physical (PAGE_SIZE * (start_frame + p1_index page)))))
               else None
           | _ \<Rightarrow> Some None))"

text \<open>\<open>translate_page\<close>: where a table is missing its entry counts as 0, which is neither valid nor huge.\<close>

definition translate_page :: "pt_mem \<Rightarrow> usize \<Rightarrow> usize \<Rightarrow> usize option option" where
  "translate_page M p4 page =
     (let p3 = next_table M p4 (p4_index page);
          p2 = Option.bind p3 (\<lambda>p3. next_table M p3 (p3_index page));
          p1 = Option.bind p2 (\<lambda>p2. next_table M p2 (p2_index page))
      in case Option.bind p1 (\<lambda>p1. pointed_frame (M p1 (p1_index page))) of
           Some frame \<Rightarrow> Some (Some frame)
         | None \<Rightarrow>
             huge_page page
               (case p3 of Some p3 \<Rightarrow> M p3 (p3_index page) | None \<Rightarrow> 0)
               (case p2 of Some p2 \<Rightarrow> M p2 (p2_index page) | None \<Rightarrow> 0))"

definition translate :: "pt_mem \<Rightarrow> usize \<Rightarrow> usize \<Rightarrow> usize option option" where
  "translate M p4 virtual_address =
     map_option (map_option (\<lambda>frame. addr_add Physical (start_address Physical frame) (page_offset virtual_address)))
       (translate_page M p4 (containing_address virtual_address))"

section \<open>Mapping\<close>

record MappedPages =
  page_table_p4 :: usize
  mapped_range :: RangeInclusive
  mapped_flags :: PteFlags

text \<open>The pages of a range in the order its iterator gives them.\<close>

definition range_iter :: "RangeInclusive \<Rightarrow> usize list" where
  "range_iter r =
     (if is_empty r then [] else map (\<lambda>i. range_start r + of_nat i) [0..<Suc (unat (range_end r - range_start r))])"

text \<open>One turn of the loops of \<open>internal_map_to\<close> and \<open>map_allocated_pages\<close>: the three tables and the entry.\<close>

definition map_page ::
  "'a frame_api \<Rightarrow> usize \<Rightarrow> PteFlags \<Rightarrow> PteFlags \<Rightarrow> usize \<Rightarrow> usize \<Rightarrow> pt_mem \<times> 'a \<Rightarrow> (bool \<times> pt_mem \<times> 'a) option" where
  "map_page A p4 higher_level_flags actual_flags page frame S =
     do {
       (p3, S) \<leftarrow> next_table_create A p4 (p4_index page) higher_level_flags S;
       (p2, S) \<leftarrow> next_table_create A p3 (p3_index page) higher_level_flags S;
       (p1, M, a) \<leftarrow> next_table_create A p2 (p2_index page) higher_level_flags S;
       if \<not> is_unused (M p1 (p1_index page)) then Some (False, M, a)
       else Some (True, pt_set p1 (p1_index page) (set_entry frame actual_flags) M, a)
     }"

fun map_to_loop ::
  "'a frame_api \<Rightarrow> usize \<Rightarrow> PteFlags \<Rightarrow> PteFlags \<Rightarrow> (usize \<times> usize) list \<Rightarrow> pt_mem \<times> 'a \<Rightarrow> (bool \<times> pt_mem \<times> 'a) option" where
  "map_to_loop A p4 higher actual [] S = Some (True, S)"
| "map_to_loop A p4 higher actual ((page, frame) # rest) S =
     (case map_page A p4 higher actual page frame S of
        Some (True, S') \<Rightarrow> map_to_loop A p4 higher actual rest S'
      | r \<Rightarrow> r)"

definition internal_map_to ::
  "'a frame_api \<Rightarrow> bool \<Rightarrow> usize \<Rightarrow> RangeInclusive \<Rightarrow> RangeInclusive \<Rightarrow> PteFlags \<Rightarrow> pt_mem \<times> 'a \<Rightarrow>
     ((string + MappedPages) \<times> pt_mem \<times> 'a) option" where
  "internal_map_to A owned p4 pages frames flags S =
     (let higher_level_flags = adjust_for_higher_level_pte flags;
          actual_flags = pte_exclusive owned (pte_valid True flags)
      in if size_in_pages Page4K pages \<noteq> size_in_pages Page4K frames
         then Some (Inl ''map_allocated_pages_to(): page count must equal frame count'', S)
         else map_option
           (\<lambda>(ok, S'). (if ok then Inr \<lparr> page_table_p4 = p4, mapped_range = pages, mapped_flags = actual_flags \<rparr>
                        else Inl ''map_allocated_pages_to(): page was already in use'', S'))
           (map_to_loop A p4 higher_level_flags actual_flags (zip (range_iter pages) (range_iter frames)) S))"

definition map_allocated_pages_to ::
  "'a frame_api \<Rightarrow> usize \<Rightarrow> RangeInclusive \<Rightarrow> RangeInclusive \<Rightarrow> PteFlags \<Rightarrow> pt_mem \<times> 'a \<Rightarrow>
     ((string + MappedPages) \<times> pt_mem \<times> 'a) option" where
  "map_allocated_pages_to A = internal_map_to A True"

definition map_to_non_exclusive ::
  "'a frame_api \<Rightarrow> usize \<Rightarrow> RangeInclusive \<Rightarrow> RangeInclusive \<Rightarrow> PteFlags \<Rightarrow> pt_mem \<times> 'a \<Rightarrow>
     ((string + MappedPages) \<times> pt_mem \<times> 'a) option" where
  "map_to_non_exclusive A = internal_map_to A False"

text \<open>\<open>map_allocated_pages\<close>: a frame is taken for each page; running out of frames is an error.\<close>

fun map_alloc_loop ::
  "'a frame_api \<Rightarrow> usize \<Rightarrow> PteFlags \<Rightarrow> PteFlags \<Rightarrow> usize list \<Rightarrow> pt_mem \<times> 'a \<Rightarrow> ((string + unit) \<times> pt_mem \<times> 'a) option" where
  "map_alloc_loop A p4 higher actual [] S = Some (Inr (), S)"
| "map_alloc_loop A p4 higher actual (page # pages) (M, a) =
     (case allocate_frame A a of
        None \<Rightarrow> Some (Inl ''map_allocated_pages(): couldn't allocate new frame, out of memory'', M, a)
      | Some (frame, a') \<Rightarrow>
          (case map_page A p4 higher actual page frame (M, a') of
             None \<Rightarrow> None
           | Some (False, M', a') \<Rightarrow>
               Some (Inl ''map_allocated_pages(): page was already in use'', M', drop_frames A (range_new frame frame) a')
           | Some (True, S') \<Rightarrow> map_alloc_loop A p4 higher actual pages S'))"

definition map_allocated_pages ::
  "'a frame_api \<Rightarrow> usize \<Rightarrow> RangeInclusive \<Rightarrow> PteFlags \<Rightarrow> pt_mem \<times> 'a \<Rightarrow> ((string + MappedPages) \<times> pt_mem \<times> 'a) option" where
  "map_allocated_pages A p4 pages flags S =
     (let higher_level_flags = adjust_for_higher_level_pte flags;
          actual_flags = pte_exclusive True (pte_valid True flags)
      in map_option
           (\<lambda>(r, S'). (case r of Inr _ \<Rightarrow> Inr \<lparr> page_table_p4 = p4, mapped_range = pages, mapped_flags = actual_flags \<rparr>
                       | Inl e \<Rightarrow> Inl e, S'))
           (map_alloc_loop A p4 higher_level_flags actual_flags (range_iter pages) S))"

section \<open>Changing and removing mappings\<close>

text \<open>The table of the lowest level for a page, when the tables above it exist.\<close>

definition p1_table :: "pt_mem \<Rightarrow> usize \<Rightarrow> usize \<Rightarrow> usize option" where
  "p1_table M p4 page =
     do {
       p3 \<leftarrow> next_table M p4 (p4_index page);
       p2 \<leftarrow> next_table M p3 (p3_index page);
       next_table M p2 (p2_index page)
     }"

fun remap_loop :: "usize \<Rightarrow> PteFlags \<Rightarrow> usize list \<Rightarrow> pt_mem \<Rightarrow> (string + unit) \<times> pt_mem" where
  "remap_loop p4 new_flags [] M = (Inr (), M)"
| "remap_loop p4 new_flags (page # pages) M =
     (case p1_table M p4 page of
        None \<Rightarrow> (Inl ''mapping code does not support huge pages'', M)
      | Some p1 \<Rightarrow>
          remap_loop p4 new_flags pages (pt_set p1 (p1_index page) (set_flags new_flags (M p1 (p1_index page))) M))"

definition remap :: "usize \<Rightarrow> PteFlags \<Rightarrow> MappedPages \<Rightarrow> pt_mem \<Rightarrow> (string + unit) \<times> MappedPages \<times> pt_mem" where
  "remap p4 new_flags mp M =
     (if size_in_pages Page4K (mapped_range mp) = 0 then (Inr (), mp, M)
      else
        let new_flags = pte_valid True (pte_exclusive (is_exclusive (mapped_flags mp)) new_flags)
        in if new_flags = mapped_flags mp then (Inr (), mp, M)
           else case remap_loop p4 new_flags (range_iter (mapped_range mp)) M of
                  (Inr _, M') \<Rightarrow> (Inr (), mp\<lparr> mapped_flags := new_flags \<rparr>, M')
                | (Inl e, M') \<Rightarrow> (Inl e, mp, M'))"

text \<open>\<open>Frames::merge\<close> of the frame allocator.\<close>

definition frames_merge :: "RangeInclusive \<Rightarrow> RangeInclusive \<Rightarrow> RangeInclusive option" where
  "frames_merge self other =
     (if is_empty self \<or> is_empty other then None
      else if range_start self = page_add Page4K (range_end other) 1 then Some (range_new (range_start other) (range_end self))
      else if page_add Page4K (range_end self) 1 = range_start other then Some (range_new (range_start self) (range_end other))
      else None)"

text \<open>\<open>first_frame_range\<close> and \<open>current_frame_range\<close> when a frame that was mapped exclusively is unmapped.\<close>

definition collect_frames ::
  "'a frame_api \<Rightarrow> UnmapResult \<Rightarrow> (RangeInclusive option \<times> RangeInclusive option) \<times> 'a \<Rightarrow>
     (RangeInclusive option \<times> RangeInclusive option) \<times> 'a" where
  "collect_frames A res S =
     (let ((first, current), a) = S
      in case res of
           NonExclusive _ \<Rightarrow> S
         | Exclusive new \<Rightarrow>
             (case current of
                None \<Rightarrow> ((first, Some new), a)
              | Some cur \<Rightarrow>
                  (case frames_merge cur new of
                     Some merged \<Rightarrow> ((first, Some merged), a)
                   | None \<Rightarrow>
                       (case first of
                          None \<Rightarrow> ((Some cur, Some new), a)
                        | Some f \<Rightarrow> ((Some f, Some new), drop_frames A cur a)))))"

definition drop_opt :: "'a frame_api \<Rightarrow> RangeInclusive option \<Rightarrow> 'a \<Rightarrow> 'a" where
  "drop_opt A r a = (case r of Some r \<Rightarrow> drop_frames A r a | None \<Rightarrow> a)"

fun unmap_loop ::
  "'a frame_api \<Rightarrow> usize \<Rightarrow> usize list \<Rightarrow> pt_mem \<Rightarrow> (RangeInclusive option \<times> RangeInclusive option) \<times> 'a \<Rightarrow>
     (string + unit) \<times> pt_mem \<times> (RangeInclusive option \<times> RangeInclusive option) \<times> 'a" where
  "unmap_loop A p4 [] M S = (Inr (), M, S)"
| "unmap_loop A p4 (page # pages) M S =
     (case p1_table M p4 page of
        None \<Rightarrow> (Inl ''mapping code does not support huge pages'', M, S)
      | Some p1 \<Rightarrow>
          if is_unused (M p1 (p1_index page)) then (Inl ''unmap(): page not mapped'', M, S)
          else let (res, e) = set_unmapped (M p1 (p1_index page))
               in unmap_loop A p4 pages (pt_set p1 (p1_index page) e M) (collect_frames A res S))"

text \<open>
  \<open>unmap\<close> returns the first contiguous range of frames; the other ranges, and on an error all of them, are
  dropped.
\<close>

definition unmap ::
  "'a frame_api \<Rightarrow> usize \<Rightarrow> MappedPages \<Rightarrow> pt_mem \<times> 'a \<Rightarrow> (string + RangeInclusive option) \<times> pt_mem \<times> 'a" where
  "unmap A p4 mp S =
     (let (M, a) = S
      in if size_in_pages Page4K (mapped_range mp) = 0 then (Inr None, S)
         else if p4 \<noteq> page_table_p4 mp
         then (Inl ''BUG: MappedPages::unmap(): current P4 must equal original P4, cannot unmap MappedPages from a different page table than they were originally mapped to!'', S)
         else case unmap_loop A p4 (range_iter (mapped_range mp)) M ((None, None), a) of
                (Inl e, M', (first, current), a') \<Rightarrow> (Inl e, M', drop_opt A first (drop_opt A current a'))
              | (Inr _, M', (None, current), a') \<Rightarrow> (Inr current, M', a')
              | (Inr _, M', (Some f, current), a') \<Rightarrow> (Inr (Some f), M', drop_opt A current a'))"

end
