(* ===== verification/Page_Table_Correct.thy ===== *)
theory Page_Table_Correct
  imports Page_Table
begin

unbundle bit_operations_syntax

text \<open>
  The page tables of \<open>Page_Table\<close> implement a partial function from pages to frames: mapping a page adds one
  point to it and removing the mapping takes the point away again, whatever tables are created on the way.  The
  tables form a tree below the root table, apart from the two recursive entries of the root; the frames of the tree
  are never handed out by the frame allocator.
\<close>

section \<open>Walks through the tables\<close>

fun walk :: "pt_mem \<Rightarrow> usize \<Rightarrow> usize list \<Rightarrow> usize option" where
  "walk M t [] = Some t"
| "walk M t (i # is) = Option.bind (next_table M t i) (\<lambda>t'. walk M t' is)"

lemma walk_append: "walk M t (xs @ ys) = Option.bind (walk M t xs) (\<lambda>t'. walk M t' ys)"
  by (induction xs arbitrary: t) (auto split: Option.bind_splits)

lemma walk_snoc: "walk M t (xs @ [i]) = Option.bind (walk M t xs) (\<lambda>t'. next_table M t' i)"
  by (simp add: walk_append)

definition user_index :: "usize \<Rightarrow> bool" where
  "user_index i \<longleftrightarrow> i \<noteq> RECURSIVE_P4_INDEX \<and> i \<noteq> UPCOMING_PAGE_TABLE_RECURSIVE_P4_INDEX"

definition user_path :: "usize list \<Rightarrow> bool" where
  "user_path \<pi> \<longleftrightarrow> length \<pi> \<le> 3 \<and> (case \<pi> of [] \<Rightarrow> True | i # _ \<Rightarrow> user_index i)"

lemma user_path_snocD: "user_path (\<pi> @ [i]) \<Longrightarrow> user_path \<pi> \<and> length \<pi> \<le> 2"
  by (cases \<pi>) (auto simp: user_path_def)

definition tables :: "pt_mem \<Rightarrow> usize \<Rightarrow> usize set" where
  "tables M p4 = {t. \<exists>\<pi>. user_path \<pi> \<and> walk M p4 \<pi> = Some t}"

definition tree :: "pt_mem \<Rightarrow> usize \<Rightarrow> bool" where
  "tree M p4 \<longleftrightarrow> (\<forall>\<pi> \<pi>' t. user_path \<pi> \<and> user_path \<pi>' \<and> walk M p4 \<pi> = Some t \<and> walk M p4 \<pi>' = Some t \<longrightarrow> \<pi> = \<pi>')"

lemma treeD: "tree M p4 \<Longrightarrow> walk M p4 \<pi> = Some t \<Longrightarrow> walk M p4 \<pi>' = Some t \<Longrightarrow> user_path \<pi> \<Longrightarrow> user_path \<pi>' \<Longrightarrow> \<pi> = \<pi>'"
  by (auto simp: tree_def)

lemma in_tables: "user_path \<pi> \<Longrightarrow> walk M p4 \<pi> = Some t \<Longrightarrow> t \<in> tables M p4"
  by (auto simp: tables_def)

text \<open>Entries along a walk; a missing table has entries 0.\<close>

definition entry_at :: "pt_mem \<Rightarrow> usize \<Rightarrow> usize list \<Rightarrow> usize \<Rightarrow> pte" where
  "entry_at M p4 \<pi> i = (case walk M p4 \<pi> of Some t \<Rightarrow> M t i | None \<Rightarrow> 0)"

lemma pte_zero [simp]: "pte_flags 0 = 0" "pointed_frame 0 = None" "\<not> is_valid 0" "\<not> is_huge 0"
  by (simp_all add: pte_flags_def pointed_frame_def getter_bits)

lemma pt_set_apply: "pt_set t i e M u j = (if u = t \<and> j = i then e else M u j)"
  and table_zero_apply: "table_zero f M u j = (if u = f then 0 else M u j)"
  by (simp_all add: pt_set_def table_zero_def)

lemma next_table_zero [simp]: "M t i = 0 \<Longrightarrow> next_table M t i = None"
  by (simp add: next_table_def)

lemma next_table_cong: "M' t i = M t i \<Longrightarrow> next_table M' t i = next_table M t i"
  by (simp add: next_table_def Let_def)

section \<open>Changing a leaf\<close>

lemma walk_set_leaf:
  assumes tree: "tree M p4" and t: "walk M p4 \<rho> = Some t" "length \<rho> = 3" "user_path \<rho>" and \<pi>: "user_path \<pi>"
  shows "walk (pt_set t i e M) p4 \<pi> = walk M p4 \<pi>"
  using \<pi>
proof (induction \<pi> rule: rev_induct)
  case (snoc j \<pi>)
  then have u: "user_path \<pi>" "length \<pi> \<le> 2" using user_path_snocD by blast+
  have "u \<noteq> t" if "walk M p4 \<pi> = Some u" for u
    using treeD [OF tree _ t(1) u(1) t(3)] that t(2) u(2) by force
  then have "next_table (pt_set t i e M) u j = next_table M u j" if "walk M p4 \<pi> = Some u" for u
    using that by (intro next_table_cong) (auto simp: pt_set_apply)
  then show ?case unfolding walk_snoc snoc.IH [OF u(1)] by (cases "walk M p4 \<pi>") auto
qed simp

lemma entry_set_leaf:
  assumes "tree M p4" "walk M p4 \<rho> = Some t" "length \<rho> = 3" "user_path \<rho>" "user_path \<pi>"
  shows "entry_at (pt_set t i e M) p4 \<pi> j = (if \<pi> = \<rho> \<and> j = i then e else entry_at M p4 \<pi> j)"
proof (cases "walk M p4 \<pi>")
  case None
  then show ?thesis using assms(2) unfolding entry_at_def walk_set_leaf [OF assms] by auto
next
  case (Some u)
  then have "u = t \<longleftrightarrow> \<pi> = \<rho>" using treeD [OF assms(1) Some _ assms(5,4)] assms(2) by auto
  then show ?thesis unfolding entry_at_def walk_set_leaf [OF assms] using Some by (auto simp: pt_set_apply)
qed

lemma tables_set_leaf:
  assumes "tree M p4" "walk M p4 \<rho> = Some t" "length \<rho> = 3" "user_path \<rho>"
  shows "tree (pt_set t i e M) p4" "tables (pt_set t i e M) p4 = tables M p4"
proof -
  have w: "user_path \<pi> \<Longrightarrow> walk (pt_set t i e M) p4 \<pi> = walk M p4 \<pi>" for \<pi>
    by (rule walk_set_leaf [OF assms])
  show "tables (pt_set t i e M) p4 = tables M p4" unfolding tables_def using w by (metis (no_types, lifting))
  show "tree (pt_set t i e M) p4" using assms(1) unfolding tree_def using w by (metis (no_types, lifting))
qed

section \<open>Creating a table\<close>

lemma walk_create:
  assumes tree: "tree M p4" and t: "walk M p4 \<rho> = Some t" "user_path (\<rho> @ [i])" and none: "next_table M t i = None"
    and f: "f \<notin> tables M p4" and e: "next_table (pt_set t i e M) t i = Some f" and \<pi>: "user_path \<pi>"
  shows "walk (table_zero f (pt_set t i e M)) p4 \<pi> = (if \<pi> = \<rho> @ [i] then Some f else walk M p4 \<pi>)"
  using \<pi>
proof (induction \<pi> rule: rev_induct)
  case (snoc j \<pi>)
  let ?M = "table_zero f (pt_set t i e M)"
  have \<rho>: "user_path \<rho>" and \<pi>: "user_path \<pi>" using user_path_snocD t(2) snoc.prems by blast+
  have ft: "f \<noteq> t" using f in_tables [OF \<rho> t(1)] by auto
  show ?case
  proof (cases "\<pi> = \<rho> @ [i]")
    case True
    have "next_table ?M f j = None" by (rule next_table_zero) (simp add: table_zero_apply)
    moreover have "walk M p4 (\<pi> @ [j]) = None" unfolding True by (simp add: walk_snoc t none del: append_assoc)
    moreover have "walk ?M p4 \<pi> = Some f" using snoc.IH [OF \<pi>] True by simp
    ultimately show ?thesis unfolding walk_snoc [of ?M] by (simp add: True)
  next
    case False
    then have w: "walk ?M p4 \<pi> = walk M p4 \<pi>" using snoc.IH [OF \<pi>] by simp
    show ?thesis
    proof (cases "walk M p4 \<pi>")
      case None
      then have "\<pi> \<noteq> \<rho>" using t(1) by auto
      then show ?thesis using None w by (simp add: walk_snoc)
    next
      case (Some u)
      have uf: "u \<noteq> f" using f in_tables [OF \<pi> Some] by auto
      have "next_table ?M u j = (if \<pi> @ [j] = \<rho> @ [i] then Some f else next_table M u j)"
      proof (cases "u = t")
        case True
        then have "\<pi> = \<rho>" using treeD [OF tree Some _ \<pi> \<rho>] t(1) by simp
        then show ?thesis using e True ft
          by (cases "j = i") (auto simp: next_table_def Let_def table_zero_apply pt_set_apply split: if_splits)
      next
        case False
        then have "\<pi> \<noteq> \<rho>" using t(1) Some by auto
        then show ?thesis using False uf by (auto simp: next_table_def Let_def table_zero_apply pt_set_apply)
      qed
      then show ?thesis using Some w by (auto simp: walk_snoc)
    qed
  qed
qed simp

lemma entry_create:
  assumes tree: "tree M p4" and t: "walk M p4 \<rho> = Some t" "user_path (\<rho> @ [i])" and none: "next_table M t i = None"
    and f: "f \<notin> tables M p4" and e: "next_table (pt_set t i e M) t i = Some f" and \<pi>: "user_path \<pi>"
  shows "entry_at (table_zero f (pt_set t i e M)) p4 \<pi> j = (if \<pi> = \<rho> \<and> j = i then e else entry_at M p4 \<pi> j)"
proof -
  have \<rho>: "user_path \<rho>" using user_path_snocD t(2) by blast
  have ft: "f \<noteq> t" using f in_tables [OF \<rho> t(1)] by auto
  have w: "walk (table_zero f (pt_set t i e M)) p4 \<pi> = (if \<pi> = \<rho> @ [i] then Some f else walk M p4 \<pi>)"
    by (rule walk_create [OF assms])
  show ?thesis
  proof (cases "\<pi> = \<rho> @ [i]")
    case True
    then have "walk M p4 \<pi> = None" using t none by (simp add: walk_snoc)
    then show ?thesis unfolding entry_at_def w using True by (auto simp: table_zero_apply)
  next
    case False
    then show ?thesis
    proof (cases "walk M p4 \<pi>")
      case None
      then show ?thesis unfolding entry_at_def w using False t(1) by auto
    next
      case (Some u)
      have "u \<noteq> f" "u = t \<longleftrightarrow> \<pi> = \<rho>"
        using f in_tables [OF \<pi> Some] treeD [OF tree Some _ \<pi> \<rho>] t(1) Some by auto
      then show ?thesis unfolding entry_at_def w using False Some by (auto simp: table_zero_apply pt_set_apply)
    qed
  qed
qed

lemma tables_create:
  assumes tree: "tree M p4" and t: "walk M p4 \<rho> = Some t" "user_path (\<rho> @ [i])" and none: "next_table M t i = None"
    and f: "f \<notin> tables M p4" and e: "next_table (pt_set t i e M) t i = Some f"
  shows "tree (table_zero f (pt_set t i e M)) p4" "tables (table_zero f (pt_set t i e M)) p4 = insert f (tables M p4)"
proof -
  let ?M = "table_zero f (pt_set t i e M)"
  note w = walk_create [OF tree t none f e]
  have n: "walk M p4 (\<rho> @ [i]) = None" using t none by (simp add: walk_snoc)
  show "tree ?M p4"
    unfolding tree_def
  proof (intro allI impI, elim conjE)
    fix \<pi> \<pi>' u
    assume "user_path \<pi>" "user_path \<pi>'" "walk ?M p4 \<pi> = Some u" "walk ?M p4 \<pi>' = Some u"
    then show "\<pi> = \<pi>'"
      unfolding w [OF \<open>user_path \<pi>\<close>] w [OF \<open>user_path \<pi>'\<close>] using f tree
      by (auto simp: tree_def dest: in_tables split: if_splits)
  qed
  show "tables ?M p4 = insert f (tables M p4)"
  proof (intro set_eqI iffI)
    fix u
    assume "u \<in> tables ?M p4"
    then obtain \<pi> where "user_path \<pi>" "walk ?M p4 \<pi> = Some u" by (auto simp: tables_def)
    then show "u \<in> insert f (tables M p4)" unfolding w [OF \<open>user_path \<pi>\<close>] by (auto simp: tables_def split: if_splits)
  next
    fix u
    assume "u \<in> insert f (tables M p4)"
    then consider "u = f" | \<pi> where "user_path \<pi>" "walk M p4 \<pi> = Some u" by (auto simp: tables_def)
    then show "u \<in> tables ?M p4"
    proof cases
      case 1
      have "walk ?M p4 (\<rho> @ [i]) = Some f" using w [OF t(2)] by simp
      with 1 show ?thesis using in_tables [OF t(2)] by simp
    next
      case (2 \<pi>)
      then have "walk ?M p4 \<pi> = Some u" using w [OF 2(1)] n by auto
      then show ?thesis using in_tables [OF 2(1)] by simp
    qed
  qed
qed

section \<open>Translation of the entries\<close>

definition page_path :: "usize \<Rightarrow> usize list" where
  "page_path q = [p4_index q, p3_index q, p2_index q]"

definition user_page :: "usize \<Rightarrow> bool" where
  "user_page q \<longleftrightarrow> user_index (p4_index q)"

lemma user_page_paths:
  assumes "user_page q"
  shows "user_path (page_path q)" "user_path [p4_index q]" "user_path [p4_index q, p3_index q]"
  using assms by (simp_all add: user_page_def user_path_def page_path_def)

lemma p1_table_walk: "p1_table M p4 q = walk M p4 (page_path q)"
  by (simp add: p1_table_def page_path_def)

lemma translate_entries:
  "translate_page M p4 q =
     (case pointed_frame (entry_at M p4 (page_path q) (p1_index q)) of
        Some f \<Rightarrow> Some (Some f)
      | None \<Rightarrow> huge_page q (entry_at M p4 [p4_index q] (p3_index q)) (entry_at M p4 [p4_index q, p3_index q] (p2_index q)))"
proof -
  let ?p3 = "next_table M p4 (p4_index q)"
  let ?p2 = "Option.bind ?p3 (\<lambda>p3. next_table M p3 (p3_index q))"
  let ?p1 = "Option.bind ?p2 (\<lambda>p2. next_table M p2 (p2_index q))"
  have w: "walk M p4 [p4_index q] = ?p3" "walk M p4 [p4_index q, p3_index q] = ?p2" "walk M p4 (page_path q) = ?p1"
    by (simp_all add: page_path_def split: Option.bind_splits)
  have "Option.bind ?p1 (\<lambda>p1. pointed_frame (M p1 (p1_index q))) = pointed_frame (entry_at M p4 (page_path q) (p1_index q))"
    unfolding entry_at_def w by (cases ?p1) simp_all
  then show ?thesis unfolding translate_page_def Let_def entry_at_def w by simp
qed

lemma huge_page_skip:
  "\<not> is_huge (pte_flags e3) \<Longrightarrow> \<not> is_huge (pte_flags e3') \<Longrightarrow> huge_page q e3 e2 = huge_page q e3' e2"
  "\<not> is_huge (pte_flags e2) \<Longrightarrow> \<not> is_huge (pte_flags e2') \<Longrightarrow> huge_page q e3 e2 = huge_page q e3 e2'"
  by (auto simp: huge_page_def split: option.splits bool.splits)

text \<open>Pages that differ differ in an index.\<close>

definition page_ok :: "usize \<Rightarrow> bool" where
  "page_ok q \<longleftrightarrow> q < 2 ^ 52 \<and> is_canonical Virtual (push_bit 12 q)"

lemma page_index_inj:
  assumes "page_ok p" "page_ok q" "page_path p = page_path q" "p1_index p = p1_index q"
  shows "p = q"
proof -
  have c: "containing_address (push_bit 12 r) = r" if "page_ok r" for r
  proof -
    have "take_bit 52 r = r"
      using that unfolding page_ok_def word_less_nat_alt word_unat_eq_iff unsigned_take_bit_eq take_bit_nat_eq_self_iff
      by (simp add: take_bit_nat_eq_self_iff)
    then have "bit r n \<Longrightarrow> n < 52" for n by (metis bit_take_bit_iff)
    then show ?thesis unfolding containing_address_drop
      by (intro bit_word_eqI) (auto simp: bit_drop_bit_eq bit_push_bit_iff)
  qed
  have o: "page_offset (push_bit 12 r) = 0" for r
    by (rule bit_word_eqI) (auto simp: bit_page_offset bit_push_bit_iff)
  have "push_bit 12 p = push_bit 12 q"
    using page_indices_determine_address [of "push_bit 12 p"] page_indices_determine_address [of "push_bit 12 q"] assms
    by (simp add: c o page_ok_def page_path_def)
  then show ?thesis using c assms(1,2) by metis
qed

section \<open>One page\<close>

text \<open>
  What is used of the frame allocator, whose free frames in a state are \<open>avail a\<close>: it hands out free frames,
  which fit in an entry, once, and only dropped frames become free again.
\<close>

definition frame_spec :: "'a frame_api \<Rightarrow> ('a \<Rightarrow> usize set) \<Rightarrow> bool" where
  "frame_spec A avail \<longleftrightarrow>
     (\<forall>a f a'. allocate_frame A a = Some (f, a') \<longrightarrow> f \<in> avail a \<and> frame_ok f \<and> avail a' \<subseteq> avail a - {f}) \<and>
     (\<forall>r a. avail (drop_frames A r a) \<subseteq> avail a \<union> range_pages r)"

definition pt_inv :: "pt_mem \<Rightarrow> usize \<Rightarrow> usize set \<Rightarrow> bool" where
  "pt_inv M p4 F \<longleftrightarrow> tree M p4 \<and> tables M p4 \<inter> F = {}"

lemma create_spec:
  assumes A: "frame_spec A avail" and inv: "pt_inv M p4 (avail a)" and t: "walk M p4 \<rho> = Some t" "user_path (\<rho> @ [i])"
    and fl: "flags_ok fl" "\<not> is_huge fl" and c: "next_table_create A t i fl (M, a) = Some (t', M', a')"
  shows "pt_inv M' p4 (avail a')" "walk M' p4 (\<rho> @ [i]) = Some t'" "avail a' \<subseteq> avail a"
    "tables M' p4 \<subseteq> tables M p4 \<union> (avail a - avail a')"
    "\<And>\<pi> j. user_path \<pi> \<Longrightarrow> length \<pi> = 3 \<Longrightarrow> entry_at M' p4 \<pi> j = entry_at M p4 \<pi> j"
    "\<And>q. user_page q \<Longrightarrow> translate_page M' p4 q = translate_page M p4 q"
proof -
  have "pt_inv M' p4 (avail a') \<and> walk M' p4 (\<rho> @ [i]) = Some t' \<and> avail a' \<subseteq> avail a \<and>
    tables M' p4 \<subseteq> tables M p4 \<union> (avail a - avail a') \<and>
    (\<forall>\<pi> j. user_path \<pi> \<longrightarrow> length \<pi> = 3 \<longrightarrow> entry_at M' p4 \<pi> j = entry_at M p4 \<pi> j) \<and>
    (\<forall>q. user_page q \<longrightarrow> translate_page M' p4 q = translate_page M p4 q)"
  proof (cases "next_table M t i")
    case (Some u)
    then show ?thesis using c inv t by (simp add: next_table_create_def walk_snoc)
  next
    case None
    let ?e = "\<lambda>f. set_entry f (pte_writable True (pte_valid True fl))"
    have efl: "flags_ok (pte_writable True (pte_valid True fl))" using fl(1) by (auto simp: flags_ok_bits pte_bits split: if_splits)
    from c None obtain f where h: "\<not> is_huge (pte_flags (M t i))" and f: "allocate_frame A a = Some (f, a')"
      and n: "next_table (pt_set t i (?e f) M) t i = Some t'" and M': "M' = table_zero t' (pt_set t i (?e f) M)"
      by (auto simp: next_table_create_def Let_def split: if_splits Option.bind_splits)
    have F: "f \<in> avail a" "frame_ok f" "avail a' \<subseteq> avail a - {f}" using A f by (auto simp: frame_spec_def)
    have t': "t' = f" using n F(2) efl by (auto simp: next_table_def Let_def pt_set_apply split: if_splits)
    have eh: "\<not> is_huge (pte_flags (?e f))" using fl efl by (simp add: pte_bits)
    have ft: "f \<notin> tables M p4" using inv F(1) by (auto simp: pt_inv_def)
    have tree: "tree M p4" using inv by (simp add: pt_inv_def)
    note C = tree t None ft n [unfolded t']
    note ent = entry_create [OF C, folded M' [unfolded t']]
    have "translate_page M' p4 q = translate_page M p4 q" if q: "user_page q" for q
    proof -
      have l: "length \<rho> \<le> 2" using user_path_snocD [OF t(2)] by simp
      have e1: "entry_at M' p4 (page_path q) (p1_index q) = entry_at M p4 (page_path q) (p1_index q)"
        using ent [OF user_page_paths(1) [OF q]] l by (auto simp: page_path_def)
      have old: "\<not> is_huge (pte_flags (entry_at M p4 \<rho> i))" using t(1) h by (simp add: entry_at_def)
      have e2: "entry_at M' p4 [p4_index q, p3_index q] (p2_index q) = entry_at M p4 [p4_index q, p3_index q] (p2_index q) \<or>
          \<not> is_huge (pte_flags (entry_at M' p4 [p4_index q, p3_index q] (p2_index q))) \<and>
          \<not> is_huge (pte_flags (entry_at M p4 [p4_index q, p3_index q] (p2_index q)))"
        using ent [OF user_page_paths(3) [OF q]] old eh by auto
      have e3: "entry_at M' p4 [p4_index q] (p3_index q) = entry_at M p4 [p4_index q] (p3_index q) \<or>
          \<not> is_huge (pte_flags (entry_at M' p4 [p4_index q] (p3_index q))) \<and>
          \<not> is_huge (pte_flags (entry_at M p4 [p4_index q] (p3_index q)))"
        using ent [OF user_page_paths(2) [OF q]] old eh by auto
      show ?thesis unfolding translate_entries e1 using e2 e3 huge_page_skip by metis
    qed
    moreover have "walk M' p4 (\<rho> @ [i]) = Some t'" using walk_create [OF C t(2)] M' t' by simp
    moreover have "tree M' p4" "tables M' p4 = insert f (tables M p4)" using tables_create [OF C] M' t' by simp_all
    moreover have "entry_at M' p4 \<pi> j = entry_at M p4 \<pi> j" if "user_path \<pi>" "length \<pi> = 3" for \<pi> j
      using ent [OF that(1)] that(2) user_path_snocD [OF t(2)] by auto
    ultimately show ?thesis using F inv by (auto simp: pt_inv_def)
  qed
  then show "pt_inv M' p4 (avail a')" "walk M' p4 (\<rho> @ [i]) = Some t'" "avail a' \<subseteq> avail a"
    "tables M' p4 \<subseteq> tables M p4 \<union> (avail a - avail a')"
    "\<And>\<pi> j. user_path \<pi> \<Longrightarrow> length \<pi> = 3 \<Longrightarrow> entry_at M' p4 \<pi> j = entry_at M p4 \<pi> j"
    "\<And>q. user_page q \<Longrightarrow> translate_page M' p4 q = translate_page M p4 q"
    by blast+
qed

definition leaf :: "pt_mem \<Rightarrow> usize \<Rightarrow> usize \<Rightarrow> pte" where
  "leaf M p4 p = entry_at M p4 (page_path p) (p1_index p)"

lemma walk_huge_page:
  assumes "walk M p4 (page_path q) = Some t"
  shows "huge_page q (entry_at M p4 [p4_index q] (p3_index q)) (entry_at M p4 [p4_index q, p3_index q] (p2_index q)) = Some None"
proof -
  from assms obtain t3 t2 where t: "next_table M p4 (p4_index q) = Some t3" "next_table M t3 (p3_index q) = Some t2"
    "next_table M t2 (p2_index q) = Some t"
    by (auto simp: page_path_def bind_eq_Some_conv)
  then have "\<not> is_huge (pte_flags (M t3 (p3_index q)))" "\<not> is_huge (pte_flags (M t2 (p2_index q)))"
    by (auto simp: next_table_def Let_def split: if_splits)
  then show ?thesis using t by (simp add: entry_at_def huge_page_def split: option.splits bool.splits)
qed

lemma leaf_nonzero_walk: "leaf M p4 q \<noteq> 0 \<Longrightarrow> \<exists>t. walk M p4 (page_path q) = Some t \<and> M t (p1_index q) = leaf M p4 q"
  by (auto simp: leaf_def entry_at_def split: option.splits)

lemma translate_leaf:
  assumes "walk M p4 (page_path q) = Some t"
  shows "translate_page M p4 q = Some (pointed_frame (leaf M p4 q))"
  unfolding translate_entries walk_huge_page [OF assms] leaf_def by (simp split: option.splits)

text \<open>Setting the entry of a page.\<close>

lemma set_leaf_spec:
  assumes tree: "tree M p4" and t: "walk M p4 (page_path p) = Some t" and p: "user_page p" "page_ok p"
    and M': "M' = pt_set t (p1_index p) e M"
  shows "tree M' p4" "tables M' p4 = tables M p4"
    "\<And>\<pi>. user_path \<pi> \<Longrightarrow> walk M' p4 \<pi> = walk M p4 \<pi>"
    "\<And>q. user_page q \<Longrightarrow> page_ok q \<Longrightarrow> leaf M' p4 q = (if q = p then e else leaf M p4 q)"
    "\<And>q. user_page q \<Longrightarrow> page_ok q \<Longrightarrow> translate_page M' p4 q = (if q = p then Some (pointed_frame e) else translate_page M p4 q)"
proof -
  have u: "user_path (page_path p)" "length (page_path p) = 3" using user_page_paths(1) [OF p(1)] by (simp_all add: page_path_def)
  note L = tree t u(2,1)
  show "tree M' p4" "tables M' p4 = tables M p4" unfolding M' by (rule tables_set_leaf [OF L])+
  show w: "walk M' p4 \<pi> = walk M p4 \<pi>" if "user_path \<pi>" for \<pi> unfolding M' by (rule walk_set_leaf [OF L that])
  have ent: "entry_at M' p4 \<pi> j = (if \<pi> = page_path p \<and> j = p1_index p then e else entry_at M p4 \<pi> j)"
    if "user_path \<pi>" for \<pi> j
    unfolding M' by (rule entry_set_leaf [OF L that])
  show l: "leaf M' p4 q = (if q = p then e else leaf M p4 q)" if "user_page q" "page_ok q" for q
    using ent [OF user_page_paths(1) [OF that(1)]] page_index_inj [OF that(2) p(2)] by (auto simp: leaf_def)
  show "translate_page M' p4 q = (if q = p then Some (pointed_frame e) else translate_page M p4 q)"
    if "user_page q" "page_ok q" for q
  proof (cases "q = p")
    case True
    have "walk M' p4 (page_path p) = Some t" using w [OF u(1)] t by simp
    from translate_leaf [OF this] l [OF that] True show ?thesis by simp
  next
    case False
    have "entry_at M' p4 [p4_index q] (p3_index q) = entry_at M p4 [p4_index q] (p3_index q)"
      "entry_at M' p4 [p4_index q, p3_index q] (p2_index q) = entry_at M p4 [p4_index q, p3_index q] (p2_index q)"
      using ent [OF user_page_paths(2) [OF that(1)]] ent [OF user_page_paths(3) [OF that(1)]] by (simp_all add: page_path_def)
    then show ?thesis using False l [OF that] unfolding translate_entries leaf_def by (simp cong: option.case_cong)
  qed
qed

lemma map_page_spec:
  assumes A: "frame_spec A avail" and inv: "pt_inv M p4 (avail a)" and p: "user_page p" "page_ok p"
    and fl: "flags_ok hfl" "\<not> is_huge hfl" "flags_ok afl" "is_valid afl" "frame_ok f"
    and m: "map_page A p4 hfl afl p f (M, a) = Some (ok, M', a')"
  shows "pt_inv M' p4 (avail a')" "avail a' \<subseteq> avail a" "tables M' p4 \<subseteq> tables M p4 \<union> (avail a - avail a')"
    "ok \<longleftrightarrow> leaf M p4 p = 0" "ok \<Longrightarrow> translate_page M p4 p = Some None"
    "\<And>q. user_page q \<Longrightarrow> page_ok q \<Longrightarrow> leaf M' p4 q = (if ok \<and> q = p then set_entry f afl else leaf M p4 q)"
    "\<And>q. user_page q \<Longrightarrow> page_ok q \<Longrightarrow> translate_page M' p4 q = (if ok \<and> q = p then Some (Some f) else translate_page M p4 q)"
proof -
  from m obtain p3 M1 a1 p2 M2 a2 p1 M3 where
    c1: "next_table_create A p4 (p4_index p) hfl (M, a) = Some (p3, M1, a1)" and
    c2: "next_table_create A p3 (p3_index p) hfl (M1, a1) = Some (p2, M2, a2)" and
    c3: "next_table_create A p2 (p2_index p) hfl (M2, a2) = Some (p1, M3, a')" and
    e: "ok = is_unused (M3 p1 (p1_index p))"
      "M' = (if ok then pt_set p1 (p1_index p) (set_entry f afl) M3 else M3)"
    by (auto simp: map_page_def split: if_splits Option.bind_splits)
  note u = user_page_paths [OF p(1)]
  have us: "walk M p4 [] = Some p4" "user_path ([] @ [p4_index p])" "user_path ([p4_index p] @ [p3_index p])"
    "user_path ([p4_index p, p3_index p] @ [p2_index p])"
    using u by (simp_all add: page_path_def)
  note s1 = create_spec [OF A inv us(1,2) fl(1,2) c1]
  have w1: "walk M1 p4 [p4_index p] = Some p3" using s1(2) by simp
  note s2 = create_spec [OF A s1(1) w1 us(3) fl(1,2) c2]
  have w2: "walk M2 p4 [p4_index p, p3_index p] = Some p2" using s2(2) by simp
  note s3 = create_spec [OF A s2(1) w2 us(4) fl(1,2) c3]
  have w: "walk M3 p4 (page_path p) = Some p1" using s3(2) by (simp add: page_path_def)
  have lf: "leaf M3 p4 q = leaf M p4 q" if "user_page q" for q
    using s1(5) s2(5) s3(5) user_page_paths(1) [OF that] by (simp add: leaf_def page_path_def)
  have tr: "translate_page M3 p4 q = translate_page M p4 q" if "user_page q" for q
    using s1(6) s2(6) s3(6) that by simp
  have "leaf M3 p4 p = M3 p1 (p1_index p)" using w by (simp add: leaf_def entry_at_def)
  then show ok: "ok \<longleftrightarrow> leaf M p4 p = 0" using lf [OF p(1)] e(1) by (simp add: is_unused_def)
  show "translate_page M p4 p = Some None" if ok
    using translate_leaf [OF w] lf [OF p(1)] tr [OF p(1)] ok that by simp
  show a: "avail a' \<subseteq> avail a" using s1(3) s2(3) s3(3) by blast
  have t3: "tables M3 p4 \<subseteq> tables M p4 \<union> (avail a - avail a')" using s1(3,4) s2(3,4) s3(3,4) by blast
  have tree: "tree M3 p4" using s3(1) by (simp add: pt_inv_def)
  have pf: "pointed_frame (set_entry f afl) = Some f" using fl by (simp add: pointed_frame_def)
  note S = set_leaf_spec [OF tree w p refl, where e = "set_entry f afl"]
  show "pt_inv M' p4 (avail a')" using s3(1) S(1,2) unfolding e(2) pt_inv_def by simp
  show "tables M' p4 \<subseteq> tables M p4 \<union> (avail a - avail a')" using t3 S(2) unfolding e(2) by simp
  show "leaf M' p4 q = (if ok \<and> q = p then set_entry f afl else leaf M p4 q)" if "user_page q" "page_ok q" for q
    using S(4) [OF that] lf [OF that(1)] unfolding e(2) by (cases "q = p") simp_all
  show "translate_page M' p4 q = (if ok \<and> q = p then Some (Some f) else translate_page M p4 q)" if "user_page q" "page_ok q" for q
    using S(5) [OF that] tr [OF that(1)] pf unfolding e(2) by (cases "q = p") simp_all
qed

section \<open>Exclusive frames\<close>

abbreviation good_page :: "usize \<Rightarrow> bool" where
  "good_page q \<equiv> user_page q \<and> page_ok q"

text \<open>The frame that an entry marked as exclusive belongs to.\<close>

definition excl_frame :: "pte \<Rightarrow> usize option" where
  "excl_frame e = (if is_exclusive (pte_flags e) then Some (frame_value e) else None)"

text \<open>
  Exclusive frames are mapped once, are not free, and are not page tables.
\<close>

definition bij_inv :: "pt_mem \<Rightarrow> usize \<Rightarrow> usize set \<Rightarrow> bool" where
  "bij_inv M p4 F \<longleftrightarrow> pt_inv M p4 F \<and>
     (\<forall>q f. good_page q \<and> excl_frame (leaf M p4 q) = Some f \<longrightarrow> f \<notin> tables M p4 \<and> f \<notin> F) \<and>
     (\<forall>q q' f. good_page q \<and> good_page q' \<and> excl_frame (leaf M p4 q) = Some f \<and> excl_frame (leaf M p4 q') = Some f
        \<longrightarrow> q = q')"

lemma bij_inv_mono: "bij_inv M p4 F \<Longrightarrow> F' \<subseteq> F \<Longrightarrow> bij_inv M p4 F'"
  unfolding bij_inv_def pt_inv_def by blast

lemma bij_invD:
  assumes "bij_inv M p4 F" "f \<in> F"
  shows "f \<notin> tables M p4" "\<And>q. good_page q \<Longrightarrow> excl_frame (leaf M p4 q) \<noteq> Some f"
  using assms unfolding bij_inv_def pt_inv_def by blast+

lemma excl_set_entry: "frame_ok f \<Longrightarrow> flags_ok fl \<Longrightarrow> excl_frame (set_entry f fl) = (if is_exclusive fl then Some f else None)"
  by (simp add: excl_frame_def)

lemma excl_zero [simp]: "excl_frame 0 = None"
  by (simp add: excl_frame_def getter_bits)

lemma bij_map_page:
  assumes A: "frame_spec A avail" and inv: "bij_inv M p4 (insert f (avail a))" and fa: "f \<notin> avail a" and p: "user_page p" "page_ok p"
    and fl: "flags_ok hfl" "\<not> is_huge hfl" "flags_ok afl" "is_valid afl" "frame_ok f"
    and m: "map_page A p4 hfl afl p f (M, a) = Some (ok, M', a')"
  shows "bij_inv M' p4 (if ok then avail a' else insert f (avail a'))"
proof -
  have "pt_inv M p4 (avail a)" using bij_inv_mono [OF inv] by (auto simp: bij_inv_def)
  note S = map_page_spec [OF A this p fl m]
  have f: "f \<notin> tables M p4" "\<And>q. good_page q \<Longrightarrow> excl_frame (leaf M p4 q) \<noteq> Some f" using bij_invD [OF inv] by blast+
  have old: "g \<notin> tables M' p4 \<and> g \<notin> insert f (avail a)" if "good_page q" "excl_frame (leaf M p4 q) = Some g" for q g
    using inv that S(3) unfolding bij_inv_def by blast
  have lf: "leaf M' p4 q = (if ok \<and> q = p then set_entry f afl else leaf M p4 q)" if "good_page q" for q
    using S(6) that by blast
  have ft: "f \<notin> tables M' p4" using S(3) f(1) fa by blast
  have fa': "f \<notin> avail a'" using S(2) fa by blast
  have ex: "excl_frame (leaf M' p4 q) = Some g \<longleftrightarrow> (if ok \<and> q = p then is_exclusive afl \<and> g = f else excl_frame (leaf M p4 q) = Some g)"
    if "good_page q" for q g
    using lf [OF that] by (auto simp: excl_set_entry [OF fl(5,3)])
  show ?thesis
    unfolding bij_inv_def
  proof (intro conjI allI impI)
    show "pt_inv M' p4 (if ok then avail a' else insert f (avail a'))" using S(1) ft by (auto simp: pt_inv_def)
    fix q g
    assume h: "good_page q \<and> excl_frame (leaf M' p4 q) = Some g"
    show "g \<notin> tables M' p4" using h ex [of q g] old [of q g] ft by (auto split: if_splits)
    show "g \<notin> (if ok then avail a' else insert f (avail a'))"
      using h ex [of q g] old [of q g] fa' S(2) by (auto split: if_splits)
  next
    fix q q' g
    assume h: "good_page q \<and> good_page q' \<and> excl_frame (leaf M' p4 q) = Some g \<and> excl_frame (leaf M' p4 q') = Some g"
    then have uq: "excl_frame (leaf M p4 q) = Some g \<Longrightarrow> excl_frame (leaf M p4 q') = Some g \<Longrightarrow> q = q'"
      using inv unfolding bij_inv_def by blast
    show "q = q'" using h ex [of q g] ex [of q' g] old [of q g] old [of q' g] uq by (auto split: if_splits)
  qed
qed

section \<open>Ranges of pages\<close>

text \<open>The new translations: the pages of \<open>ps\<close> go to the frames \<open>fs\<close>.\<close>

definition maps_to :: "usize list \<Rightarrow> usize list \<Rightarrow> PteFlags \<Rightarrow> usize \<Rightarrow> pt_mem \<Rightarrow> pt_mem \<Rightarrow> bool" where
  "maps_to ps fs fl p4 M M' \<longleftrightarrow> (\<forall>q. good_page q \<longrightarrow>
     (case map_of (zip ps fs) q of
        Some f \<Rightarrow> leaf M p4 q = 0 \<and> translate_page M p4 q = Some None \<and>
          leaf M' p4 q = set_entry f fl \<and> translate_page M' p4 q = Some (Some f)
      | None \<Rightarrow> leaf M' p4 q = leaf M p4 q \<and> translate_page M' p4 q = translate_page M p4 q))"

lemma maps_to_Cons:
  assumes h: "\<And>q. good_page q \<Longrightarrow> leaf M1 p4 q = (if q = p then set_entry f fl else leaf M p4 q)"
      "\<And>q. good_page q \<Longrightarrow> translate_page M1 p4 q = (if q = p then Some (Some f) else translate_page M p4 q)"
      "leaf M p4 p = 0" "translate_page M p4 p = Some None"
    and t: "maps_to ps fs fl p4 M1 M'" and p: "p \<notin> set ps"
  shows "maps_to (p # ps) (f # fs) fl p4 M M'"
proof -
  have n: "map_of (zip ps fs) p = None" using p by (meson in_set_zipE map_of_SomeD not_None_eq)
  show ?thesis
    unfolding maps_to_def
  proof (intro allI impI)
    fix q
    assume q: "good_page q"
    show "case map_of (zip (p # ps) (f # fs)) q of
        Some f \<Rightarrow> leaf M p4 q = 0 \<and> translate_page M p4 q = Some None \<and>
          leaf M' p4 q = set_entry f fl \<and> translate_page M' p4 q = Some (Some f)
      | None \<Rightarrow> leaf M' p4 q = leaf M p4 q \<and> translate_page M' p4 q = translate_page M p4 q"
      using t [unfolded maps_to_def, rule_format, OF q] h(1,2) [OF q] h(3,4) n by (cases "q = p") (simp_all split: option.splits)
  qed
qed

lemma map_alloc_loop_spec:
  assumes A: "frame_spec A avail" and fl: "flags_ok hfl" "\<not> is_huge hfl" "flags_ok afl" "is_valid afl"
  shows "bij_inv M p4 (avail a) \<Longrightarrow> distinct ps \<Longrightarrow> \<forall>p \<in> set ps. good_page p \<Longrightarrow>
    map_alloc_loop A p4 hfl afl ps (M, a) = Some (r, M', a') \<Longrightarrow>
    bij_inv M' p4 (avail a') \<and>
    (r = Inr () \<longrightarrow> (\<exists>fs. length fs = length ps \<and> distinct fs \<and> set fs \<subseteq> avail a \<and> avail a' \<subseteq> avail a - set fs \<and>
       (\<forall>f \<in> set fs. frame_ok f) \<and> maps_to ps fs afl p4 M M'))"
proof (induction ps arbitrary: M a)
  case Nil
  then show ?case by (auto simp: maps_to_def)
next
  case (Cons p ps)
  show ?case
  proof (cases "allocate_frame A a")
    case None
    then show ?thesis using Cons.prems by auto
  next
    case (Some fa)
    obtain f a1 where fa: "fa = (f, a1)" by (cases fa)
    have F: "f \<in> avail a" "frame_ok f" "avail a1 \<subseteq> avail a - {f}" using A Some fa by (auto simp: frame_spec_def)
    have fa1: "f \<notin> avail a1" using F by blast
    have "bij_inv M p4 (insert f (avail a1))" by (rule bij_inv_mono [OF Cons.prems(1)]) (use F in auto)
    note inv = this fa1
    have pg: "user_page p" "page_ok p" using Cons.prems(3) by auto
    obtain ok M1 a2 where m: "map_page A p4 hfl afl p f (M, a1) = Some (ok, M1, a2)"
      using Cons.prems(4) Some fa by (cases "map_page A p4 hfl afl p f (M, a1)") auto
    note bij = bij_map_page [OF A inv pg fl F(2) m]
    have "pt_inv M p4 (avail a1)" using bij_inv_mono [OF inv(1)] by (auto simp: bij_inv_def)
    note S = map_page_spec [OF A this pg fl F(2) m]
    show ?thesis
    proof (cases ok)
      case False
      have "avail (drop_frames A (range_new f f) a2) \<subseteq> insert f (avail a2)"
        using A by (fastforce simp: frame_spec_def range_pages_def)
      then show ?thesis using Cons.prems(4) Some fa m False bij_inv_mono [OF bij] by auto
    next
      case True
      have b: "bij_inv M1 p4 (avail a2)" using bij True by simp
      have l: "map_alloc_loop A p4 hfl afl ps (M1, a2) = Some (r, M', a')" using Cons.prems(4) Some fa m True by simp
      have I: "bij_inv M' p4 (avail a') \<and> (r = Inr () \<longrightarrow> (\<exists>fs. length fs = length ps \<and> distinct fs \<and> set fs \<subseteq> avail a2 \<and>
          avail a' \<subseteq> avail a2 - set fs \<and> (\<forall>f \<in> set fs. frame_ok f) \<and> maps_to ps fs afl p4 M1 M'))"
        by (rule Cons.IH [OF b _ _ l]) (use Cons.prems(2,3) in auto)
      show ?thesis
      proof (intro conjI impI)
        show "bij_inv M' p4 (avail a')" using I by blast
        assume "r = Inr ()"
        with I obtain fs where fs: "length fs = length ps" "distinct fs" "set fs \<subseteq> avail a2" "avail a' \<subseteq> avail a2 - set fs"
          "\<forall>f \<in> set fs. frame_ok f" "maps_to ps fs afl p4 M1 M'" by blast
        have "maps_to (p # ps) (f # fs) afl p4 M M'"
          by (rule maps_to_Cons [OF _ _ _ _ fs(6)]) (use S(4-7) True Cons.prems(2) in auto)
        moreover have "f \<notin> set fs" using fs(3) S(2) inv(2) by blast
        ultimately show "\<exists>fs. length fs = length (p # ps) \<and> distinct fs \<and> set fs \<subseteq> avail a \<and> avail a' \<subseteq> avail a - set fs \<and>
            (\<forall>f \<in> set fs. frame_ok f) \<and> maps_to (p # ps) fs afl p4 M M'"
          using fs(1-5) F S(2) by (intro exI [of _ "f # fs"]) auto
      qed
    qed
  qed
qed

lemma zip_fun:
  assumes "length xs = length ys" "distinct xs" "distinct ys"
  obtains g where "map_of (zip xs ys) = (\<lambda>x. if x \<in> set xs then Some (g x) else None)" "inj_on g (set xs)" "g ` set xs = set ys"
proof
  let ?m = "map_of (zip xs ys)" and ?g = "\<lambda>x. the (map_of (zip xs ys) x)"
  have d: "dom ?m = set xs" "ran ?m = set ys" using assms by (simp_all add: ran_map_of_zip)
  show "?m = (\<lambda>x. if x \<in> set xs then Some (?g x) else None)" using d(1) by (auto simp: fun_eq_iff domD)
  show "?g ` set xs = set ys" unfolding d [symmetric] by (force simp: ran_def dom_def)
  show "inj_on ?g (set xs)"
    using \<open>?g ` set xs = set ys\<close> assms by (metis card_image_le distinct_card eq_card_imp_inj_on finite_set)
qed

lemma range_iter_set: "set (range_iter r) = range_pages r" "distinct (range_iter r)"
proof -
  let ?n = "Suc (unat (range_end r - range_start r))"
  have u: "unat (of_nat i :: usize) = i" if "i < ?n" for i
    using that unat_u64 [of "range_end r - range_start r"] by (simp add: unat_of_nat take_bit_nat_eq_self_iff)
  have "inj_on (\<lambda>i. range_start r + of_nat i) {0..<?n}"
    by (rule inj_onI) (metis add_left_cancel atLeastLessThan_iff u)
  then show "distinct (range_iter r)" by (simp add: range_iter_def distinct_map del: upt_Suc)
  show "set (range_iter r) = range_pages r"
  proof (cases "is_empty r")
    case True
    then show ?thesis by (auto simp: range_iter_def range_pages_def is_empty_def)
  next
    case False
    then have le: "range_start r \<le> range_end r" by (simp add: is_empty_def)
    have d: "unat (range_end r - range_start r) = unat (range_end r) - unat (range_start r)" using unat_sub [OF le] .
    have "q \<in> (\<lambda>i. range_start r + of_nat i) ` {0..<?n} \<longleftrightarrow> q \<in> range_pages r" for q
    proof
      assume "q \<in> (\<lambda>i. range_start r + of_nat i) ` {0..<?n}"
      then obtain i where i: "i < ?n" "q = range_start r + of_nat i" by auto
      have "unat q = unat (range_start r) + i"
        using i u [OF i(1)] d le unat_u64 [of "range_end r"] by (simp add: unat_word_ariths word_le_nat_alt)
      then show "q \<in> range_pages r" using i(1) d le by (simp add: range_pages_def word_le_nat_alt)
    next
      assume "q \<in> range_pages r"
      then have q: "range_start r \<le> q" "q \<le> range_end r" by (simp_all add: range_pages_def)
      then have "unat (q - range_start r) < ?n" using d unat_sub [OF q(1)] by (simp add: word_le_nat_alt)
      moreover have "q = range_start r + of_nat (unat (q - range_start r))" by simp
      ultimately show "q \<in> (\<lambda>i. range_start r + of_nat i) ` {0..<?n}" by (intro image_eqI [of _ _ "unat (q - range_start r)"]) auto
    qed
    then show ?thesis using False by (auto simp: range_iter_def simp del: upt_Suc)
  qed
qed

lemma map_allocated_pages_spec:
  assumes A: "frame_spec A avail" and inv: "bij_inv M p4 (avail a)" and ps: "range_pages r \<subseteq> {q. good_page q}" and fl: "flags_ok fl"
    and m: "map_allocated_pages A p4 r fl (M, a) = Some (res, M', a')"
  shows "bij_inv M' p4 (avail a')"
    "res = Inr mp \<Longrightarrow> mp = \<lparr> page_table_p4 = p4, mapped_range = r, mapped_flags = pte_exclusive True (pte_valid True fl) \<rparr> \<and>
       (\<exists>fs. length fs = length (range_iter r) \<and> distinct fs \<and> set fs \<subseteq> avail a \<and> avail a' \<subseteq> avail a - set fs \<and>
         (\<forall>f \<in> set fs. frame_ok f) \<and> maps_to (range_iter r) fs (mapped_flags mp) p4 M M')"
proof -
  let ?h = "adjust_for_higher_level_pte fl" and ?f = "pte_exclusive True (pte_valid True fl)"
  have F: "flags_ok ?h" "\<not> is_huge ?h" "flags_ok ?f" "is_valid ?f" using fl by (auto simp: flags_ok_bits pte_bits split: if_splits)
  obtain x where l: "map_alloc_loop A p4 ?h ?f (range_iter r) (M, a) = Some (x, M', a')"
    and res: "res = (case x of Inr _ \<Rightarrow> Inr \<lparr> page_table_p4 = p4, mapped_range = r, mapped_flags = ?f \<rparr> | Inl e \<Rightarrow> Inl e)"
    using m by (auto simp: map_allocated_pages_def Let_def)
  have S: "bij_inv M' p4 (avail a') \<and>
    (x = Inr () \<longrightarrow> (\<exists>fs. length fs = length (range_iter r) \<and> distinct fs \<and> set fs \<subseteq> avail a \<and> avail a' \<subseteq> avail a - set fs \<and>
       (\<forall>f \<in> set fs. frame_ok f) \<and> maps_to (range_iter r) fs ?f p4 M M'))"
    by (rule map_alloc_loop_spec [OF A F inv _ _ l]) (use ps range_iter_set in auto)
  then show "bij_inv M' p4 (avail a')" by blast
  assume "res = Inr mp"
  then have "x = Inr ()" "mp = \<lparr> page_table_p4 = p4, mapped_range = r, mapped_flags = ?f \<rparr>" using res by (cases x; simp)+
  with S show "mp = \<lparr> page_table_p4 = p4, mapped_range = r, mapped_flags = ?f \<rparr> \<and>
       (\<exists>fs. length fs = length (range_iter r) \<and> distinct fs \<and> set fs \<subseteq> avail a \<and> avail a' \<subseteq> avail a - set fs \<and>
         (\<forall>f \<in> set fs. frame_ok f) \<and> maps_to (range_iter r) fs (mapped_flags mp) p4 M M')" by simp
qed

lemma map_own_frames:
  assumes A: "frame_spec A avail" and inv: "bij_inv M p4 (avail a)" and ps: "range_pages r \<subseteq> {q. good_page q}" and fl: "flags_ok fl"
    and m: "map_allocated_pages A p4 r fl (M, a) = Some (Inr mp, M', a')"
  obtains g where "mp = \<lparr> page_table_p4 = p4, mapped_range = r, mapped_flags = pte_exclusive True (pte_valid True fl) \<rparr>"
    "inj_on g (range_pages r)" "g ` range_pages r \<subseteq> avail a - avail a'"
    "\<And>q. good_page q \<Longrightarrow>
       if q \<in> range_pages r
       then translate_page M p4 q = Some None \<and> translate_page M' p4 q = Some (Some (g q)) \<and> pte_flags (leaf M' p4 q) = mapped_flags mp
       else translate_page M' p4 q = translate_page M p4 q"
proof -
  let ?f = "pte_exclusive True (pte_valid True fl)"
  have F: "flags_ok ?f" using fl by (auto simp: flags_ok_bits pte_bits split: if_splits)
  from map_allocated_pages_spec(2) [OF assms refl] obtain fs where
    mp: "mp = \<lparr> page_table_p4 = p4, mapped_range = r, mapped_flags = ?f \<rparr>" and
    fs: "length fs = length (range_iter r)" "distinct fs" "set fs \<subseteq> avail a" "avail a' \<subseteq> avail a - set fs"
      "maps_to (range_iter r) fs ?f p4 M M'"
    by auto
  obtain g where g: "map_of (zip (range_iter r) fs) = (\<lambda>q. if q \<in> range_pages r then Some (g q) else None)"
    "inj_on g (range_pages r)" "g ` range_pages r = set fs"
    by (rule zip_fun [OF fs(1) [symmetric] range_iter_set(2) fs(2), unfolded range_iter_set(1)]) blast
  have t: "if q \<in> range_pages r
      then translate_page M p4 q = Some None \<and> translate_page M' p4 q = Some (Some (g q)) \<and> pte_flags (leaf M' p4 q) = mapped_flags mp
      else translate_page M' p4 q = translate_page M p4 q" if "good_page q" for q
    using fs(5) [unfolded maps_to_def g(1), rule_format, OF that] F unfolding mp by (cases "q \<in> range_pages r") simp_all
  show thesis by (rule that [OF mp g(2) _ t]) (use g(3) fs(3,4) in blast)
qed

text \<open>
  C9. Mapping a range of pages to fresh frames: when it succeeds, every page of the range translates to a frame of
  its own, taken from the free frames, with the requested flags; no page was mapped before, and every other page
  translates as before.  Whether it succeeds or not, the page tables stay a tree of frames that are not free, and
  every exclusively mapped frame is mapped by one page only.
\<close>

theorem map_allocated_pages_correct:
  assumes A: "frame_spec A avail" and inv: "bij_inv M p4 (avail a)" and ps: "range_pages r \<subseteq> {q. good_page q}" and fl: "flags_ok fl"
    and m: "map_allocated_pages A p4 r fl (M, a) = Some (res, M', a')"
  shows "bij_inv M' p4 (avail a') \<and>
    (case res of
       Inl _ \<Rightarrow> True
     | Inr mp \<Rightarrow> mapped_range mp = r \<and> page_table_p4 mp = p4 \<and> mapped_flags mp = pte_exclusive True (pte_valid True fl) \<and>
         (\<exists>g. inj_on g (range_pages r) \<and> g ` range_pages r \<subseteq> avail a - avail a' \<and>
           (\<forall>q. good_page q \<longrightarrow>
              (if q \<in> range_pages r
               then translate_page M p4 q = Some None \<and> translate_page M' p4 q = Some (Some (g q)) \<and>
                 pte_flags (leaf M' p4 q) = mapped_flags mp
               else translate_page M' p4 q = translate_page M p4 q))))"
proof (cases res)
  case (Inl e)
  then show ?thesis using map_allocated_pages_spec(1) [OF assms] by simp
next
  case (Inr mp)
  obtain g where
    g: "mp = \<lparr> page_table_p4 = p4, mapped_range = r, mapped_flags = pte_exclusive True (pte_valid True fl) \<rparr>"
    "inj_on g (range_pages r)" "g ` range_pages r \<subseteq> avail a - avail a'"
    "\<And>q. good_page q \<Longrightarrow>
       if q \<in> range_pages r
       then translate_page M p4 q = Some None \<and> translate_page M' p4 q = Some (Some (g q)) \<and> pte_flags (leaf M' p4 q) = mapped_flags mp
       else translate_page M' p4 q = translate_page M p4 q"
    by (rule map_own_frames [OF A inv ps fl m [unfolded Inr]], rule that)
  then show ?thesis using map_allocated_pages_spec(1) [OF assms] unfolding Inr g(1)
    by (simp only: sum.case MappedPages.simps) blast
qed

section \<open>Removing a mapping\<close>

lemma unmap_loop_spec:
  "tree M p4 \<Longrightarrow> distinct ps \<Longrightarrow> \<forall>p \<in> set ps. good_page p \<and> leaf M p4 p \<noteq> 0 \<Longrightarrow>
   \<exists>M'. unmap_loop A p4 ps M S = (Inr (), M', fold (collect_frames A) (map (\<lambda>p. fst (set_unmapped (leaf M p4 p))) ps) S) \<and>
     tree M' p4 \<and> tables M' p4 = tables M p4 \<and>
     (\<forall>q. good_page q \<longrightarrow> leaf M' p4 q = (if q \<in> set ps then 0 else leaf M p4 q) \<and>
        translate_page M' p4 q = (if q \<in> set ps then Some None else translate_page M p4 q))"
proof (induction ps arbitrary: M S)
  case Nil
  then show ?case by simp
next
  case (Cons p ps)
  then have p: "user_page p" "page_ok p" "leaf M p4 p \<noteq> 0" by auto
  from leaf_nonzero_walk [OF p(3)] obtain t where t: "walk M p4 (page_path p) = Some t" "M t (p1_index p) = leaf M p4 p" by blast
  let ?M = "pt_set t (p1_index p) 0 M"
  note S = set_leaf_spec [OF Cons.prems(1) t(1) p(1,2) refl, where e = 0]
  have lp: "leaf ?M p4 q = leaf M p4 q" if "q \<in> set ps" for q using S(4) [of q] Cons.prems(2,3) that by auto
  have "\<exists>M'. unmap_loop A p4 ps ?M (collect_frames A (fst (set_unmapped (leaf M p4 p))) S) =
      (Inr (), M', fold (collect_frames A) (map (\<lambda>p. fst (set_unmapped (leaf ?M p4 p))) ps)
        (collect_frames A (fst (set_unmapped (leaf M p4 p))) S)) \<and>
      tree M' p4 \<and> tables M' p4 = tables ?M p4 \<and>
     (\<forall>q. good_page q \<longrightarrow> leaf M' p4 q = (if q \<in> set ps then 0 else leaf ?M p4 q) \<and>
        translate_page M' p4 q = (if q \<in> set ps then Some None else translate_page ?M p4 q))"
    by (rule Cons.IH [OF S(1)]) (use Cons.prems(2,3) lp in auto)
  moreover have "map (\<lambda>p. fst (set_unmapped (leaf ?M p4 p))) ps = map (\<lambda>p. fst (set_unmapped (leaf M p4 p))) ps"
    using lp by simp
  moreover have "unmap_loop A p4 (p # ps) M S = unmap_loop A p4 ps ?M (collect_frames A (fst (set_unmapped (leaf M p4 p))) S)"
    using t p(3) by (simp add: p1_table_walk is_unused_def set_unmapped_def Let_def)
  ultimately obtain M' where M': "unmap_loop A p4 (p # ps) M S =
      (Inr (), M', fold (collect_frames A) (map (\<lambda>p. fst (set_unmapped (leaf M p4 p))) (p # ps)) S)"
    "tree M' p4" "tables M' p4 = tables M p4"
    "\<forall>q. good_page q \<longrightarrow> leaf M' p4 q = (if q \<in> set ps then 0 else leaf ?M p4 q) \<and>
        translate_page M' p4 q = (if q \<in> set ps then Some None else translate_page ?M p4 q)"
    using S(2) by auto
  have "leaf M' p4 q = (if q \<in> set (p # ps) then 0 else leaf M p4 q) \<and>
      translate_page M' p4 q = (if q \<in> set (p # ps) then Some None else translate_page M p4 q)" if "good_page q" for q
    using M'(4) [rule_format, OF that] S(4,5) [of q] that by auto
  then show ?case using M'(1-3) by blast
qed

text \<open>The frames that \<open>unmap\<close> holds in its two ranges.\<close>

definition range_good :: "RangeInclusive \<Rightarrow> bool" where
  "range_good r \<longleftrightarrow> range_start r \<le> range_end r \<and> frame_ok (range_end r)"

definition opt_pages :: "RangeInclusive option \<Rightarrow> usize set" where
  "opt_pages r = (case r of Some r \<Rightarrow> range_pages r | None \<Rightarrow> {})"

definition held_good :: "RangeInclusive option \<times> RangeInclusive option \<Rightarrow> bool" where
  "held_good h \<longleftrightarrow> (\<forall>r \<in> set_option (fst h) \<union> set_option (snd h). range_good r)"

lemma next_frame:
  assumes "frame_ok f"
  shows "page_add Page4K f 1 = f + 1" "unat (f + 1) = unat f + 1"
proof -
  have f: "unat f < 2 ^ 40" using assms by (simp add: frame_ok_def word_less_nat_alt)
  then show u: "unat (f + 1) = unat f + 1" by (intro unat_add_one) simp
  have "sat_add f 1 = f + 1" using f by (simp add: sat_add_def)
  moreover have "f + 1 \<le> 0xFFFFFFFFFFFFF" using f u by (simp add: word_le_nat_alt)
  ultimately show "page_add Page4K f 1 = f + 1" by (simp add: page_add_def sat_mul_def min_def)
qed

lemma frames_merge_pages:
  assumes "frames_merge cur (range_new f f) = Some r" "range_good cur" "frame_ok f"
  shows "range_good r" "range_pages r \<subseteq> insert f (range_pages cur)"
proof -
  note n = next_frame [OF assms(3)] next_frame [of "range_end cur"]
  from assms(1) consider
    "range_start cur = f + 1" "r = range_new f (range_end cur)"
    | "range_end cur + 1 = f" "r = range_new (range_start cur) f"
    using n(1) n(3) assms(2) by (auto simp: frames_merge_def range_good_def split: if_splits)
  then have "range_good r \<and> range_pages r \<subseteq> insert f (range_pages cur)"
  proof cases
    case 1
    then have "f \<le> range_end cur" using assms(2) n(2) by (auto simp: range_good_def word_le_nat_alt)
    then show ?thesis using 1 assms(2) n(2) by (auto simp: range_good_def range_pages_def word_le_nat_alt word_unat_eq_iff)
  next
    case 2
    then show ?thesis using assms(2,3) n(4)
      by (auto simp: range_good_def range_pages_def word_le_nat_alt word_unat_eq_iff)
  qed
  then show "range_good r" "range_pages r \<subseteq> insert f (range_pages cur)" by blast+
qed

lemma collect_frames_spec:
  assumes A: "frame_spec A avail" and g: "held_good h" and c: "collect_frames A (fst (set_unmapped e)) (h, a) = (h', a')"
  shows "held_good h'"
    "opt_pages (fst h') \<union> opt_pages (snd h') \<union> avail a' \<subseteq>
     opt_pages (fst h) \<union> opt_pages (snd h) \<union> avail a \<union> set_option (excl_frame e)"
proof -
  obtain first cur where h: "h = (first, cur)" by (cases h)
  have d: "avail (drop_frames A r a) \<subseteq> avail a \<union> range_pages r" for r using A by (simp add: frame_spec_def)
  have fv: "frame_ok (frame_value e)" by simp
  have one: "range_good (range_new (frame_value e) (frame_value e))" "range_pages (range_new (frame_value e) (frame_value e)) = {frame_value e}"
    by (auto simp: range_good_def range_pages_def)
  have "held_good h' \<and> opt_pages (fst h') \<union> opt_pages (snd h') \<union> avail a' \<subseteq>
     opt_pages (fst h) \<union> opt_pages (snd h) \<union> avail a \<union> set_option (excl_frame e)"
  proof (cases "is_exclusive (pte_flags e)")
    case False
    then show ?thesis using c g by (simp add: collect_frames_def set_unmapped_def Let_def h)
  next
    case True
    then have x: "fst (set_unmapped e) = Exclusive (range_new (frame_value e) (frame_value e))" "excl_frame e = Some (frame_value e)"
      by (simp_all add: set_unmapped_def excl_frame_def Let_def)
    show ?thesis
    proof (cases cur)
      case None
      then show ?thesis using c g x one by (auto simp: collect_frames_def h held_good_def opt_pages_def)
    next
      case (Some r)
      then have rg: "range_good r" using g by (simp add: held_good_def h)
      show ?thesis
      proof (cases "frames_merge r (range_new (frame_value e) (frame_value e))")
        case (Some m)
        then show ?thesis using c g x \<open>cur = Some r\<close> frames_merge_pages [OF Some rg fv]
          by (auto simp: collect_frames_def h held_good_def opt_pages_def)
      next
        case None
        then show ?thesis using c g x \<open>cur = Some r\<close> rg one d [of r]
          by (auto simp: collect_frames_def h held_good_def opt_pages_def split: option.splits)
      qed
    qed
  qed
  then show "held_good h'" "opt_pages (fst h') \<union> opt_pages (snd h') \<union> avail a' \<subseteq>
     opt_pages (fst h) \<union> opt_pages (snd h) \<union> avail a \<union> set_option (excl_frame e)" by blast+
qed

lemma collect_all_spec:
  assumes A: "frame_spec A avail"
  shows "held_good h \<Longrightarrow> fold (collect_frames A) (map (\<lambda>e. fst (set_unmapped e)) es) (h, a) = (h', a') \<Longrightarrow>
    held_good h' \<and> opt_pages (fst h') \<union> opt_pages (snd h') \<union> avail a' \<subseteq>
      opt_pages (fst h) \<union> opt_pages (snd h) \<union> avail a \<union> (\<Union>e \<in> set es. set_option (excl_frame e))"
proof (induction es arbitrary: h a)
  case Nil
  then show ?case by simp
next
  case (Cons e es)
  obtain h1 a1 where c: "collect_frames A (fst (set_unmapped e)) (h, a) = (h1, a1)" by fastforce
  note S = collect_frames_spec [OF A Cons.prems(1) c]
  have "fold (collect_frames A) (map (\<lambda>e. fst (set_unmapped e)) es) (h1, a1) = (h', a')" using Cons.prems(2) c by simp
  from Cons.IH [OF S(1) this] S(2) show ?case by auto
qed

lemma bij_unmap:
  assumes inv: "bij_inv M p4 F" and t: "tree M' p4" "tables M' p4 = tables M p4"
    and l: "\<And>q. good_page q \<Longrightarrow> leaf M' p4 q = (if q \<in> P then 0 else leaf M p4 q)" and P: "\<forall>p \<in> P. good_page p"
  shows "bij_inv M' p4 (F \<union> (\<Union>p \<in> P. set_option (excl_frame (leaf M p4 p))))"
proof -
  have ex: "q \<notin> P \<and> excl_frame (leaf M p4 q) = Some f" if "good_page q" "excl_frame (leaf M' p4 q) = Some f" for q f
    using l [OF that(1)] that(2) by (auto split: if_splits)
  have uq: "q = q'" if "good_page q" "good_page q'" "excl_frame (leaf M p4 q) = Some f" "excl_frame (leaf M p4 q') = Some f" for q q' f
    using inv that unfolding bij_inv_def by blast
  have nt: "f \<notin> tables M p4 \<and> f \<notin> F" if "good_page q" "excl_frame (leaf M p4 q) = Some f" for q f
    using inv that unfolding bij_inv_def by blast
  show ?thesis
    unfolding bij_inv_def
  proof (intro conjI allI impI)
    show "pt_inv M' p4 (F \<union> (\<Union>p \<in> P. set_option (excl_frame (leaf M p4 p))))"
    proof -
      have "tables M p4 \<inter> F = {}" using inv by (simp add: bij_inv_def pt_inv_def)
      moreover have "tables M p4 \<inter> set_option (excl_frame (leaf M p4 p)) = {}" if "p \<in> P" for p
        using nt P that by auto
      ultimately show ?thesis using t unfolding pt_inv_def by blast
    qed
    fix q f
    assume h: "good_page q \<and> excl_frame (leaf M' p4 q) = Some f"
    show "f \<notin> tables M' p4" using ex [of q f] nt [of q f] h t(2) by auto
    show "f \<notin> F \<union> (\<Union>p \<in> P. set_option (excl_frame (leaf M p4 p)))"
      using ex [of q f] nt [of q f] h uq [of q _ f] P by auto
  next
    fix q q' f
    assume "good_page q \<and> good_page q' \<and> excl_frame (leaf M' p4 q) = Some f \<and> excl_frame (leaf M' p4 q') = Some f"
    then show "q = q'" using ex uq by blast
  qed
qed

lemma size_zero_empty:
  assumes "size_in_pages Page4K r = 0" "range_pages r \<subseteq> {q. good_page q}"
  shows "range_pages r = {}"
proof (rule ccontr)
  assume "range_pages r \<noteq> {}"
  then have le: "range_start r \<le> range_end r" and "range_end r \<in> range_pages r" by (auto simp: range_pages_def)
  then have "range_end r < 2 ^ 52" using assms(2) by (auto simp: page_ok_def)
  then have u: "unat (range_end r + 1) = unat (range_end r) + 1" by (intro unat_add_one) (simp add: word_less_nat_alt)
  then have "range_start r \<le> range_end r + 1" using le by (simp add: word_le_nat_alt)
  then have "size_in_pages Page4K r = range_end r + 1 - range_start r" by (simp add: size_in_pages_def sat_sub_def)
  moreover have "range_end r + 1 \<noteq> range_start r" using u le by (auto simp: word_le_nat_alt)
  ultimately show False using assms(1) by simp
qed

lemma unmap_spec:
  assumes A: "frame_spec A avail" and inv: "bij_inv M p4 (avail a)" and mp: "page_table_p4 mp = p4"
    and r: "range_pages (mapped_range mp) \<subseteq> {q. good_page q \<and> leaf M p4 q \<noteq> 0}"
  shows "\<exists>fr M' a'. unmap A p4 mp (M, a) = (Inr fr, M', a') \<and> bij_inv M' p4 (avail a' \<union> opt_pages fr) \<and>
    (\<forall>q. good_page q \<longrightarrow>
       translate_page M' p4 q = (if q \<in> range_pages (mapped_range mp) then Some None else translate_page M p4 q))"
proof (cases "size_in_pages Page4K (mapped_range mp) = 0")
  case True
  have "range_pages (mapped_range mp) = {}" using size_zero_empty [OF True] r by auto
  then show ?thesis using True inv by (simp add: unmap_def opt_pages_def)
next
  case False
  let ?ps = "range_iter (mapped_range mp)"
  have ps: "\<forall>p \<in> set ?ps. good_page p \<and> leaf M p4 p \<noteq> 0" using r range_iter_set(1) by auto
  have "tree M p4" using inv by (simp add: bij_inv_def pt_inv_def)
  from unmap_loop_spec [OF this range_iter_set(2) ps, of A "((None, None), a)"] obtain M' where
    u: "unmap_loop A p4 ?ps M ((None, None), a) =
      (Inr (), M', fold (collect_frames A) (map (\<lambda>p. fst (set_unmapped (leaf M p4 p))) ?ps) ((None, None), a))"
    and t: "tree M' p4" "tables M' p4 = tables M p4"
    and l: "\<And>q. good_page q \<Longrightarrow> leaf M' p4 q = (if q \<in> set ?ps then 0 else leaf M p4 q)"
      "\<And>q. good_page q \<Longrightarrow> translate_page M' p4 q = (if q \<in> set ?ps then Some None else translate_page M p4 q)"
    by blast
  obtain first cur a1 where c: "fold (collect_frames A) (map (\<lambda>p. fst (set_unmapped (leaf M p4 p))) ?ps) ((None, None), a) = ((first, cur), a1)"
    by (metis prod.collapse)
  have "held_good (None, None)" by (simp add: held_good_def)
  from collect_all_spec [OF A this, of "map (leaf M p4) ?ps" a "(first, cur)" a1] c
  have h: "opt_pages first \<union> opt_pages cur \<union> avail a1 \<subseteq> avail a \<union> (\<Union>p \<in> set ?ps. set_option (excl_frame (leaf M p4 p)))"
    by (simp add: comp_def opt_pages_def)
  have b: "bij_inv M' p4 (opt_pages first \<union> opt_pages cur \<union> avail a1)"
    by (rule bij_inv_mono [OF bij_unmap [OF inv t l(1)] h]) (use ps in auto)
  have d: "avail (drop_opt A cur a1) \<subseteq> avail a1 \<union> opt_pages cur"
    using A by (auto simp: drop_opt_def opt_pages_def frame_spec_def split: option.splits)
  have "unmap A p4 mp (M, a) = (case first of None \<Rightarrow> (Inr cur, M', a1) | Some f \<Rightarrow> (Inr (Some f), M', drop_opt A cur a1))"
    using False mp u c by (simp add: unmap_def split: option.splits)
  moreover have "bij_inv M' p4 (avail a1 \<union> opt_pages cur)" "bij_inv M' p4 (avail (drop_opt A cur a1) \<union> opt_pages first)"
    using d by (auto intro: bij_inv_mono [OF b])
  ultimately show ?thesis using l(2) range_iter_set(1) by (cases first) (simp_all add: opt_pages_def)
qed

text \<open>
  Mapping a range of pages and removing the mapping again gives back the translation of every page.  Removing
  succeeds, and the frames it returns or gives back to the allocator are no page tables and are not mapped
  exclusively any more.
\<close>

lemma map_unmap_roundtrip:
  assumes A: "frame_spec A avail" and inv: "bij_inv M p4 (avail a)" and ps: "range_pages r \<subseteq> {q. good_page q}" and fl: "flags_ok fl"
    and m: "map_allocated_pages A p4 r fl (M, a) = Some (Inr mp, M', a')"
  shows "\<exists>fr M'' a''. unmap A p4 mp (M', a') = (Inr fr, M'', a'') \<and> bij_inv M'' p4 (avail a'' \<union> opt_pages fr) \<and>
    (\<forall>q. good_page q \<longrightarrow> translate_page M'' p4 q = translate_page M p4 q)"
proof -
  from map_allocated_pages_spec(2) [OF assms refl] obtain fs where
    mp: "page_table_p4 mp = p4" "mapped_range mp = r" "mapped_flags mp = pte_exclusive True (pte_valid True fl)" and
    fs: "length fs = length (range_iter r)" "maps_to (range_iter r) fs (mapped_flags mp) p4 M M'"
    by auto
  have ok: "flags_ok (mapped_flags mp)" "is_valid (mapped_flags mp)"
    using fl unfolding mp by (auto simp: flags_ok_bits pte_bits split: if_splits)
  have nz: "set_entry f (mapped_flags mp) \<noteq> 0" for f
    using pte_flags_set_entry [OF ok(1), of f] ok(2) pte_zero(1,3) by metis
  have in_r: "\<exists>f. map_of (zip (range_iter r) fs) q = Some f" if "q \<in> range_pages r" for q
    using that fs(1) range_iter_set(1) map_of_zip_is_Some [of "range_iter r" fs q] by auto
  have out_r: "map_of (zip (range_iter r) fs) q = None" if "q \<notin> range_pages r" for q
    using that fs(1) range_iter_set(1) by simp
  note mt = fs(2) [unfolded maps_to_def, rule_format]
  have new: "leaf M' p4 q \<noteq> 0 \<and> translate_page M p4 q = Some None" if "q \<in> range_pages r" for q
  proof -
    from in_r [OF that] obtain f where "map_of (zip (range_iter r) fs) q = Some f" by blast
    then show ?thesis using mt [of q] ps that nz by auto
  qed
  have old: "translate_page M' p4 q = translate_page M p4 q" if "good_page q" "q \<notin> range_pages r" for q
    using mt [OF that(1)] out_r [OF that(2)] by simp
  have "range_pages (mapped_range mp) \<subseteq> {q. good_page q \<and> leaf M' p4 q \<noteq> 0}" using ps new mp(2) by auto
  from unmap_spec [OF A map_allocated_pages_spec(1) [OF assms] mp(1) this] obtain fr M'' a'' where
    u: "unmap A p4 mp (M', a') = (Inr fr, M'', a'')" "bij_inv M'' p4 (avail a'' \<union> opt_pages fr)"
    "\<And>q. good_page q \<Longrightarrow> translate_page M'' p4 q = (if q \<in> range_pages r then Some None else translate_page M' p4 q)"
    unfolding mp(2) by blast
  moreover have "translate_page M'' p4 q = translate_page M p4 q" if "good_page q" for q
    using u(3) [OF that] new old [OF that] by auto
  ultimately show ?thesis by blast
qed

section \<open>The recursive entry\<close>

text \<open>
  The addresses at which the code finds the tables: that of the root table, and from there one
  \<open>next_table_address\<close> for each index.  The hardware translates an address by its four indices.
\<close>

definition table_address :: "usize list \<Rightarrow> usize" where
  "table_address \<pi> = foldl (\<lambda>a i. new_canonical Virtual (push_bit 9 a OR push_bit PAGE_SHIFT i)) P4 \<pi>"

definition page_indices :: "usize \<Rightarrow> usize list" where
  "page_indices a = (let n = containing_address a in [p4_index n, p3_index n, p2_index n, p1_index n])"

lemma next_table_address_snoc:
  "next_table_address e (table_address \<pi>) i = Some a \<Longrightarrow> a = table_address (\<pi> @ [i])"
  by (simp add: next_table_address_def table_address_def Let_def split: if_splits)

lemma bit_canonical_low: "n < 48 \<Longrightarrow> bit (new_canonical Virtual a) n = bit a n"
  by (simp add: bit_canonicalize_virtual)

lemma bit_small_index: "(i :: usize) < 512 \<Longrightarrow> bit i n \<Longrightarrow> n < 9"
proof -
  assume "i < 512"
  then have "take_bit 9 i = i"
    unfolding word_less_nat_alt word_unat_eq_iff unsigned_take_bit_eq take_bit_nat_eq_self_iff
    by (simp add: take_bit_nat_eq_self_iff)
  then show "bit i n \<Longrightarrow> n < 9" by (metis bit_take_bit_iff)
qed

lemma page_indices_step:
  assumes a: "page_offset a = 0" and i: "i < 512" and a': "a' = new_canonical Virtual (push_bit 9 a OR push_bit PAGE_SHIFT i)"
  shows "page_indices a' = tl (page_indices a) @ [i]" "page_offset a' = 0"
proof -
  have low: "\<not> bit a n" if "n < 12" for n
    using arg_cong [OF a, of "\<lambda>w. bit w n"] that by (simp add: bit_page_offset)
  have b: "bit a' n \<longleftrightarrow> 9 \<le> n \<and> bit a (n - 9) \<or> 12 \<le> n \<and> bit i (n - 12)" if "n < 48" for n
    using that unfolding a' bit_canonical_low [OF that] by (simp add: bit_or_iff bit_push_bit_iff PAGE_SHIFT_def)
  have hi: "\<not> bit i n" if "9 \<le> n" for n using bit_small_index [OF i, of n] that by auto
  show "page_offset a' = 0"
    by (rule bit_word_eqI) (auto simp: bit_page_offset b low)
  have "p4_index (containing_address a') = p3_index (containing_address a)"
    "p3_index (containing_address a') = p2_index (containing_address a)"
    "p2_index (containing_address a') = p1_index (containing_address a)"
    by (rule bit_word_eqI; auto simp: bit_p_index containing_address_drop bit_drop_bit_eq b low hi)+
  moreover have "bit (p1_index (containing_address a')) n = bit i n" for n
    by (cases "n < 9") (simp_all add: bit_p_index containing_address_drop bit_drop_bit_eq b low hi)
  then have "p1_index (containing_address a') = i" by (intro bit_word_eqI)
  ultimately show "page_indices a' = tl (page_indices a) @ [i]" by (simp add: page_indices_def Let_def)
qed

lemma page_indices_P4: "page_indices P4 = replicate 4 RECURSIVE_P4_INDEX" "page_offset P4 = 0"
  by code_simp+

lemma page_indices_table:
  assumes "\<forall>i \<in> set \<pi>. i < 512" "length \<pi> \<le> 4"
  shows "page_indices (table_address \<pi>) = replicate (4 - length \<pi>) RECURSIVE_P4_INDEX @ \<pi> \<and> page_offset (table_address \<pi>) = 0"
  using assms
proof (induction \<pi> rule: rev_induct)
  case Nil
  then show ?case using page_indices_P4 by (simp add: table_address_def)
next
  case (snoc i \<pi>)
  then have I: "page_indices (table_address \<pi>) = replicate (4 - length \<pi>) RECURSIVE_P4_INDEX @ \<pi>" "page_offset (table_address \<pi>) = 0"
    by auto
  have "table_address (\<pi> @ [i]) = new_canonical Virtual (push_bit 9 (table_address \<pi>) OR push_bit PAGE_SHIFT i)"
    by (simp add: table_address_def)
  note S = page_indices_step [OF I(2) _ this]
  have "4 - length \<pi> = Suc (4 - length (\<pi> @ [i]))" using snoc.prems(2) by simp
  then show ?case using S snoc.prems(1) I(1) by simp
qed

lemma walk_recursive:
  "next_table M p4 RECURSIVE_P4_INDEX = Some p4 \<Longrightarrow> walk M p4 (replicate k RECURSIVE_P4_INDEX @ \<pi>) = walk M p4 \<pi>"
  by (induction k) simp_all



section \<open>An example\<close>

text \<open>An allocator that keeps its free frames in a list, and an empty root table in frame 1.\<close>

definition ex_frames :: "usize list frame_api" where
  "ex_frames =
     \<lparr> allocate_frame = (\<lambda>l. case filter frame_ok l of [] \<Rightarrow> None | f # _ \<Rightarrow> Some (f, removeAll f l)),
       drop_frames = (\<lambda>r l. range_iter r @ l) \<rparr>"

lemma ex_frames_spec: "frame_spec ex_frames set"
proof -
  have "f \<in> set l \<and> frame_ok f \<and> set l' \<subseteq> set l - {f}" if "allocate_frame ex_frames l = Some (f, l')" for f l l'
  proof -
    from that obtain fs where f: "filter frame_ok l = f # fs" "l' = removeAll f l"
      by (auto simp: ex_frames_def split: list.splits)
    from f(1) have "f \<in> set (filter frame_ok l)" by simp
    then show ?thesis using f(2) by auto
  qed
  moreover have "set (drop_frames ex_frames r l) \<subseteq> set l \<union> range_pages r" for r l
    using range_iter_set(1) by (auto simp: ex_frames_def)
  ultimately show ?thesis unfolding frame_spec_def by blast
qed

lemma ex_inv: "bij_inv (\<lambda>_ _. 0) 1 (set [2, 3, 4, 5, 6])"
proof -
  have w: "walk (\<lambda>_ _. 0) 1 \<pi> = (if \<pi> = [] then Some 1 else None)" for \<pi> by (cases \<pi>) simp_all
  have l: "leaf (\<lambda>_ _. 0) 1 q = 0" for q by (simp add: leaf_def entry_at_def w page_path_def)
  show ?thesis by (auto simp: bij_inv_def pt_inv_def tree_def tables_def w l)
qed

lemma ex_page: "range_pages (range_new 5 5) \<subseteq> {q. good_page q}"
proof -
  have "p4_index 5 = 0" "is_canonical_virtual_address (push_bit 12 5)" by code_simp+
  then have "good_page 5"
    by (simp add: user_page_def user_index_def page_ok_def RECURSIVE_P4_INDEX_def UPCOMING_PAGE_TABLE_RECURSIVE_P4_INDEX_def)
  then show ?thesis by (auto simp: range_pages_def)
qed

lemma ex_flags: "flags_ok PteFlagsX86_64_new"
  by (simp add: flags_ok_bits PteFlagsX86_64_new_def bit_flag)

definition ex_higher :: PteFlags where
  "ex_higher = pte_writable True (pte_valid True (adjust_for_higher_level_pte PteFlagsX86_64_new))"

lemma ex_higher_flags: "flags_ok ex_higher" "is_valid ex_higher" "\<not> is_huge ex_higher"
  using ex_flags by (auto simp: ex_higher_def flags_ok_bits pte_bits split: if_splits)

lemma ex_map:
  obtains mp M' where
    "map_allocated_pages ex_frames 1 (range_new 5 5) PteFlagsX86_64_new (\<lambda>_ _. 0, [2, 3, 4, 5, 6]) = Some (Inr mp, M', [6])"
    "M' 1 0 = set_entry 3 ex_higher" "M' 3 0 = set_entry 4 ex_higher" "M' 4 0 = set_entry 5 ex_higher" "M' 5 6 = 0"
proof -
  have f: "frame_ok 2" "frame_ok 3" "frame_ok 4" "frame_ok 5" "frame_ok 6" by (simp_all add: frame_ok_def)
  have i: "p4_index 5 = 0" "p3_index 5 = 0" "p2_index 5 = 0" "p1_index 5 = 5" by code_simp+
  have r: "range_iter (range_new 5 5) = [5]" by (simp add: range_iter_def is_empty_def)
  have a: "allocate_frame ex_frames [2, 3, 4, 5, 6] = Some (2, [3, 4, 5, 6])" "allocate_frame ex_frames [3, 4, 5, 6] = Some (3, [4, 5, 6])"
    "allocate_frame ex_frames [4, 5, 6] = Some (4, [5, 6])" "allocate_frame ex_frames [5, 6] = Some (5, [6])"
    by (simp_all add: ex_frames_def f)
  have n: "next_table M t j = (if is_valid (pte_flags (M t j)) \<and> \<not> is_huge (pte_flags (M t j)) then Some (frame_value (M t j)) else None)" for M t j
    by (simp add: next_table_def Let_def)
  have c: "next_table_create ex_frames t 0 (adjust_for_higher_level_pte PteFlagsX86_64_new) (M, a) =
      Some (g, table_zero g (pt_set t 0 (set_entry g ex_higher) M), a')"
    if "M t 0 = 0" "allocate_frame ex_frames a = Some (g, a')" "frame_ok g" for M t a g a'
    using that ex_higher_flags unfolding ex_higher_def by (simp add: next_table_create_def n pt_set_apply)
  let ?f = "pte_exclusive True (pte_valid True PteFlagsX86_64_new)"
  let ?M = "pt_set 5 5 (set_entry 2 ?f) (table_zero 5 (pt_set 4 0 (set_entry 5 ex_higher) (table_zero 4
    (pt_set 3 0 (set_entry 4 ex_higher) (table_zero 3 (pt_set 1 0 (set_entry 3 ex_higher) (\<lambda>_ _. 0)))))))"
  have "map_allocated_pages ex_frames 1 (range_new 5 5) PteFlagsX86_64_new (\<lambda>_ _. 0, [2, 3, 4, 5, 6]) =
      Some (Inr \<lparr> page_table_p4 = 1, mapped_range = range_new 5 5, mapped_flags = ?f \<rparr>, ?M, [6])"
    by (simp add: map_allocated_pages_def r a map_page_def i c f table_zero_apply pt_set_apply is_unused_def Let_def)
  then show thesis by (rule that) (simp_all add: table_zero_apply pt_set_apply)
qed

theorem map_allocated_pages_correct_witness:
  "\<exists>mp M'. map_allocated_pages ex_frames 1 (range_new 5 5) PteFlagsX86_64_new (\<lambda>_ _. 0, [2, 3, 4, 5, 6]) = Some (Inr mp, M', [6]) \<and>
     bij_inv M' 1 {6}"
proof (rule ex_map)
  fix mp M'
  assume m: "map_allocated_pages ex_frames 1 (range_new 5 5) PteFlagsX86_64_new (\<lambda>_ _. 0, [2, 3, 4, 5, 6]) = Some (Inr mp, M', [6])"
  from map_allocated_pages_correct [OF ex_frames_spec ex_inv ex_page ex_flags m] m show ?thesis by auto
qed

end
