(* ===== verification/Memory_Mapping.thy ===== *)
theory Memory_Mapping
  imports Page_Alloc_Correct Page_Table_Correct
begin

text \<open>
  Mappings as the rest of the kernel asks for them (\<open>create_mapping\<close> of \<open>kernel/memory/src/lib.rs\<close> and the drop
  handler of \<open>MappedPages\<close>): pages from the page allocator, mapped in the page table of the kernel to frames from
  the frame allocator.  The state is the free list of pages, the memory of tables and the state of the frame
  allocator; the memory management of the kernel is initialised.
\<close>

type_synonym ('t, 'a) mm = "'t Inner \<times> pt_mem \<times> 'a"

text \<open>When the mapping fails, the pages are dropped and return to the free list.\<close>

definition create_mapping ::
  "('t, 'c) rb_api \<Rightarrow> 'a frame_api \<Rightarrow> usize option \<Rightarrow> usize \<Rightarrow> usize \<Rightarrow> PteFlags \<Rightarrow> ('t, 'a) mm \<Rightarrow>
     ((string + MappedPages) \<times> ('t, 'a) mm) option" where
  "create_mapping A FA low_end p4 nbytes flags S =
     (let (L, M, a) = S
      in case allocate_pages_by_bytes A low_end nbytes L of
           None \<Rightarrow> None
         | Some (None, L') \<Rightarrow> Some (Inl ''memory::create_mapping(): couldn't allocate pages!'', L', M, a)
         | Some (Some pages, L') \<Rightarrow>
             (case map_allocated_pages FA p4 pages flags (M, a) of
                None \<Rightarrow> None
              | Some (Inl e, M', a') \<Rightarrow> Some (Inl e, ap_drop A Page4K pages L', M', a')
              | Some (Inr mp, M', a') \<Rightarrow> Some (Inr mp, L', M', a')))"

definition mapped_pages_drop :: "('t, 'c) rb_api \<Rightarrow> 'a frame_api \<Rightarrow> usize \<Rightarrow> MappedPages \<Rightarrow> ('t, 'a) mm \<Rightarrow> ('t, 'a) mm" where
  "mapped_pages_drop A FA p4 mp S =
     (let (L, M, a) = S; (r, M', a') = unmap FA p4 mp (M, a)
      in (ap_drop A Page4K (mapped_range mp) L, M',
          case r of Inr (Some frames) \<Rightarrow> drop_frames FA frames a' | _ \<Rightarrow> a'))"

text \<open>
  The state is in order: the free list and the page table are well formed, every page is free at most once, and
  the free pages are usable pages that are not mapped.
\<close>

definition mm_inv :: "('t \<Rightarrow> Chunk list) \<Rightarrow> ('a \<Rightarrow> usize set) \<Rightarrow> usize \<Rightarrow> ('t, 'a) mm \<Rightarrow> bool" where
  "mm_inv ent avail p4 S \<longleftrightarrow>
     (case S of (L, M, a) \<Rightarrow> (\<exists>t. L = RBTree t) \<and> list_ok ent L \<and> bij_inv M p4 (avail a) \<and>
        (\<forall>n. free_count ent n L \<le> 1) \<and>
        (\<forall>n. 0 < free_count ent n L \<longrightarrow> good_page n \<and> translate_page M p4 n = Some None))"

lemma holds_range: "holds n r = (if n \<in> range_pages r then 1 else 0)"
  by (simp add: holds_def range_contains_pages)

lemma pages_for_bytes:
  assumes "0 < unat (nbytes :: usize)" "unat nbytes + 4095 < 2 ^ 64"
  shows "unat ((nbytes + PAGE_SIZE - 1) div PAGE_SIZE) = (unat nbytes + 4095) div 4096" "(nbytes + PAGE_SIZE - 1) div PAGE_SIZE \<noteq> 0"
proof -
  have e: "nbytes + PAGE_SIZE - 1 = nbytes + 4095" by (simp add: PAGE_SIZE_def PAGE_SHIFT_def)
  have "unat (nbytes + 4095) = unat nbytes + 4095" using assms(2) by (subst unat_word_ariths) simp
  then show n: "unat ((nbytes + PAGE_SIZE - 1) div PAGE_SIZE) = (unat nbytes + 4095) div 4096"
    unfolding e by (simp add: unat_div PAGE_SIZE_def PAGE_SHIFT_def)
  have "(unat nbytes + 4095) div 4096 \<noteq> 0" using assms(1) by simp
  then show "(nbytes + PAGE_SIZE - 1) div PAGE_SIZE \<noteq> 0" using n by (metis unat_0)
qed

text \<open>A successful creation: the pages taken from the free list and the mapping made of them.\<close>

lemma create_mapping_cases:
  assumes A: "rb_spec A ent pos" and inv: "mm_inv ent avail p4 (L, M, a)"
    and size: "0 < unat nbytes" "unat nbytes + 4095 < 2 ^ 64"
    and c: "create_mapping A FA low_end p4 nbytes fl (L, M, a) = Some (Inr mp, L', M', a')"
  obtains r t' where "L' = RBTree t'" "list_ok ent (RBTree t')" "range_start r \<le> range_end r" "chunk_ok r"
    "unat (range_end r) = min 0xFFFFFFFFFFFFF (unat (range_start r) + (unat nbytes + 4095) div 4096 - 1)"
    "\<And>n. holds n r + free_count ent n L' = free_count ent n L" "range_pages r \<subseteq> {q. good_page q}"
    "map_allocated_pages FA p4 r fl (M, a) = Some (Inr mp, M', a')"
proof -
  obtain t where t: "L = RBTree t" and ok: "list_ok ent (RBTree t)"
    and free: "\<And>n. 0 < free_count ent n L \<Longrightarrow> good_page n"
    using inv by (auto simp: mm_inv_def)
  have ab: "allocate_pages_by_bytes A low_end nbytes L = map_option (map_prod sum_ok (\<lambda>x. x))
      (allocate_now A (allocate_pages_deferred A low_end Any ((nbytes + PAGE_SIZE - 1) div PAGE_SIZE) (RBTree t)))"
    by (simp add: allocate_pages_by_bytes_def allocate_pages_by_bytes_deferred_def t)
  show thesis
  proof (cases rule: allocate_now_tree [OF A ok pages_for_bytes(2) [OF size], of low_end, case_names none some])
    case (none e)
    then show ?thesis using c by (simp add: create_mapping_def ab)
  next
    case (some r t')
    have m: "map_allocated_pages FA p4 r fl (M, a) = Some (Inr mp, M', a') \<and> L' = RBTree t'"
      using c some(1) by (auto simp: create_mapping_def ab split: option.splits sum.splits)
    have "range_pages r \<subseteq> {q. good_page q}"
    proof
      fix n assume "n \<in> range_pages r"
      then have "0 < free_count ent n L" using some(6) [of n] t by (simp add: holds_range)
      then show "n \<in> {q. good_page q}" using free by blast
    qed
    then show thesis using that [of t' r] m some pages_for_bytes(1) [OF size] t by simp
  qed
qed

text \<open>Mapping pages that were just taken from the free list keeps the state in order.\<close>

lemma map_new_pages:
  assumes FA: "frame_spec FA avail" and inv: "mm_inv ent avail p4 (L, M, a)" and fl: "flags_ok fl"
    and r: "L' = RBTree t'" "list_ok ent (RBTree t')" "\<And>n. holds n r + free_count ent n L' = free_count ent n L"
    and m: "map_allocated_pages FA p4 r fl (M, a) = Some (Inr mp, M', a')"
  obtains g where "range_pages r \<subseteq> {q. good_page q}"
    "mp = \<lparr> page_table_p4 = p4, mapped_range = r, mapped_flags = pte_exclusive True (pte_valid True fl) \<rparr>"
    "mm_inv ent avail p4 (L', M', a')" "inj_on g (range_pages r)" "g ` range_pages r \<subseteq> avail a - avail a'"
    "\<And>q. good_page q \<Longrightarrow> translate_page M' p4 q = (if q \<in> range_pages r then Some (Some (g q)) else translate_page M p4 q)"
    "\<And>q. q \<in> range_pages r \<Longrightarrow> pte_flags (leaf M' p4 q) = mapped_flags mp"
proof -
  have bij: "bij_inv M p4 (avail a)" and once: "\<And>n. free_count ent n L \<le> 1"
    and free: "\<And>n. 0 < free_count ent n L \<Longrightarrow> good_page n \<and> translate_page M p4 n = Some None"
    using inv by (auto simp: mm_inv_def)
  have good: "good_page n" if "n \<in> range_pages r" for n
    using free [of n] r(3) [of n] that by (simp add: holds_range)
  then have gd: "range_pages r \<subseteq> {q. good_page q}" by blast
  have le: "free_count ent n L' \<le> 1" "0 < free_count ent n L' \<Longrightarrow> 0 < free_count ent n L \<and> n \<notin> range_pages r" for n
    using r(3) [of n] once [of n] by (auto simp: holds_range split: if_splits)
  show thesis
  proof (rule map_own_frames [OF FA bij gd fl m])
    fix g
    assume g: "mp = \<lparr> page_table_p4 = p4, mapped_range = r, mapped_flags = pte_exclusive True (pte_valid True fl) \<rparr>"
      "inj_on g (range_pages r)" "g ` range_pages r \<subseteq> avail a - avail a'"
      "\<And>q. good_page q \<Longrightarrow>
         if q \<in> range_pages r
         then translate_page M p4 q = Some None \<and> translate_page M' p4 q = Some (Some (g q)) \<and> pte_flags (leaf M' p4 q) = mapped_flags mp
         else translate_page M' p4 q = translate_page M p4 q"
    have tr: "translate_page M' p4 q = (if q \<in> range_pages r then Some (Some (g q)) else translate_page M p4 q)"
      if "good_page q" for q using g(4) [OF that] by (simp split: if_splits)
    have "translate_page M' p4 n = Some None" if "0 < free_count ent n L'" for n
      using le(2) [OF that] free [of n] tr [of n] by simp
    then have mm: "mm_inv ent avail p4 (L', M', a')"
      using map_allocated_pages_spec(1) [OF FA bij gd fl m] r(1,2) le free by (simp add: mm_inv_def)
    have lf: "pte_flags (leaf M' p4 q) = mapped_flags mp" if "q \<in> range_pages r" for q
      using g(4) [of q] good [OF that] that by simp
    show thesis by (rule that [OF gd g(1) mm g(2,3) tr lf])
  qed
qed



text \<open>
  A mapping that runs out of frames is not undone: the pages already mapped stay mapped, although the error drops
  the allocated pages and makes them free again.
\<close>

lemma failed_mapping_stays:
  assumes FA: "frame_spec FA avail" and inv: "bij_inv M p4 (avail a)" and fl: "flags_ok fl"
    and r: "range_iter r = p # q # ps" "good_page p"
    and one: "map_allocated_pages FA p4 (range_new p p) fl (M, a) = Some (Inr mp, M', a')" and out: "allocate_frame FA a' = None"
  shows "\<exists>f. map_allocated_pages FA p4 r fl (M, a) =
      Some (Inl ''map_allocated_pages(): couldn't allocate new frame, out of memory'', M', a') \<and>
    translate_page M' p4 p = Some (Some f)"
proof -
  have p: "range_iter (range_new p p) = [p]" by (simp add: range_iter_def is_empty_def)
  have "range_pages (range_new p p) \<subseteq> {q. good_page q}" using r(2) by (auto simp: range_pages_def)
  then obtain f where f: "translate_page M' p4 p = Some (Some f)"
    using r(2) by (rule_tac map_own_frames [OF FA inv _ fl one]) (auto simp: range_pages_def)
  obtain x where x: "map_alloc_loop FA p4 (adjust_for_higher_level_pte fl) (pte_exclusive True (pte_valid True fl)) [p] (M, a) = Some (x, M', a')"
    "\<not> isl x"
    using one unfolding map_allocated_pages_def Let_def p by (auto simp del: map_alloc_loop.simps split: sum.splits) (metis sum.exhaust old.unit.exhaust)
  then have "x = Inr ()" by (cases x) simp_all
  then have "map_alloc_loop FA p4 (adjust_for_higher_level_pte fl) (pte_exclusive True (pte_valid True fl)) (p # q # ps) (M, a) =
      Some (Inl ''map_allocated_pages(): couldn't allocate new frame, out of memory'', M', a')"
    using x(1) out by (auto split: option.splits bool.splits prod.splits)
  then show ?thesis using f by (simp add: map_allocated_pages_def r(1))
qed

section \<open>An example\<close>

lemma ex_alloc_page:
  assumes s: "s = 5 \<or> s = 6"
  shows "allocate_now list_api (allocate_pages_deferred list_api (Some 2) Any 1 (RBTree [range_new s 7])) =
    Some (Inr (range_new s s), RBTree [range_new (s + 1) 7])"
proof -
  have p: "page_sub Page4K 0xFFFFFE0000000 1 = 0xFFFFFDFFFFFFF" "page_sub Page4K s 1 = s - 1"
    using s by (elim disjE; hypsubst; simp add: word_unat_eq_iff unat_page_sub1)+
  have q: "page_add Page4K 2 1 = 3" "page_add Page4K s 1 = s + 1" "page_add Page4K s 0 = s"
    using s by (elim disjE; hypsubst; simp add: word_unat_eq_iff unat_page_add)+
  have m: "MIN_PAGE = 0" "MAX_PAGE \<noteq> s" "s \<noteq> 0" "s \<le> 7" "s + 1 \<le> 7" "3 \<le> s" "s < s + 1" "\<not> s \<le> s - 1" "max s 3 = s"
    "s \<le> 0xFFFFFDFFFFFFF" "\<not> s + 1 \<le> s"
    using s by auto
  have g: "rb_upper list_api 0xFFFFFDFFFFFFF [range_new s 7] = 0" "rb_get list_api 0 [range_new s 7] = Some (range_new s 7)"
    "rb_remove list_api 0 [range_new s 7] = (Some (range_new s 7), 0, [])" "rb_insert list_api v [] = [v]" for v
    using m by (simp_all add: list_api_def vec_get_def remove_at_def)
  have f: "fit_in_range (range_new 3 0xFFFFFDFFFFFFF) 1 1 (range_new s 7) = Some (Some s)"
    using m by (simp add: fit_in_range_def align_up_def q)
  have t: "scan_tree list_api (fit_in_range (range_new 3 0xFFFFFDFFFFFFF) 1 1) b a 0 [range_new s 7] =
      (if b (range_new s 7) then Some None else Some (Some (s, range_new s 7, 0)))" for a b
    by (subst scan_tree.simps) (simp add: g f)
  have c: "adjust_chosen_chunk list_api s 1 (range_new s 7) (RefTree 0) (RBTree [range_new s 7]) =
      Some ((range_new s s, DeferredAllocAction_new (Some (range_new s (s - 1))) (Some (range_new (s + 1) 7))), RBTree [])"
    using m by (simp add: adjust_chosen_chunk_def Let_def p q range_contains_def value_remove_def g)
  have d: "find_any_chunk list_api (Some 2) (RBTree [range_new s 7]) 1 None 1 =
      Some (Inr (range_new s s, DeferredAllocAction_new (Some (range_new s (s - 1))) (Some (range_new (s + 1) 7))), RBTree [])"
    by (simp add: find_any_chunk_def Let_def p q search_def g t alloc_from_def c)
  have "size_in_pages Page4K (range_new 5 4) = 0" "size_in_pages Page4K (range_new 6 5) = 0"
    "0 < size_in_pages Page4K (range_new 6 7)" "0 < size_in_pages Page4K (range_new 7 7)" by code_simp+
  then have z: "size_in_pages Page4K (range_new s (s - 1)) = 0" "0 < size_in_pages Page4K (range_new (s + 1) 7)" using s by auto
  have "action_drop list_api (DeferredAllocAction_new (Some (range_new s (s - 1))) (Some (range_new (s + 1) 7))) (RBTree []) =
      Some (RBTree [range_new (s + 1) 7])"
    by (simp add: action_drop_def DeferredAllocAction_new_def insert_nonempty_def list_insert_def g z)
  then show ?thesis by (simp add: allocate_now_def allocate_pages_deferred_def d)
qed

lemma ex_alloc:
  "allocate_pages_by_bytes list_api (Some 2) 100 (RBTree [range_new 5 7]) = Some (Some (range_new 5 5), RBTree [range_new 6 7])"
proof -
  have n: "((100 :: usize) + PAGE_SIZE - 1) div PAGE_SIZE = 1" by (simp add: PAGE_SIZE_def PAGE_SHIFT_def)
  show ?thesis using ex_alloc_page [of 5] by (simp add: allocate_pages_by_bytes_def allocate_pages_by_bytes_deferred_def n)
qed

lemma ex_good: "5 \<le> unat q \<Longrightarrow> unat q \<le> 7 \<Longrightarrow> good_page q"
proof -
  assume a: "5 \<le> unat q" "unat q \<le> 7"
  then have "unat q = unat (5 :: usize) \<or> unat q = unat (6 :: usize) \<or> unat q = unat (7 :: usize)" by simp linarith
  then have "q = 5 \<or> q = 6 \<or> q = 7" by (simp only: word_unat_eq_iff)
  moreover have "p4_index 5 = 0" "p4_index 6 = 0" "p4_index 7 = 0" "is_canonical Virtual (push_bit 12 5)"
    "is_canonical Virtual (push_bit 12 6)" "is_canonical Virtual (push_bit 12 7)" by code_simp+
  ultimately have "p4_index q = 0" "is_canonical Virtual (push_bit 12 q)" by auto
  then show ?thesis using a
    by (simp add: user_page_def user_index_def page_ok_def word_less_nat_alt RECURSIVE_P4_INDEX_def
        UPCOMING_PAGE_TABLE_RECURSIVE_P4_INDEX_def)
qed

text \<open>Three free pages, an empty page table and four frames.\<close>

lemma ex_mm_inv: "mm_inv (\<lambda>t. t) set 1 (RBTree [range_new 5 7], \<lambda>_ _. 0, [2, 3, 4, 5, 6])"
proof -
  have t: "translate_page (\<lambda>_ _. 0) 1 q = Some None" for q
    by (simp add: translate_page_def next_table_def huge_page_def)
  have "free_count (\<lambda>t. t) n (RBTree [range_new 5 7]) = (if 5 \<le> unat n \<and> unat n \<le> 7 then 1 else 0)" for n
    by (simp add: free_count_def chunks_of_def holds_nat)
  then show ?thesis using ex_inv t ex_good
    by (auto simp: mm_inv_def list_ok_def chunks_of_def chunk_ok_def)
qed

lemma ex_create:
  obtains mp M' where "create_mapping list_api ex_frames (Some 2) 1 100 PteFlagsX86_64_new
      (RBTree [range_new 5 7], \<lambda>_ _. 0, [2, 3, 4, 5, 6]) = Some (Inr mp, RBTree [range_new 6 7], M', [6])"
    "M' 1 0 = set_entry 3 ex_higher" "M' 3 0 = set_entry 4 ex_higher" "M' 4 0 = set_entry 5 ex_higher" "M' 5 6 = 0"
  by (rule ex_map) (auto simp: create_mapping_def ex_alloc)



end
