(* ===== verification/Mapped_Pages.thy ===== *)
theory Mapped_Pages
  imports Memory_Mapping
begin

text \<open>
  The operations on a \<open>MappedPages\<close> object (\<open>kernel/memory/src/paging/mapper.rs\<close>): merging and splitting, taking
  it apart, the views of its memory as a value or a slice, and the deep copy.  A view is the address it starts at;
  the size of the element type is an argument, and the alignment is not, since an unaligned offset is only logged.
\<close>

definition mp_empty :: MappedPages where
  "mp_empty = \<lparr> page_table_p4 = containing_address 0, mapped_range = range_empty, mapped_flags = PteFlagsX86_64_new \<rparr>"

definition mp_merge :: "MappedPages \<Rightarrow> MappedPages \<Rightarrow> string \<times> MappedPages + MappedPages" where
  "mp_merge self mp =
     (if page_table_p4 mp \<noteq> page_table_p4 self
      then Inl (''failed to merge MappedPages that were mapped into different page tables'', mp)
      else if mapped_flags mp \<noteq> mapped_flags self
      then Inl (''failed to merge MappedPages that were mapped with different flags'', mp)
      else case ap_merge Page4K (mapped_range self) (mapped_range mp) of
             Inl orig \<Rightarrow> Inl (''failed to merge MappedPages that weren't virtually contiguous'', mp\<lparr> mapped_range := orig \<rparr>)
           | Inr pages \<Rightarrow> Inr (self\<lparr> mapped_range := pages \<rparr>))"

definition mp_split :: "MappedPages \<Rightarrow> usize \<Rightarrow> MappedPages + MappedPages \<times> MappedPages" where
  "mp_split self at_page =
     (case ap_split Page4K (mapped_range self) at_page of
        Inl orig \<Rightarrow> Inl (self\<lparr> mapped_range := orig \<rparr>)
      | Inr (first_ap, second_ap) \<Rightarrow> Inr (self\<lparr> mapped_range := first_ap \<rparr>, self\<lparr> mapped_range := second_ap \<rparr>))"

text \<open>Taking the object apart: the drop handler of the emptied object does nothing.\<close>

definition unmap_into_parts ::
  "'a frame_api \<Rightarrow> usize \<Rightarrow> MappedPages \<Rightarrow> pt_mem \<times> 'a \<Rightarrow>
     (MappedPages + RangeInclusive \<times> RangeInclusive option) \<times> pt_mem \<times> 'a" where
  "unmap_into_parts FA p4 mp S =
     (case unmap FA p4 mp S of
        (Inr first_frames, S') \<Rightarrow> (Inr (mapped_range mp, first_frames), S')
      | (Inl e, S') \<Rightarrow> (Inl mp, S'))"

section \<open>Views\<close>

definition checked_add :: "usize \<Rightarrow> usize \<Rightarrow> usize option" where
  "checked_add a b = (if unat a + unat b < 2 ^ 64 then Some (a + b) else None)"
definition checked_mul :: "usize \<Rightarrow> usize \<Rightarrow> usize option" where
  "checked_mul a b = (if unat a * unat b < 2 ^ 64 then Some (a * b) else None)"

text \<open>The checks all views share, with the name of the function in the messages.\<close>

definition view_bounds :: "string \<Rightarrow> string \<Rightarrow> string \<Rightarrow> MappedPages \<Rightarrow> usize \<Rightarrow> usize \<Rightarrow> string + usize" where
  "view_bounds add_start add_size too_large mp byte_offset sz =
     (case checked_add (start_address Virtual (range_start (mapped_range mp))) byte_offset of
        None \<Rightarrow> Inl add_start
      | Some start_vaddr \<Rightarrow>
          (case checked_add byte_offset sz of
             None \<Rightarrow> Inl add_size
           | Some end_bound \<Rightarrow>
               if size_in_bytes Page4K (mapped_range mp) < end_bound then Inl too_large else Inr start_vaddr))"

definition mp_as_type :: "usize \<Rightarrow> MappedPages \<Rightarrow> usize \<Rightarrow> string + usize" where
  "mp_as_type size_of mp byte_offset =
     view_bounds ''MappedPages::as_type(): overflow: start_address + byte_offset''
       ''MappedPages::as_type(): overflow: byte_offset + size_of::<T>())''
       ''MappedPages::as_type(): requested type and byte_offset would not fit within the MappedPages bounds''
       mp byte_offset size_of"

definition mp_as_type_mut :: "usize \<Rightarrow> MappedPages \<Rightarrow> usize \<Rightarrow> string + usize" where
  "mp_as_type_mut size_of mp byte_offset =
     (if \<not> is_writable (mapped_flags mp) then Inl ''MappedPages::as_type_mut(): MappedPages were not writable''
      else view_bounds ''MappedPages::as_type_mut(): overflow: start_address + byte_offset''
        ''MappedPages::as_type_mut(): overflow: byte_offset + size_of::<T>())''
        ''MappedPages::as_type_mut(): requested type and byte_offset would not fit within the MappedPages bounds''
        mp byte_offset size_of)"

definition mp_as_slice :: "usize \<Rightarrow> MappedPages \<Rightarrow> usize \<Rightarrow> usize \<Rightarrow> string + usize" where
  "mp_as_slice size_of mp byte_offset len =
     (case checked_mul len size_of of
        None \<Rightarrow> Inl ''MappedPages::as_slice(): overflow: length * size_of::<T>()''
      | Some sz \<Rightarrow>
          if 2 ^ 63 - 1 < sz then Inl ''MappedPages::as_slice(): length * size_of::<T>() must be no larger than isize::MAX''
          else view_bounds ''MappedPages::as_slice(): overflow: start_address + byte_offset''
            ''MappedPages::as_slice_mut(): overflow: byte_offset + (length * size_of::<T>())''
            ''MappedPages::as_slice(): requested slice length and byte_offset would not fit within the MappedPages bounds''
            mp byte_offset sz)"

definition mp_as_slice_mut :: "usize \<Rightarrow> MappedPages \<Rightarrow> usize \<Rightarrow> usize \<Rightarrow> string + usize" where
  "mp_as_slice_mut size_of mp byte_offset len =
     (case checked_mul len size_of of
        None \<Rightarrow> Inl ''MappedPages::as_slice_mut(): overflow: length * size_of::<T>()''
      | Some sz \<Rightarrow>
          if 2 ^ 63 - 1 < sz then Inl ''MappedPages::as_slice_mut(): length * size_of::<T>() must be no larger than isize::MAX''
          else if \<not> is_writable (mapped_flags mp) then Inl ''MappedPages::as_slice_mut(): MappedPages were not writable''
          else view_bounds ''MappedPages::as_slice_mut(): overflow: start_address + byte_offset''
            ''MappedPages::as_slice_mut(): overflow: byte_offset + (length * size_of::<T>())''
            ''MappedPages::as_slice_mut(): requested slice length and byte_offset would not fit within the MappedPages bounds''
            mp byte_offset sz)"

section \<open>The deep copy\<close>

text \<open>
  The contents of the frames are part of the state; a page is read and written through the page table, and
  \<open>None\<close> is a page fault.  An error after the new mapping was made drops it.
\<close>

fun copy_pages :: "pt_mem \<Rightarrow> usize \<Rightarrow> (usize \<times> usize) list \<Rightarrow> (usize \<Rightarrow> 'c) \<Rightarrow> (usize \<Rightarrow> 'c) option" where
  "copy_pages M p4 [] ph = Some ph"
| "copy_pages M p4 ((src, dst) # rest) ph =
     (case (translate_page M p4 src, translate_page M p4 dst) of
        (Some (Some f), Some (Some g)) \<Rightarrow> copy_pages M p4 rest (ph(g := ph f))
      | _ \<Rightarrow> None)"

definition deep_copy ::
  "('t, 'k) rb_api \<Rightarrow> 'a frame_api \<Rightarrow> usize option \<Rightarrow> usize \<Rightarrow> MappedPages \<Rightarrow> PteFlags option \<Rightarrow> ('t, 'a) mm \<Rightarrow> (usize \<Rightarrow> 'c) \<Rightarrow>
     ((string + MappedPages) \<times> ('t, 'a) mm \<times> (usize \<Rightarrow> 'c)) option" where
  "deep_copy A FA low_end p4 self new_flags S ph =
     (let (L, M, a) = S; n = size_in_pages Page4K (mapped_range self)
      in case allocate_pages A low_end n L of
           None \<Rightarrow> None
         | Some (None, L') \<Rightarrow> Some (Inl ''Couldn't allocate_pages()'', (L', M, a), ph)
         | Some (Some new_pages, L') \<Rightarrow>
             let flags = (case new_flags of None \<Rightarrow> mapped_flags self | Some f \<Rightarrow> f);
                 fail = (\<lambda>e mp S. Some (Inl e, mapped_pages_drop A FA p4 mp S, ph))
             in case map_allocated_pages FA p4 new_pages (pte_writable True flags) (M, a) of
                  None \<Rightarrow> None
                | Some (Inl e, M', a') \<Rightarrow> Some (Inl e, (ap_drop A Page4K new_pages L', M', a'), ph)
                | Some (Inr mp, M', a') \<Rightarrow>
                    (case mp_as_slice 4096 self 0 n of
                       Inl e \<Rightarrow> fail e mp (L', M', a')
                     | Inr _ \<Rightarrow>
                         (case mp_as_slice_mut 4096 mp 0 n of
                            Inl e \<Rightarrow> fail e mp (L', M', a')
                          | Inr _ \<Rightarrow>
                              (case copy_pages M' p4 (zip (range_iter (mapped_range self)) (range_iter new_pages)) ph of
                                 None \<Rightarrow> None
                               | Some ph' \<Rightarrow>
                                   if is_writable flags then Some (Inr mp, (L', M', a'), ph')
                                   else case remap p4 flags mp M' of
                                          (Inr _, mp', M'') \<Rightarrow> Some (Inr mp', (L', M'', a'), ph')
                                        | (Inl e, mp', M'') \<Rightarrow> Some (Inl e, mapped_pages_drop A FA p4 mp' (L', M'', a'), ph')))))"

section \<open>Pieces\<close>

text \<open>Splitting divides the pages at the given page, and merging the parts gives the mapping back.\<close>

lemma mp_split_merge:
  assumes le: "range_start (mapped_range mp) \<le> range_end (mapped_range mp)" and mx: "range_end (mapped_range mp) < MAX_PAGE_NUMBER"
    and s: "mp_split mp p = Inr (mp1, mp2)"
  shows "range_pages (mapped_range mp1) = {q \<in> range_pages (mapped_range mp). q < p}"
    "range_pages (mapped_range mp2) = {q \<in> range_pages (mapped_range mp). p \<le> q}"
    "range_start (mapped_range mp) < p \<Longrightarrow> p \<le> range_end (mapped_range mp) \<Longrightarrow> mp_merge mp1 mp2 = Inr mp"
proof -
  let ?r = "mapped_range mp"
  obtain r1 r2 where r: "ap_split Page4K ?r p = Inr (r1, r2)" and m: "mp1 = mp\<lparr> mapped_range := r1 \<rparr>" "mp2 = mp\<lparr> mapped_range := r2 \<rparr>"
    using s by (auto simp: mp_split_def split: sum.splits prod.splits)
  have e: "unat (range_start ?r) \<le> unat (range_end ?r)" "unat (range_end ?r) < 0xFFFFFFFFFFFFF" "unat (page_add Page4K (range_end ?r) 1) = unat (range_end ?r) + 1"
    using le mx by (simp_all add: word_le_nat_alt word_less_nat_alt unat_page_add)
  note N = range_pages_def word_le_nat_alt word_less_nat_alt unat_page_sub1
  have "range_pages r1 = {q \<in> range_pages ?r. q < p} \<and> range_pages r2 = {q \<in> range_pages ?r. p \<le> q}"
    using r e(1,2) unfolding ap_split_def Let_def
    by (auto simp: range_empty_def N e(3) word_unat_eq_iff split: if_splits)
  then show "range_pages (mapped_range mp1) = {q \<in> range_pages ?r. q < p}" "range_pages (mapped_range mp2) = {q \<in> range_pages ?r. p \<le> q}"
    by (simp_all add: m)
  assume p: "range_start ?r < p" "p \<le> range_end ?r"
  then have u: "unat (range_start ?r) < unat p" "unat p \<le> unat (range_end ?r)" by (simp_all add: word_le_nat_alt word_less_nat_alt)
  then have "p \<noteq> page_add Page4K (range_end ?r) 1" using e(3) by auto
  then have "r1 = range_new (range_start ?r) (page_sub Page4K p 1)" "r2 = range_new p (range_end ?r)"
    using r p by (auto simp: ap_split_def Let_def split: if_splits)
  moreover have "page_add Page4K (page_sub Page4K p 1) 1 = p"
    using u e(2) by (simp add: word_unat_eq_iff unat_page_add unat_page_sub1)
  ultimately show "mp_merge mp1 mp2 = Inr mp" by (simp add: mp_merge_def m ap_merge_def range_new_def)
qed

section \<open>Bounds of the views\<close>

lemma checked_add_Some: "checked_add a b = Some c \<Longrightarrow> unat c = unat a + unat b"
  by (auto simp: checked_add_def unat_add_nowrap split: if_splits)

lemma view_in_pages:
  assumes r: "range_start (mapped_range mp) \<le> range_end (mapped_range mp)" "range_end (mapped_range mp) \<le> MAX_PAGE_NUMBER"
    and c: "is_canonical Virtual (push_bit 12 (range_start (mapped_range mp)))"
    and v: "view_bounds e1 e2 e3 mp off sz = Inr v" and i: "i < unat sz"
  shows "containing_address (v + of_nat i) \<in> range_pages (mapped_range mp)"
proof -
  let ?r = "mapped_range mp"
  let ?s = "unat (range_start ?r)" and ?e = "unat (range_end ?r)"
  have e: "?s \<le> ?e" "?e < 2 ^ 52" using r by (simp_all add: word_le_nat_alt)
  have sp: "push_bit 12 (range_start ?r) = range_start ?r * 4096" by (simp add: push_bit_eq_mult)
  have st: "start_address Virtual (range_start ?r) = range_start ?r * 4096"
    using c unfolding sp by (simp add: start_address_def canonical_iff)
  have s4: "unat (range_start ?r * 4096) = ?s * 4096" using e by (subst unat_mult_nowrap) simp_all
  have "unat (size_in_pages Page4K ?r) = ?e + 1 - ?s"
    using e by (simp add: size_in_pages_def unat_add_one)
  then have size: "unat (size_in_bytes Page4K ?r) \<le> (?e + 1 - ?s) * 4096"
    unfolding size_in_bytes_def unat_word_ariths by (simp add: mod_less_eq_dividend)
  obtain eb where b: "checked_add (range_start ?r * 4096) off = Some v" "checked_add off sz = Some eb" "eb \<le> size_in_bytes Page4K ?r"
    using v by (auto simp: view_bounds_def st not_less split: option.splits if_splits)
  have n: "unat v = ?s * 4096 + unat off" "unat off + unat sz \<le> (?e + 1 - ?s) * 4096"
    using checked_add_Some [OF b(1)] checked_add_Some [OF b(2)] b(3) size s4 by (simp_all add: word_le_nat_alt)
  have lim: "unat v + i < (?e + 1) * 4096" using n i e(1) by (simp add: algebra_simps)
  moreover have ui: "unat (of_nat i :: usize) = i" using i unat_u64 [of sz] by (simp add: unat_of_nat)
  ultimately have vi: "unat (v + of_nat i) = unat v + i" using e(2) by (subst unat_add_nowrap) simp_all
  then have "?s \<le> unat (v + of_nat i) div 4096" "unat (v + of_nat i) div 4096 \<le> ?e" using lim n(1) by simp_all
  then show ?thesis by (simp add: range_pages_def word_le_nat_alt unat_containing)
qed

text \<open>
  C40. Every view of mapped pages stays inside them: when a view of some elements at an offset is granted, each of
  its bytes lies in a page of the mapping, and a view for writing is only granted on a writable mapping.
\<close>

theorem views_in_bounds:
  assumes r: "range_start (mapped_range mp) \<le> range_end (mapped_range mp)" "range_end (mapped_range mp) \<le> MAX_PAGE_NUMBER"
    and c: "is_canonical Virtual (push_bit 12 (range_start (mapped_range mp)))"
  shows "(mp_as_type size_of mp off = Inr v \<longrightarrow> i < unat size_of \<longrightarrow> containing_address (v + of_nat i) \<in> range_pages (mapped_range mp)) \<and>
    (mp_as_type_mut size_of mp off = Inr v \<longrightarrow> is_writable (mapped_flags mp) \<and>
       (i < unat size_of \<longrightarrow> containing_address (v + of_nat i) \<in> range_pages (mapped_range mp))) \<and>
    (mp_as_slice size_of mp off n = Inr v \<longrightarrow> i < unat n * unat size_of \<longrightarrow>
       containing_address (v + of_nat i) \<in> range_pages (mapped_range mp)) \<and>
    (mp_as_slice_mut size_of mp off n = Inr v \<longrightarrow> is_writable (mapped_flags mp) \<and>
       (i < unat n * unat size_of \<longrightarrow> containing_address (v + of_nat i) \<in> range_pages (mapped_range mp)))"
proof -
  have m: "checked_mul n size_of = Some sz \<Longrightarrow> unat sz = unat n * unat size_of" for sz
    by (auto simp: checked_mul_def unat_mult_nowrap split: if_splits)
  note V = view_in_pages [OF r c]
  have "mp_as_type size_of mp off = Inr v \<longrightarrow> i < unat size_of \<longrightarrow> containing_address (v + of_nat i) \<in> range_pages (mapped_range mp)"
    unfolding mp_as_type_def using V by blast
  moreover have "mp_as_type_mut size_of mp off = Inr v \<longrightarrow> is_writable (mapped_flags mp) \<and>
       (i < unat size_of \<longrightarrow> containing_address (v + of_nat i) \<in> range_pages (mapped_range mp))"
    unfolding mp_as_type_mut_def using V by (simp split: if_splits)
  moreover have "containing_address (v + of_nat i) \<in> range_pages (mapped_range mp)"
    if s: "mp_as_slice size_of mp off n = Inr v" and i: "i < unat n * unat size_of"
  proof -
    from s obtain sz e1 e2 e3 where "checked_mul n size_of = Some sz" "view_bounds e1 e2 e3 mp off sz = Inr v"
      by (simp add: mp_as_slice_def split: option.splits if_splits)
    then show ?thesis using V m i by simp
  qed
  moreover have "is_writable (mapped_flags mp) \<and>
      (i < unat n * unat size_of \<longrightarrow> containing_address (v + of_nat i) \<in> range_pages (mapped_range mp))"
    if s: "mp_as_slice_mut size_of mp off n = Inr v"
  proof -
    from s obtain sz e1 e2 e3 where "is_writable (mapped_flags mp)" "checked_mul n size_of = Some sz" "view_bounds e1 e2 e3 mp off sz = Inr v"
      by (simp add: mp_as_slice_mut_def split: option.splits if_splits)
    then show ?thesis using V m by simp
  qed
  ultimately show ?thesis by blast
qed

section \<open>Changing flags\<close>

lemma set_flags_simps [simp]:
  "frame_value (set_flags fl e) = frame_value e"
  "flags_ok fl \<Longrightarrow> pte_flags (set_flags fl e) = fl"
  "flags_ok fl \<Longrightarrow> pointed_frame (set_flags fl e) = (if is_valid fl then Some (frame_value e) else None)"
proof -
  show v: "frame_value (set_flags fl e) = frame_value e" by (rule bit_word_eqI) (auto simp: bit_frame_value bit_set_flags)
  assume ok: "flags_ok fl"
  show "pte_flags (set_flags fl e) = fl" using ok
    by (intro bit_word_eqI) (auto simp: bit_pte_flags bit_set_flags flags_ok_bits)
  then show "pointed_frame (set_flags fl e) = (if is_valid fl then Some (frame_value e) else None)"
    by (simp add: pointed_frame_def v)
qed

lemma remap_loop_spec:
  "tree M p4 \<Longrightarrow> distinct ps \<Longrightarrow> \<forall>p \<in> set ps. good_page p \<and> leaf M p4 p \<noteq> 0 \<Longrightarrow>
   \<exists>M'. remap_loop p4 fl ps M = (Inr (), M') \<and> tree M' p4 \<and> tables M' p4 = tables M p4 \<and>
     (\<forall>q. good_page q \<longrightarrow> leaf M' p4 q = (if q \<in> set ps then set_flags fl (leaf M p4 q) else leaf M p4 q) \<and>
        translate_page M' p4 q = (if q \<in> set ps then Some (pointed_frame (set_flags fl (leaf M p4 q))) else translate_page M p4 q))"
proof (induction ps arbitrary: M)
  case Nil
  then show ?case by simp
next
  case (Cons p ps)
  then have p: "user_page p" "page_ok p" "leaf M p4 p \<noteq> 0" by auto
  from leaf_nonzero_walk [OF p(3)] obtain t where t: "walk M p4 (page_path p) = Some t" "M t (p1_index p) = leaf M p4 p" by blast
  let ?M = "pt_set t (p1_index p) (set_flags fl (leaf M p4 p)) M"
  note S = set_leaf_spec [OF Cons.prems(1) t(1) p(1,2) refl, where e = "set_flags fl (leaf M p4 p)"]
  have "\<exists>M'. remap_loop p4 fl ps ?M = (Inr (), M') \<and> tree M' p4 \<and> tables M' p4 = tables ?M p4 \<and>
     (\<forall>q. good_page q \<longrightarrow> leaf M' p4 q = (if q \<in> set ps then set_flags fl (leaf ?M p4 q) else leaf ?M p4 q) \<and>
        translate_page M' p4 q = (if q \<in> set ps then Some (pointed_frame (set_flags fl (leaf ?M p4 q))) else translate_page ?M p4 q))"
    by (rule Cons.IH [OF S(1)]) (use Cons.prems(2,3) S(4) in auto)
  then obtain M' where M': "remap_loop p4 fl ps ?M = (Inr (), M')" "tree M' p4" "tables M' p4 = tables M p4"
    "\<And>q. good_page q \<Longrightarrow> leaf M' p4 q = (if q \<in> set ps then set_flags fl (leaf ?M p4 q) else leaf ?M p4 q)"
    "\<And>q. good_page q \<Longrightarrow> translate_page M' p4 q =
       (if q \<in> set ps then Some (pointed_frame (set_flags fl (leaf ?M p4 q))) else translate_page ?M p4 q)"
    using S(2) by auto
  have "remap_loop p4 fl (p # ps) M = (Inr (), M')" using M'(1) t by (simp add: p1_table_walk)
  moreover have "leaf M' p4 q = (if q \<in> set (p # ps) then set_flags fl (leaf M p4 q) else leaf M p4 q) \<and>
      translate_page M' p4 q = (if q \<in> set (p # ps) then Some (pointed_frame (set_flags fl (leaf M p4 q))) else translate_page M p4 q)"
    if "good_page q" for q
    using M'(4,5) [OF that] S(4,5) [of q] Cons.prems(2) that by auto
  ultimately show ?case using M'(2,3) by blast
qed

text \<open>
  Remapping changes the flags of the pages of the mapping, except whether their frames are exclusive, and leaves
  every translation as it is.
\<close>

lemma remap_spec:
  assumes inv: "bij_inv M p4 F" and fl: "flags_ok fl"
    and r: "\<And>q. q \<in> range_pages (mapped_range mp) \<Longrightarrow> good_page q \<and> pte_flags (leaf M p4 q) = mapped_flags mp"
    and v: "is_valid (mapped_flags mp)"
  shows "\<exists>mp' M'. remap p4 fl mp M = (Inr (), mp', M') \<and> bij_inv M' p4 F \<and> mapped_range mp' = mapped_range mp \<and>
    page_table_p4 mp' = page_table_p4 mp \<and>
    (size_in_pages Page4K (mapped_range mp) \<noteq> 0 \<longrightarrow>
       mapped_flags mp' = pte_valid True (pte_exclusive (is_exclusive (mapped_flags mp)) fl)) \<and>
    (\<forall>q. good_page q \<longrightarrow> translate_page M' p4 q = translate_page M p4 q \<and>
       (q \<in> range_pages (mapped_range mp) \<longrightarrow> pte_flags (leaf M' p4 q) = mapped_flags mp'))"
proof -
  let ?fl = "pte_valid True (pte_exclusive (is_exclusive (mapped_flags mp)) fl)" and ?ps = "range_iter (mapped_range mp)"
  show ?thesis
  proof (cases "size_in_pages Page4K (mapped_range mp) = 0 \<or> ?fl = mapped_flags mp")
    case True
    then have "remap p4 fl mp M = (Inr (), mp, M)" by (auto simp: remap_def)
    then show ?thesis using inv r True by auto
  next
    case False
    have F: "flags_ok ?fl" "is_valid ?fl" "is_exclusive ?fl = is_exclusive (mapped_flags mp)"
      using fl by (auto simp: flags_ok_bits pte_bits split: if_splits)
    have nz: "leaf M p4 q \<noteq> 0" if "q \<in> range_pages (mapped_range mp)" for q using r [OF that] v by auto
    have "tree M p4" using inv by (simp add: bij_inv_def pt_inv_def)
    from remap_loop_spec [OF this range_iter_set(2), of "mapped_range mp" ?fl] obtain M' where
      M': "remap_loop p4 ?fl ?ps M = (Inr (), M')" "tree M' p4" "tables M' p4 = tables M p4"
      "\<And>q. good_page q \<Longrightarrow> leaf M' p4 q = (if q \<in> range_pages (mapped_range mp) then set_flags ?fl (leaf M p4 q) else leaf M p4 q)"
      "\<And>q. good_page q \<Longrightarrow> translate_page M' p4 q =
        (if q \<in> range_pages (mapped_range mp) then Some (pointed_frame (set_flags ?fl (leaf M p4 q))) else translate_page M p4 q)"
      using r nz unfolding range_iter_set(1) by blast
    have ex: "excl_frame (leaf M' p4 q) = excl_frame (leaf M p4 q)" if "good_page q" for q
      using M'(4) [OF that] r F by (simp add: excl_frame_def)
    have tr: "translate_page M' p4 q = translate_page M p4 q" if "good_page q" for q
    proof (cases "q \<in> range_pages (mapped_range mp)")
      case True
      from leaf_nonzero_walk [OF nz [OF True]] obtain t where "walk M p4 (page_path q) = Some t" by blast
      from translate_leaf [OF this] show ?thesis using M'(5) [OF that] True r [OF True] F v by (simp add: pointed_frame_def)
    qed (use M'(5) [OF that] in simp)
    have "bij_inv M' p4 F" using inv M'(2,3) ex unfolding bij_inv_def pt_inv_def by auto
    moreover have "remap p4 fl mp M = (Inr (), mp\<lparr> mapped_flags := ?fl \<rparr>, M')" using False M'(1) by (simp add: remap_def)
    ultimately show ?thesis using tr M'(4) F by simp
  qed
qed

section \<open>Copying\<close>

lemma copy_pages_spec:
  assumes "length ps = length qs" "distinct qs" "inj_on g (set qs)" "f ` set ps \<inter> g ` set qs = {}"
    "\<And>p. p \<in> set ps \<Longrightarrow> translate_page M p4 p = Some (Some (f p))" "\<And>q. q \<in> set qs \<Longrightarrow> translate_page M p4 q = Some (Some (g q))"
  shows "\<exists>ph'. copy_pages M p4 (zip ps qs) ph = Some ph' \<and> (\<forall>i < length ps. ph' (g (qs ! i)) = ph (f (ps ! i))) \<and>
    (\<forall>x. x \<notin> g ` set qs \<longrightarrow> ph' x = ph x)"
  using assms
proof (induction ps qs arbitrary: ph rule: list_induct2)
  case Nil
  then show ?case by simp
next
  case (Cons p ps q qs)
  let ?ph = "ph(g q := ph (f p))"
  have "\<exists>ph'. copy_pages M p4 (zip ps qs) ?ph = Some ph' \<and> (\<forall>i < length ps. ph' (g (qs ! i)) = ?ph (f (ps ! i))) \<and>
    (\<forall>x. x \<notin> g ` set qs \<longrightarrow> ph' x = ?ph x)"
    by (rule Cons.IH) (use Cons.prems in \<open>auto simp: inj_on_insert\<close>)
  then obtain ph' where ph': "copy_pages M p4 (zip ps qs) ?ph = Some ph'" "\<And>i. i < length ps \<Longrightarrow> ph' (g (qs ! i)) = ?ph (f (ps ! i))"
    "\<And>x. x \<notin> g ` set qs \<Longrightarrow> ph' x = ?ph x" by blast
  have gq: "g q \<notin> g ` set qs" using Cons.prems(1,2) by (simp add: inj_on_insert)
  have fp: "f x \<noteq> g q" if "x \<in> set (p # ps)" for x
    using Cons.prems(3) that by (metis disjoint_iff image_eqI list.set_intros(1))
  have "ph' (g ((q # qs) ! i)) = ph (f ((p # ps) ! i))" if "i < length (p # ps)" for i
  proof (cases i)
    case 0
    then show ?thesis using ph'(3) [OF gq] by simp
  next
    case (Suc j)
    then have "j < length ps" using that by simp
    then show ?thesis using ph'(2) [of j] fp [of "ps ! j"] Suc by simp
  qed
  moreover have "ph' x = ph x" if "x \<notin> g ` set (q # qs)" for x using ph'(3) [of x] that by auto
  ultimately show ?case using ph'(1) Cons.prems(4,5) by simp
qed

lemma length_range_iter: "range_start r \<le> range_end r \<Longrightarrow> length (range_iter r) = unat (range_end r) - unat (range_start r) + 1"
  by (simp add: range_iter_def is_empty_def unat_sub)

text \<open>A successful deep copy: the new pages, their mapping, the copied contents and the last change of flags.\<close>

lemma deep_copy_cases:
  assumes c: "deep_copy A FA low_end p4 self new_flags (L, M, a) ph = Some (Inr mp, (L', M', a'), ph')"
    and fl: "fl = (case new_flags of None \<Rightarrow> mapped_flags self | Some f \<Rightarrow> f)"
  obtains r mp1 M1 where "allocate_pages A low_end (size_in_pages Page4K (mapped_range self)) L = Some (Some r, L')"
    "map_allocated_pages FA p4 r (pte_writable True fl) (M, a) = Some (Inr mp1, M1, a')"
    "\<exists>v. mp_as_slice_mut 4096 mp1 0 (size_in_pages Page4K (mapped_range self)) = Inr v"
    "copy_pages M1 p4 (zip (range_iter (mapped_range self)) (range_iter r)) ph = Some ph'"
    "if is_writable fl then mp = mp1 \<and> M' = M1 else remap p4 fl mp1 M1 = (Inr (), mp, M')"
  using c unfolding deep_copy_def Let_def fl [symmetric]
  by (simp split: option.splits sum.splits prod.splits if_splits)

lemma unat_size_in_pages:
  assumes "range_start r \<le> range_end r" "range_end r \<le> MAX_PAGE_NUMBER"
  shows "unat (size_in_pages Page4K r) = length (range_iter r)"
  using assms length_range_iter [OF assms(1)] by (simp add: size_in_pages_def unat_add_one word_le_nat_alt)

text \<open>A writable view of all pages of another mapping is only granted when there are as many pages.\<close>

lemma slice_pages:
  assumes r: "range_start (mapped_range mp) \<le> range_end (mapped_range mp)" "range_end (mapped_range mp) \<le> MAX_PAGE_NUMBER"
    and v: "mp_as_slice_mut 4096 mp 0 n = Inr v"
  shows "unat n \<le> length (range_iter (mapped_range mp))"
proof -
  from v obtain sz e1 e2 e3 where m: "checked_mul n 4096 = Some sz" "view_bounds e1 e2 e3 mp 0 sz = Inr v"
    by (simp add: mp_as_slice_mut_def split: option.splits if_splits)
  have "sz \<le> size_in_bytes Page4K (mapped_range mp)"
    using m(2) by (auto simp: view_bounds_def checked_add_def not_less split: option.splits if_splits)
  moreover have "unat sz = unat n * 4096" using m(1) by (auto simp: checked_mul_def unat_mult_nowrap split: if_splits)
  moreover have "unat (size_in_bytes Page4K (mapped_range mp)) \<le> length (range_iter (mapped_range mp)) * 4096"
    unfolding size_in_bytes_def unat_word_ariths using unat_size_in_pages [OF r] by (simp add: mod_less_eq_dividend)
  ultimately show ?thesis by (simp add: word_le_nat_alt)
qed

text \<open>The last step of the copy, which takes away the write permission again if it was not asked for.\<close>

lemma copy_flags_spec:
  assumes inv: "mm_inv ent avail p4 (L, M1, a)" and fl: "flags_ok fl" and sz: "size_in_pages Page4K r \<noteq> 0"
    and mp1: "mp1 = \<lparr> page_table_p4 = p4, mapped_range = r, mapped_flags = pte_exclusive True (pte_valid True (pte_writable True fl)) \<rparr>"
    and r: "\<And>q. q \<in> range_pages r \<Longrightarrow> good_page q \<and> pte_flags (leaf M1 p4 q) = mapped_flags mp1"
    and rm: "if is_writable fl then mp = mp1 \<and> M' = M1 else remap p4 fl mp1 M1 = (Inr (), mp, M')"
  shows "mm_inv ent avail p4 (L, M', a) \<and> mapped_range mp = r \<and> mapped_flags mp = pte_valid True (pte_exclusive True fl) \<and>
    (\<forall>q. good_page q \<longrightarrow> translate_page M' p4 q = translate_page M1 p4 q)"
proof (cases "is_writable fl")
  case True
  then have "pte_exclusive True (pte_valid True (pte_writable True fl)) = pte_valid True (pte_exclusive True fl)"
    by (intro bit_word_eqI) (auto simp: pte_bits split: if_splits)
  then show ?thesis using rm True inv mp1 by simp
next
  case False
  have v: "is_valid (mapped_flags mp1)" "is_exclusive (mapped_flags mp1)" unfolding mp1 by (simp_all add: pte_bits)
  have bij: "bij_inv M1 p4 (avail a)" using inv by (auto simp: mm_inv_def)
  have r1: "good_page q \<and> pte_flags (leaf M1 p4 q) = mapped_flags mp1" if "q \<in> range_pages (mapped_range mp1)" for q
    using r that unfolding mp1 by simp
  have "bij_inv M' p4 (avail a) \<and> mapped_range mp = r \<and> mapped_flags mp = pte_valid True (pte_exclusive True fl) \<and>
      (\<forall>q. good_page q \<longrightarrow> translate_page M' p4 q = translate_page M1 p4 q)"
    using remap_spec [OF bij fl r1 v(1)] rm False sz v(2) unfolding mp1 by auto
  then show ?thesis using inv by (auto simp: mm_inv_def)
qed


section \<open>An example\<close>

text \<open>After page 5 was mapped, it is copied to page 6.\<close>

abbreviation ex_copy_flags :: PteFlags where
  "ex_copy_flags \<equiv> pte_writable True PteFlagsX86_64_new"

lemma ex_start: "start_address Virtual 5 = 0x5000" "start_address Virtual 6 = 0x6000"
    "size_in_pages Page4K (range_new 5 5) = 1" "size_in_bytes Page4K (range_new 5 5) = 0x1000" "size_in_bytes Page4K (range_new 6 6) = 0x1000"
  by code_simp+

theorem views_in_bounds_witness:
  "mp_as_slice 8 \<lparr> page_table_p4 = 1, mapped_range = range_new 5 5, mapped_flags = PteFlagsX86_64_new \<rparr> 16 100 = Inr 0x5010 \<and>
   containing_address 0x5015 \<in> range_pages (range_new 5 5)"
proof -
  let ?mp = "\<lparr> page_table_p4 = 1, mapped_range = range_new 5 5, mapped_flags = PteFlagsX86_64_new \<rparr>"
  have s: "mp_as_slice 8 ?mp 16 100 = Inr 0x5010"
    by (simp add: mp_as_slice_def checked_mul_def view_bounds_def checked_add_def ex_start)
  have "is_canonical Virtual (push_bit 12 5)" by code_simp
  then have "mp_as_slice 8 ?mp 16 100 = Inr 0x5010 \<longrightarrow> 5 < unat (100 :: usize) * unat (8 :: usize) \<longrightarrow>
      containing_address (0x5010 + of_nat 5) \<in> range_pages (range_new 5 5)"
    using views_in_bounds [of ?mp 8 16 "0x5010" 5 100] by simp
  then show ?thesis using s by simp
qed

lemma ex_copy_map:
  assumes "M' 1 0 = set_entry 3 ex_higher" "M' 3 0 = set_entry 4 ex_higher" "M' 4 0 = set_entry 5 ex_higher" "M' 5 6 = 0"
  shows "\<exists>mp M2. map_allocated_pages ex_frames 1 (range_new 6 6) (pte_writable True ex_copy_flags) (M', [6]) = Some (Inr mp, M2, [])"
proof -
  have f: "frame_ok 3" "frame_ok 4" "frame_ok 5" "frame_ok 6" by (simp_all add: frame_ok_def)
  have i: "p4_index 6 = 0" "p3_index 6 = 0" "p2_index 6 = 0" "p1_index 6 = 6" by code_simp+
  have r: "range_iter (range_new 6 6) = [6]" by (simp add: range_iter_def is_empty_def)
  have a: "allocate_frame ex_frames [6] = Some (6, [])" by (simp add: ex_frames_def f)
  have c: "next_table_create ex_frames t 0 fl (M', a) = Some (g, M', a)"
    if "M' t 0 = set_entry g ex_higher" "frame_ok g" for t g fl a
    using that ex_higher_flags by (simp add: next_table_create_def next_table_def Let_def)
  show ?thesis using assms by (simp add: map_allocated_pages_def r a map_page_def i c f is_unused_def Let_def)
qed

lemma ex_pages:
  "holds n (range_new 5 5) + free_count (\<lambda>t. t) n (RBTree [range_new 6 7]) = free_count (\<lambda>t. t) n (RBTree [range_new 5 7])"
  "holds n (range_new 6 6) + free_count (\<lambda>t. t) n (RBTree [range_new 7 7]) = free_count (\<lambda>t. t) n (RBTree [range_new 6 7])"
  "list_ok (\<lambda>t. t) (RBTree [range_new 6 7])" "list_ok (\<lambda>t. t) (RBTree [range_new 7 7])"
  by (auto simp: free_count_def chunks_of_def holds_nat list_ok_def chunk_ok_def)

lemma ex_copy:
  obtains M0 f mp M2 ph' where "mm_inv (\<lambda>t. t) set 1 (RBTree [range_new 6 7], M0, [6])"
    "translate_page M0 1 5 = Some (Some f)" "f \<noteq> 6"
    "deep_copy list_api ex_frames (Some 2) 1 \<lparr> page_table_p4 = 1, mapped_range = range_new 5 5, mapped_flags = PteFlagsX86_64_new \<rparr>
       (Some ex_copy_flags) (RBTree [range_new 6 7], M0, [6]) (\<lambda>x. x) = Some (Inr mp, (RBTree [range_new 7 7], M2, []), ph')"
proof (rule ex_map)
  fix mp0 M0
  assume m: "map_allocated_pages ex_frames 1 (range_new 5 5) PteFlagsX86_64_new (\<lambda>_ _. 0, [2, 3, 4, 5, 6]) = Some (Inr mp0, M0, [6])"
    and t: "M0 1 0 = set_entry 3 ex_higher" "M0 3 0 = set_entry 4 ex_higher" "M0 4 0 = set_entry 5 ex_higher" "M0 5 6 = 0"
  have good: "good_page 5" "good_page 6" using ex_good [of 5] ex_good [of 6] by simp_all
  have fl: "flags_ok (pte_writable True ex_copy_flags)" using ex_flags by (auto simp: flags_ok_bits pte_bits split: if_splits)
  obtain mp M2 where m2: "map_allocated_pages ex_frames 1 (range_new 6 6) (pte_writable True ex_copy_flags) (M0, [6]) = Some (Inr mp, M2, [])"
    using ex_copy_map [OF t] by blast
  have al: "allocate_pages list_api (Some 2) 1 (RBTree [range_new 6 7]) = Some (Some (range_new 6 6), RBTree [range_new 7 7])"
    using ex_alloc_page [of 6] by (simp add: allocate_pages_def)
  show thesis
  proof (rule map_new_pages [OF ex_frames_spec ex_mm_inv ex_flags refl ex_pages(3,1) m])
    fix g
    assume mm: "mm_inv (\<lambda>t. t) set 1 (RBTree [range_new 6 7], M0, [6])"
      and g: "g ` range_pages (range_new 5 5) \<subseteq> set [2, 3, 4, 5, 6] - set [6]"
      and tr: "\<And>q. good_page q \<Longrightarrow> translate_page M0 1 q =
        (if q \<in> range_pages (range_new 5 5) then Some (Some (g q)) else translate_page (\<lambda>_ _. 0) 1 q)"
    show thesis
    proof (rule map_new_pages [OF ex_frames_spec mm fl refl ex_pages(4,2) m2])
      fix g'
      assume mp: "mp = \<lparr> page_table_p4 = 1, mapped_range = range_new 6 6,
          mapped_flags = pte_exclusive True (pte_valid True (pte_writable True ex_copy_flags)) \<rparr>"
        and tr': "\<And>q. good_page q \<Longrightarrow> translate_page M2 1 q =
          (if q \<in> range_pages (range_new 6 6) then Some (Some (g' q)) else translate_page M0 1 q)"
      have T: "translate_page M0 1 5 = Some (Some (g 5))" "translate_page M2 1 5 = Some (Some (g 5))" "translate_page M2 1 6 = Some (Some (g' 6))"
        using tr [of 5] tr' [of 5] tr' [of 6] good by (simp_all add: range_pages_def)
      have "mp_as_slice 4096 \<lparr> page_table_p4 = 1, mapped_range = range_new 5 5, mapped_flags = PteFlagsX86_64_new \<rparr> 0 1 = Inr 0x5000"
        by (simp add: mp_as_slice_def checked_mul_def view_bounds_def checked_add_def ex_start)
      moreover have "mp_as_slice_mut 4096 mp 0 1 = Inr 0x6000"
        by (simp add: mp mp_as_slice_mut_def checked_mul_def view_bounds_def checked_add_def ex_start pte_bits)
      moreover have "range_iter (range_new 5 5) = [5]" "range_iter (range_new 6 6) = [6]"
        by (simp_all add: range_iter_def is_empty_def)
      moreover have "is_writable ex_copy_flags" by (simp add: pte_bits)
      ultimately have "deep_copy list_api ex_frames (Some 2) 1
          \<lparr> page_table_p4 = 1, mapped_range = range_new 5 5, mapped_flags = PteFlagsX86_64_new \<rparr>
          (Some ex_copy_flags) (RBTree [range_new 6 7], M0, [6]) (\<lambda>x. x) =
          Some (Inr mp, (RBTree [range_new 7 7], M2, []), (\<lambda>x. x)(g' 6 := g 5))"
        by (simp add: deep_copy_def Let_def ex_start al m2 T)
      moreover have "g 5 \<noteq> 6" using g by (auto simp: range_pages_def)
      ultimately show thesis using that mm T(1) by blast
    qed
  qed
qed


end
