(* ===== verification/Path.thy ===== *)
theory Path
  imports Prelude "HOL-Library.Sublist"
begin

text \<open>
  File-system paths (\<open>kernel/path/src/lib.rs\<close>, \<open>kernel/path/src/component.rs\<close>): the double-ended
  iterator over the components of a path and the operations built on it.  A path is a string of
  bytes; the separator is ASCII, so that splitting UTF-8 text at separators is splitting its bytes.
  The abstract counterpart is \<open>parse\<close>, which splits the string at separators in one go: the
  iterator refines the list of components it gives, read from both ends.
\<close>

section \<open>Strings\<close>

text \<open>\<open>str::split_once\<close>, \<open>str::rsplit_once\<close> and \<open>str::starts_with\<close>.\<close>

fun split_once :: "char \<Rightarrow> string \<Rightarrow> (string \<times> string) option" where
  "split_once c [] = None"
| "split_once c (x # xs) =
     (if x = c then Some ([], xs) else map_option (apfst (Cons x)) (split_once c xs))"

definition rsplit_once :: "char \<Rightarrow> string \<Rightarrow> (string \<times> string) option" where
  "rsplit_once c s = (case split_once c (rev s) of None \<Rightarrow> None | Some (a, b) \<Rightarrow> Some (rev b, rev a))"

definition starts_with :: "string \<Rightarrow> string \<Rightarrow> bool" where
  "starts_with p s \<longleftrightarrow> take (length p) s = p"

section \<open>Components\<close>

definition SEPARATOR :: char where "SEPARATOR = CHR ''/''"
definition CURRENT_DIR_WITH_SEPARATOR :: string where "CURRENT_DIR_WITH_SEPARATOR = ''./''"

datatype Component = RootDir | CurDir | ParentDir | Normal string

definition component :: "string \<Rightarrow> Component option" where
  "component s =
     (if s = ''.'' \<or> s = [] then None
      else if s = ''..'' then Some ParentDir
      else Some (Normal s))"

fun component_str :: "Component \<Rightarrow> string" where
  "component_str RootDir = ''/''"
| "component_str CurDir = ''.''"
| "component_str ParentDir = ''..''"
| "component_str (Normal s) = s"

text \<open>The states are ordered by their discriminants.\<close>

datatype IterState = StartDir | Body | Finished

fun state_rank :: "IterState \<Rightarrow> nat" where
  "state_rank StartDir = 0"
| "state_rank Body = 1"
| "state_rank Finished = 2"

record Components =
  cpath :: string
  front_st :: IterState
  back_st :: IterState

definition Components_new :: "string \<Rightarrow> Components" where
  "Components_new p = \<lparr> cpath = p, front_st = StartDir, back_st = Body \<rparr>"

definition finished :: "Components \<Rightarrow> bool" where
  "finished c \<longleftrightarrow> front_st c = Finished \<or> back_st c = Finished \<or> state_rank (back_st c) < state_rank (front_st c)"

definition include_cur_dir :: "Components \<Rightarrow> bool" where
  "include_cur_dir c \<longleftrightarrow> cpath c = ''.'' \<or> starts_with CURRENT_DIR_WITH_SEPARATOR (cpath c)"

definition has_root :: "Components \<Rightarrow> bool" where
  "has_root c \<longleftrightarrow> starts_with [SEPARATOR] (cpath c)"

definition len_before_body :: "Components \<Rightarrow> nat" where
  "len_before_body c =
     (if front_st c = StartDir \<and> has_root c then 1 else 0) +
     (if front_st c = StartDir \<and> include_cur_dir c then 1 else 0)"

definition peek :: "Components \<Rightarrow> string \<times> Component option" where
  "peek c =
     (case split_once SEPARATOR (cpath c) of
        Some (nxt, rest) \<Rightarrow> (rest, component nxt)
      | None \<Rightarrow> ([], component (cpath c)))"

definition peek_back :: "Components \<Rightarrow> string \<times> Component option" where
  "peek_back c =
     (case rsplit_once SEPARATOR (drop (len_before_body c) (cpath c)) of
        Some (rest, nxt) \<Rightarrow> (take (len_before_body c + length rest) (cpath c), component nxt)
      | None \<Rightarrow> (take (len_before_body c) (cpath c), component (drop (len_before_body c) (cpath c))))"

lemma split_once_Some: "split_once c s = Some (a, b) \<longleftrightarrow> s = a @ c # b \<and> c \<notin> set a"
proof (induction s arbitrary: a)
  case (Cons x xs)
  show ?case
  proof (cases "x = c")
    case True
    then show ?thesis by (cases a) auto
  next
    case False
    then show ?thesis using Cons by (cases a) auto
  qed
qed simp

lemma split_once_None: "split_once c s = None \<longleftrightarrow> c \<notin> set s"
  by (induction s) auto

lemma rsplit_once_Some: "rsplit_once c s = Some (a, b) \<longleftrightarrow> s = a @ c # b \<and> c \<notin> set b"
proof -
  have "rsplit_once c s = Some (a, b) \<longleftrightarrow> split_once c (rev s) = Some (rev b, rev a)"
    by (auto simp: rsplit_once_def split: option.split)
  also have "\<dots> \<longleftrightarrow> rev s = rev b @ c # rev a \<and> c \<notin> set b" by (simp add: split_once_Some)
  also have "rev s = rev b @ c # rev a \<longleftrightarrow> s = a @ c # b"
    by (metis append.assoc append_Cons append_Nil rev.simps(2) rev_append rev_rev_ident)
  finally show ?thesis .
qed

lemma rsplit_once_None: "rsplit_once c s = None \<longleftrightarrow> c \<notin> set s"
  using split_once_None [of c "rev s"] by (auto simp: rsplit_once_def split: option.split)

lemma peek_shorter: "cpath c \<noteq> [] \<Longrightarrow> length (fst (peek c)) < length (cpath c)"
  by (auto simp: peek_def split_once_Some split: option.split)

lemma peek_back_shorter:
  assumes "len_before_body c < length (cpath c)"
  shows "length (fst (peek_back c)) < length (cpath c)"
proof (cases "rsplit_once SEPARATOR (drop (len_before_body c) (cpath c))")
  case None
  then show ?thesis using assms by (simp add: peek_back_def)
next
  case (Some x)
  then obtain a b where x: "x = (a, b)" by (cases x)
  then have "drop (len_before_body c) (cpath c) = a @ SEPARATOR # b" using Some by (simp add: rsplit_once_Some)
  then have "length (cpath c) - len_before_body c = length a + Suc (length b)"
    by (metis length_append length_Cons length_drop)
  then show ?thesis using Some x by (simp add: peek_back_def)
qed

text \<open>
  \<open>next\<close> and \<open>next_back\<close>: the loops run until a component is found or the iterator is
  finished; \<open>None\<close> is the panic of \<open>unreachable!\<close>.  The slices of the code are inside the string.
\<close>

function comp_next :: "Components \<Rightarrow> (Component option \<times> Components) option" where
  "comp_next c =
     (if finished c then Some (None, c)
      else case front_st c of
        StartDir \<Rightarrow>
          let c' = c\<lparr> front_st := Body \<rparr>
          in if has_root c' then Some (Some RootDir, c'\<lparr> cpath := drop 1 (cpath c') \<rparr>)
             else if include_cur_dir c' then Some (Some CurDir, c'\<lparr> cpath := drop 1 (cpath c') \<rparr>)
             else comp_next c'
      | Body \<Rightarrow>
          if cpath c \<noteq> []
          then let c' = c\<lparr> cpath := fst (peek c) \<rparr>
               in if snd (peek c) \<noteq> None then Some (snd (peek c), c') else comp_next c'
          else comp_next (c\<lparr> front_st := Finished \<rparr>)
      | Finished \<Rightarrow> None)"
  by pat_completeness auto
termination
  by (relation "measures [\<lambda>c. 2 - state_rank (front_st c), \<lambda>c. length (cpath c)]")
    (auto simp: finished_def peek_shorter)

function comp_next_back :: "Components \<Rightarrow> (Component option \<times> Components) option" where
  "comp_next_back c =
     (if finished c then Some (None, c)
      else case back_st c of
        Body \<Rightarrow>
          if len_before_body c < length (cpath c)
          then let c' = c\<lparr> cpath := fst (peek_back c) \<rparr>
               in if snd (peek_back c) \<noteq> None then Some (snd (peek_back c), c') else comp_next_back c'
          else comp_next_back (c\<lparr> back_st := StartDir \<rparr>)
      | StartDir \<Rightarrow>
          let c' = c\<lparr> back_st := Finished \<rparr>
          in if has_root c' then Some (Some RootDir, c'\<lparr> cpath := take (length (cpath c') - 1) (cpath c') \<rparr>)
             else if include_cur_dir c'
             then Some (Some CurDir, c'\<lparr> cpath := take (length (cpath c') - 1) (cpath c') \<rparr>)
             else comp_next_back c'
      | Finished \<Rightarrow> None)"
  by pat_completeness auto
termination
  by (relation "measures [\<lambda>c. case back_st c of Body \<Rightarrow> 2 | StartDir \<Rightarrow> 1 | Finished \<Rightarrow> 0, \<lambda>c. length (cpath c)]")
    (auto simp: finished_def peek_back_shorter)

declare comp_next.simps [simp del] comp_next_back.simps [simp del]

text \<open>\<open>trim_left\<close>, \<open>trim_right\<close> and \<open>as_path\<close>.\<close>

function trim_left :: "Components \<Rightarrow> Components" where
  "trim_left c =
     (if cpath c \<noteq> [] \<and> snd (peek c) = None then trim_left (c\<lparr> cpath := fst (peek c) \<rparr>) else c)"
  by pat_completeness auto
termination
  by (relation "measure (\<lambda>c. length (cpath c))") (auto simp: peek_shorter)

function trim_right :: "Components \<Rightarrow> Components" where
  "trim_right c =
     (if len_before_body c < length (cpath c) \<and> snd (peek_back c) = None
      then trim_right (c\<lparr> cpath := fst (peek_back c) \<rparr>) else c)"
  by pat_completeness auto
termination
  by (relation "measure (\<lambda>c. length (cpath c))") (auto simp: peek_back_shorter)

declare trim_left.simps [simp del] trim_right.simps [simp del]

definition as_path :: "Components \<Rightarrow> string" where
  "as_path c =
     (let c1 = (if front_st c = Body then trim_left c else c);
          c2 = (if back_st c1 = Body then trim_right c1 else c1)
      in cpath c2)"

section \<open>Paths\<close>

definition is_absolute :: "string \<Rightarrow> bool" where
  "is_absolute p \<longleftrightarrow> starts_with [SEPARATOR] p"

definition path_push :: "string \<Rightarrow> string \<Rightarrow> string" where
  "path_push self path = (if is_absolute path then path else self @ [SEPARATOR] @ path)"

definition path_join :: "string \<Rightarrow> string \<Rightarrow> string" where
  "path_join self path = path_push self path"

text \<open>The outer \<open>None\<close> is a panic.\<close>

definition parent :: "string \<Rightarrow> string option option" where
  "parent self =
     (case comp_next_back (Components_new self) of
        None \<Rightarrow> None
      | Some (cm, components) \<Rightarrow>
          Some (case cm of
                  None \<Rightarrow> None
                | Some RootDir \<Rightarrow> None
                | Some _ \<Rightarrow> Some (as_path components)))"

definition file_name :: "string \<Rightarrow> string option option" where
  "file_name self =
     map_option (\<lambda>(cm, _). case cm of Some (Normal p) \<Rightarrow> Some p | _ \<Rightarrow> None)
       (comp_next_back (Components_new self))"

definition stem_of :: "string \<Rightarrow> string" where
  "stem_of name =
     (case rsplit_once (CHR ''.'') name of
        Some (before, _) \<Rightarrow> if before = [] then name else before
      | None \<Rightarrow> name)"

definition extension_of :: "string \<Rightarrow> string option" where
  "extension_of name =
     (case rsplit_once (CHR ''.'') name of
        Some (before, after) \<Rightarrow> if before = [] then None else Some after
      | None \<Rightarrow> None)"

definition file_stem :: "string \<Rightarrow> string option option" where
  "file_stem self = map_option (map_option stem_of) (file_name self)"

definition path_extension :: "string \<Rightarrow> string option option" where
  "path_extension self = map_option (\<lambda>n. Option.bind n extension_of) (file_name self)"

definition path_pop :: "string \<Rightarrow> (bool \<times> string) option" where
  "path_pop self =
     map_option (\<lambda>p. case map_option length p of Some len \<Rightarrow> (True, take len self) | None \<Rightarrow> (False, self))
       (parent self)"

text \<open>Collecting an iterator into a vector, and a \<open>PathBuf\<close> from an iterator.\<close>

partial_function (option) comp_collect :: "Components \<Rightarrow> Component list option" where
  "comp_collect c =
     do {
       (x, c') \<leftarrow> comp_next c;
       case x of None \<Rightarrow> Some [] | Some a \<Rightarrow> do { xs \<leftarrow> comp_collect c'; Some (a # xs) }
     }"

fun path_from_iter :: "string list \<Rightarrow> string" where
  "path_from_iter [] = []"
| "path_from_iter [p] = p"
| "path_from_iter (p # ps) = p @ [SEPARATOR] @ path_from_iter ps"

text \<open>\<open>Path::relative\<close>; the inner \<open>None\<close> is the result \<open>None\<close>.\<close>

partial_function (option) relative_loop ::
  "Components \<Rightarrow> Components \<Rightarrow> Component list \<Rightarrow> Component list option option" where
  "relative_loop ita itb comps =
     do {
       (x, ita') \<leftarrow> comp_next ita;
       (y, itb') \<leftarrow> comp_next itb;
       case (x, y) of
         (None, None) \<Rightarrow> Some (Some comps)
       | (Some a, None) \<Rightarrow> do { ra \<leftarrow> comp_collect ita'; Some (Some (comps @ a # ra)) }
       | (None, Some _) \<Rightarrow> relative_loop ita' itb' (comps @ [ParentDir])
       | (Some a, Some b) \<Rightarrow>
           if comps = [] \<and> a = b then relative_loop ita' itb' comps
           else if b = CurDir then relative_loop ita' itb' (comps @ [a])
           else if b = ParentDir then Some None
           else do {
             rb \<leftarrow> comp_collect itb';
             ra \<leftarrow> comp_collect ita';
             Some (Some (comps @ [ParentDir] @ map (\<lambda>_. ParentDir) rb @ a # ra))
           }
     }"

definition relative :: "string \<Rightarrow> string \<Rightarrow> string option option" where
  "relative self base =
     (if is_absolute self \<noteq> is_absolute base
      then Some (if is_absolute self then Some self else None)
      else map_option (map_option (\<lambda>comps. path_from_iter (map component_str comps)))
             (relative_loop (Components_new self) (Components_new base) []))"

text \<open>
  \<open>Path::get\<close> over a file system given by its root, the lookup in a directory and the parent of
  a directory.
\<close>

datatype ('f, 'd) FileOrDir = File 'f | Dir 'd

record ('f, 'd) fs =
  fs_root :: 'd
  fs_lookup :: "'d \<Rightarrow> string \<Rightarrow> ('f, 'd) FileOrDir option"
  fs_parent :: "'d \<Rightarrow> 'd option"

fun get_loop :: "('f, 'd) fs \<Rightarrow> Component list \<Rightarrow> 'd \<Rightarrow> ('f, 'd) FileOrDir option" where
  "get_loop F [] current = Some (Dir current)"
| "get_loop F (RootDir # iter) current = get_loop F iter (fs_root F)"
| "get_loop F (CurDir # iter) current = get_loop F iter current"
| "get_loop F (ParentDir # iter) current =
     (case fs_parent F current of None \<Rightarrow> None | Some d \<Rightarrow> get_loop F iter d)"
| "get_loop F (Normal name # iter) current =
     (if iter = [] then fs_lookup F current name
      else case fs_lookup F current name of
             Some (Dir directory) \<Rightarrow> get_loop F iter directory
           | _ \<Rightarrow> None)"

definition path_get :: "('f, 'd) fs \<Rightarrow> string \<Rightarrow> 'd \<Rightarrow> ('f, 'd) FileOrDir option option" where
  "path_get F self cwd =
     map_option (\<lambda>cs. case cs of RootDir # iter \<Rightarrow> get_loop F iter (fs_root F) | _ \<Rightarrow> get_loop F cs cwd)
       (comp_collect (Components_new self))"

definition get_file :: "('f, 'd) fs \<Rightarrow> string \<Rightarrow> 'd \<Rightarrow> 'f option option" where
  "get_file F self cwd = map_option (\<lambda>r. case r of Some (File f) \<Rightarrow> Some f | _ \<Rightarrow> None) (path_get F self cwd)"

definition get_dir :: "('f, 'd) fs \<Rightarrow> string \<Rightarrow> 'd \<Rightarrow> 'd option option" where
  "get_dir F self cwd = map_option (\<lambda>r. case r of Some (Dir d) \<Rightarrow> Some d | _ \<Rightarrow> None) (path_get F self cwd)"

definition get_absolute :: "('f, 'd) fs \<Rightarrow> string \<Rightarrow> ('f, 'd) FileOrDir option option" where
  "get_absolute F path = (if is_absolute path then path_get F path (fs_root F) else Some None)"

section \<open>The components of a path\<close>

fun segments :: "string \<Rightarrow> string list" where
  "segments [] = [[]]"
| "segments (x # xs) =
     (if x = SEPARATOR then [] # segments xs
      else case segments xs of [] \<Rightarrow> [[x]] | y # ys \<Rightarrow> (x # y) # ys)"

definition parse_body :: "string \<Rightarrow> Component list" where
  "parse_body s = List.map_filter component (segments s)"

definition parse :: "string \<Rightarrow> Component list" where
  "parse p =
     (if starts_with [SEPARATOR] p then RootDir # parse_body (drop 1 p)
      else if p = ''.'' \<or> starts_with ''./'' p then CurDir # parse_body (drop 1 p)
      else parse_body p)"

lemma segments_ne [simp]: "segments s \<noteq> []"
  by (cases s) (auto split: list.split)

lemma segments_append: "segments (a @ SEPARATOR # b) = segments a @ segments b"
  by (induction a) (auto split: list.split simp: append_eq_Cons_conv)

lemma segments_whole: "SEPARATOR \<notin> set s \<Longrightarrow> segments s = [s]"
  by (induction s) auto

lemma segments_no_sep: "x \<in> set (segments s) \<Longrightarrow> SEPARATOR \<notin> set x"
  by (induction s arbitrary: x) (auto split: list.splits if_splits)

lemma parse_body_append: "parse_body (a @ SEPARATOR # b) = parse_body a @ parse_body b"
  by (simp add: parse_body_def segments_append List.map_filter_def)

lemma parse_body_whole: "SEPARATOR \<notin> set s \<Longrightarrow> parse_body s = (case component s of None \<Rightarrow> [] | Some x \<Rightarrow> [x])"
  by (simp add: parse_body_def segments_whole List.map_filter_def split: option.split)

lemma parse_body_Nil [simp]: "parse_body [] = []"
  by (simp add: parse_body_def List.map_filter_def component_def)

lemma peek_parse:
  "parse_body (cpath c) = (case snd (peek c) of None \<Rightarrow> [] | Some x \<Rightarrow> [x]) @ parse_body (fst (peek c))"
proof (cases "split_once SEPARATOR (cpath c)")
  case None
  then have "SEPARATOR \<notin> set (cpath c)" by (simp add: split_once_None)
  then show ?thesis using None by (simp add: peek_def parse_body_whole)
next
  case (Some x)
  then obtain a b where x: "x = (a, b)" by (cases x)
  then have "cpath c = a @ SEPARATOR # b" "SEPARATOR \<notin> set a" using Some by (simp_all add: split_once_Some)
  then show ?thesis using Some x by (simp add: peek_def parse_body_append parse_body_whole)
qed

section \<open>The iterator as a queue with two ends\<close>

text \<open>
  Between calls an iterator that is not finished still has its back end in the body; a finished one
  has consumed the whole string.
\<close>

definition iter_ok :: "Components \<Rightarrow> bool" where
  "iter_ok c \<longleftrightarrow> (if finished c then cpath c = [] else back_st c = Body)"

definition remaining :: "Components \<Rightarrow> Component list" where
  "remaining c =
     (if finished c then []
      else if front_st c = StartDir then parse (cpath c)
      else parse_body (cpath c))"

lemma iter_ok_new [simp]: "iter_ok (Components_new p)" "remaining (Components_new p) = parse p"
  by (simp_all add: iter_ok_def remaining_def Components_new_def finished_def)

lemma finished_Body:
  "back_st c = Body \<Longrightarrow> finished c \<longleftrightarrow> front_st c = Finished"
  by (cases "front_st c") (simp_all add: finished_def)

text \<open>The result of a pop from a list, at either end.\<close>

definition pops_front :: "Component list \<Rightarrow> (Component option \<times> Components) option \<Rightarrow> bool" where
  "pops_front xs r \<longleftrightarrow>
     (\<exists>x c'. r = Some (x, c') \<and> iter_ok c' \<and>
        (case xs of [] \<Rightarrow> x = None \<and> remaining c' = [] | y # ys \<Rightarrow> x = Some y \<and> remaining c' = ys))"

definition pops_back :: "Component list \<Rightarrow> (Component option \<times> Components) option \<Rightarrow> bool" where
  "pops_back xs r \<longleftrightarrow>
     (\<exists>x c'. r = Some (x, c') \<and> iter_ok c' \<and>
        (if xs = [] then x = None \<and> remaining c' = [] else x = Some (last xs) \<and> remaining c' = butlast xs))"

lemma pops_finished: "finished c \<Longrightarrow> iter_ok c \<Longrightarrow> pops_front [] (Some (None, c)) \<and> pops_back [] (Some (None, c))"
  by (simp add: pops_front_def pops_back_def remaining_def)

lemma next_body:
  assumes "front_st c = Body" "back_st c = Body"
  shows "pops_front (parse_body (cpath c)) (comp_next c)"
  using assms
proof (induction "length (cpath c)" arbitrary: c rule: less_induct)
  case less
  have nf: "\<not> finished c" using less.prems by (simp add: finished_Body)
  show ?case
  proof (cases "cpath c = []")
    case True
    have "finished (c\<lparr> front_st := Finished \<rparr>)" by (simp add: finished_def)
    then have "comp_next c = Some (None, c\<lparr> front_st := Finished \<rparr>)"
      using nf less.prems True by (simp add: comp_next.simps [of c] comp_next.simps [of "c\<lparr> front_st := Finished \<rparr>"])
    then show ?thesis using True by (simp add: pops_front_def iter_ok_def remaining_def finished_def)
  next
    case False
    let ?c = "c\<lparr> cpath := fst (peek c) \<rparr>"
    have nf': "\<not> finished ?c" using less.prems by (simp add: finished_Body)
    have n: "comp_next c = (if snd (peek c) \<noteq> None then Some (snd (peek c), ?c) else comp_next ?c)"
      using nf less.prems False by (simp add: comp_next.simps [of c] Let_def)
    show ?thesis
    proof (cases "snd (peek c)")
      case None
      then show ?thesis using n less.hyps [of ?c] peek_shorter [OF False] less.prems peek_parse [of c] by simp
    next
      case (Some x)
      then show ?thesis using n nf' less.prems peek_parse [of c]
        by (simp add: pops_front_def iter_ok_def remaining_def)
    qed
  qed
qed

lemma next_pops:
  assumes ok: "iter_ok c"
  shows "pops_front (remaining c) (comp_next c)"
proof (cases "finished c")
  case True
  then show ?thesis using pops_finished [OF True ok] by (simp add: comp_next.simps [of c] remaining_def)
next
  case False
  then have b: "back_st c = Body" using ok by (simp add: iter_ok_def)
  show ?thesis
  proof (cases "front_st c")
    case StartDir
    let ?c = "c\<lparr> front_st := Body \<rparr>" and ?d = "c\<lparr> front_st := Body, cpath := drop 1 (cpath c) \<rparr>"
    have n: "comp_next c = (if has_root c then Some (Some RootDir, ?d)
        else if include_cur_dir c then Some (Some CurDir, ?d) else comp_next ?c)"
      using False StartDir by (simp add: comp_next.simps [of c] Let_def has_root_def include_cur_dir_def)
    have r: "remaining c = parse (cpath c)" using False StartDir by (simp add: remaining_def)
    have d: "iter_ok ?d" "remaining ?d = parse_body (drop 1 (cpath c))"
      using b by (simp_all add: iter_ok_def remaining_def finished_def)
    show ?thesis using next_body [of ?c] b d
      by (simp add: n r parse_def has_root_def include_cur_dir_def CURRENT_DIR_WITH_SEPARATOR_def pops_front_def)
  next
    case Body
    then show ?thesis using next_body [OF Body b] False by (simp add: remaining_def)
  next
    case Finished
    then show ?thesis using False by (simp add: finished_def)
  qed
qed

text \<open>The part of a path before its body: a root or a current-directory component.\<close>

definition parse_head :: "string \<Rightarrow> Component list" where
  "parse_head p =
     (if starts_with [SEPARATOR] p then [RootDir]
      else if p = ''.'' \<or> starts_with ''./'' p then [CurDir]
      else [])"

lemma parse_head_body: "parse p = parse_head p @ parse_body (drop (length (parse_head p)) p)"
  by (simp add: parse_def parse_head_def)

lemma starts_with_Cons: "starts_with (x # xs) s \<longleftrightarrow> (\<exists>ys. s = x # ys \<and> starts_with xs ys)"
  by (cases s) (auto simp: starts_with_def)

lemma starts_with_Nil [simp]: "starts_with [] s"
  by (simp add: starts_with_def)

lemma len_before_body_head:
  "len_before_body c = (if front_st c = StartDir then length (parse_head (cpath c)) else 0)"
  by (auto simp: len_before_body_def parse_head_def has_root_def include_cur_dir_def
      CURRENT_DIR_WITH_SEPARATOR_def starts_with_Cons SEPARATOR_def)

lemma parse_head_cases:
  obtains (root) q where "p = SEPARATOR # q" "parse_head p = [RootDir]"
  | (cur) q where "p = CHR ''.'' # q" "q = [] \<or> (\<exists>r. q = SEPARATOR # r)" "parse_head p = [CurDir]"
  | (none) "parse_head p = []"
proof (cases "starts_with [SEPARATOR] p")
  case True
  then show ?thesis by (intro root [of "tl p"]) (auto simp: starts_with_Cons parse_head_def)
next
  case nr: False
  show ?thesis
  proof (cases "p = ''.'' \<or> starts_with ''./'' p")
    case True
    then show ?thesis using nr
      by (intro cur [of "tl p"]) (auto simp: starts_with_Cons parse_head_def SEPARATOR_def)
  next
    case False
    then show ?thesis using nr by (intro none) (simp add: parse_head_def)
  qed
qed

text \<open>Cutting the last segment keeps the head.\<close>

lemma parse_head_cut:
  assumes p: "p = take (length (parse_head p)) p @ a @ SEPARATOR # b"
  shows "parse_head (take (length (parse_head p)) p @ a) = parse_head p"
proof -
  show ?thesis
  proof (cases p rule: parse_head_cases)
    case root
    then show ?thesis by (simp add: parse_head_def starts_with_Cons)
  next
    case (cur q)
    then have "q = a @ SEPARATOR # b" using p by simp
    then have "a = [] \<or> (\<exists>r. a = SEPARATOR # r)" using cur(2) by (cases a) auto
    then show ?thesis using cur by (auto simp: parse_head_def starts_with_Cons SEPARATOR_def)
  next
    case none
    then have p': "p = a @ SEPARATOR # b" using p by simp
    show ?thesis
    proof (cases a rule: parse_head_cases)
      case root
      then show ?thesis using none p' by (simp add: parse_head_def starts_with_Cons split: if_splits)
    next
      case (cur q)
      then show ?thesis using none p' by (auto simp: parse_head_def starts_with_Cons SEPARATOR_def split: if_splits)
    qed (simp add: none)
  qed
qed

lemma peek_back_parse:
  fixes c defines "lb \<equiv> len_before_body c" and "p' \<equiv> fst (peek_back c)"
  assumes lb: "lb < length (cpath c)"
  shows "parse_body (drop lb (cpath c)) =
      parse_body (drop lb p') @ (case snd (peek_back c) of None \<Rightarrow> [] | Some x \<Rightarrow> [x]) \<and>
    len_before_body (c\<lparr> cpath := p' \<rparr>) = lb \<and>
    (front_st c = StartDir \<longrightarrow> parse_head p' = parse_head (cpath c))"
proof (cases "rsplit_once SEPARATOR (drop lb (cpath c))")
  case None
  then have n: "SEPARATOR \<notin> set (drop lb (cpath c))" by (simp add: rsplit_once_None)
  have p': "p' = take lb (cpath c)" "snd (peek_back c) = component (drop lb (cpath c))"
    using None by (simp_all add: p'_def lb_def peek_back_def)
  have h: "parse_head (take lb (cpath c)) = parse_head (cpath c)" if f: "front_st c = StartDir"
  proof -
    have l: "lb = length (parse_head (cpath c))" using f by (simp add: lb_def len_before_body_head)
    show ?thesis
    proof (cases "cpath c" rule: parse_head_cases)
      case (root q)
      then show ?thesis by (simp add: l) (simp add: parse_head_def starts_with_Cons)
    next
      case (cur q)
      then show ?thesis using n lb by (auto simp: l)
    next
      case none
      then show ?thesis by (simp add: l) (simp add: parse_head_def starts_with_Cons)
    qed
  qed
  then show ?thesis using n p' lb by (simp add: parse_body_whole len_before_body_head lb_def)
next
  case (Some x)
  then obtain a b where x: "x = (a, b)" by (cases x)
  have d: "drop lb (cpath c) = a @ SEPARATOR # b" and b: "SEPARATOR \<notin> set b"
    using Some x by (simp_all add: rsplit_once_Some)
  have p: "cpath c = take lb (cpath c) @ a @ SEPARATOR # b" using d by (metis append_take_drop_id)
  have p': "p' = take lb (cpath c) @ a" "snd (peek_back c) = component b"
  proof -
    have "p' = take (lb + length a) (cpath c)" "snd (peek_back c) = component b"
      using Some x by (simp_all add: p'_def lb_def peek_back_def)
    moreover have "take (lb + length a) (cpath c) = take lb (cpath c) @ a"
      using lb d by (simp add: take_add)
    ultimately show "p' = take lb (cpath c) @ a" "snd (peek_back c) = component b" by simp_all
  qed
  have h: "parse_head p' = parse_head (cpath c)" if f: "front_st c = StartDir"
  proof -
    have "lb = length (parse_head (cpath c))" using f by (simp add: lb_def len_before_body_head)
    then show ?thesis using parse_head_cut [of "cpath c" a b] p p'(1) by simp
  qed
  have "drop lb p' = a" using p'(1) lb by simp
  then show ?thesis using h d b p'(2) by (simp add: parse_body_append parse_body_whole len_before_body_head lb_def)
qed

lemma remaining_Body:
  assumes "back_st c = Body" "front_st c \<noteq> Finished"
  shows "remaining c = (if front_st c = StartDir then parse_head (cpath c) else []) @
    parse_body (drop (len_before_body c) (cpath c))"
  using assms parse_head_body [of "cpath c"] by (simp add: remaining_def finished_Body len_before_body_head)

lemma peek_back_remaining:
  assumes b: "back_st c = Body" "front_st c \<noteq> Finished" and lb: "len_before_body c < length (cpath c)"
  shows "remaining c = remaining (c\<lparr> cpath := fst (peek_back c) \<rparr>) @
    (case snd (peek_back c) of None \<Rightarrow> [] | Some x \<Rightarrow> [x])"
  using peek_back_parse [OF lb] b remaining_Body [OF b] remaining_Body [of "c\<lparr> cpath := fst (peek_back c) \<rparr>"]
  by simp

text \<open>With the body used up, what is left is the head.\<close>

lemma next_back_head:
  assumes b: "back_st c = Body" "front_st c \<noteq> Finished" and lb: "\<not> len_before_body c < length (cpath c)"
  shows "pops_back (remaining c) (comp_next_back c)"
proof -
  have nf: "\<not> finished c" using b by (simp add: finished_Body)
  then have n: "comp_next_back c = comp_next_back (c\<lparr> back_st := StartDir \<rparr>)"
    using b lb by (simp add: comp_next_back.simps [of c])
  show ?thesis
  proof (cases "front_st c")
    case Body
    then have "cpath c = []" using lb by (simp add: len_before_body_head)
    moreover have "finished (c\<lparr> back_st := StartDir \<rparr>)" using Body by (simp add: finished_def)
    ultimately show ?thesis using Body b n
      by (simp add: comp_next_back.simps [of "c\<lparr> back_st := StartDir \<rparr>"] pops_back_def iter_ok_def remaining_def)
  next
    case StartDir
    let ?c = "c\<lparr> back_st := Finished \<rparr>"
    have f: "finished ?c" "\<And>p. finished (?c\<lparr> cpath := p \<rparr>)" by (simp_all add: finished_def)
    have "\<not> finished (c\<lparr> back_st := StartDir \<rparr>)" using StartDir by (simp add: finished_def)
    then have n': "comp_next_back c =
        (if has_root c then Some (Some RootDir, ?c\<lparr> cpath := take (length (cpath c) - 1) (cpath c) \<rparr>)
         else if include_cur_dir c then Some (Some CurDir, ?c\<lparr> cpath := take (length (cpath c) - 1) (cpath c) \<rparr>)
         else Some (None, ?c))"
      using n f by (simp add: comp_next_back.simps [of "c\<lparr> back_st := StartDir \<rparr>"] comp_next_back.simps [of ?c]
          Let_def has_root_def include_cur_dir_def)
    have l: "length (cpath c) \<le> length (parse_head (cpath c))" using lb StartDir by (simp add: len_before_body_head)
    have r: "remaining c = parse_head (cpath c)"
      using remaining_Body [OF b] StartDir l by (simp add: len_before_body_head)
    show ?thesis
    proof (cases "cpath c" rule: parse_head_cases)
      case (root q)
      then show ?thesis using n' r f l by (simp add: has_root_def starts_with_Cons pops_back_def iter_ok_def remaining_def)
    next
      case (cur q)
      then have "\<not> has_root c" "include_cur_dir c"
        by (auto simp: has_root_def starts_with_Cons SEPARATOR_def include_cur_dir_def CURRENT_DIR_WITH_SEPARATOR_def)
      then show ?thesis using n' r f l cur by (simp add: pops_back_def iter_ok_def remaining_def)
    next
      case none
      then have "cpath c = []" using l by simp
      then show ?thesis using n' r f none
        by (simp add: has_root_def include_cur_dir_def CURRENT_DIR_WITH_SEPARATOR_def starts_with_Cons
            pops_back_def iter_ok_def remaining_def)
    qed
  qed (use b in simp)
qed

lemma next_back_Body:
  assumes "back_st c = Body" "front_st c \<noteq> Finished"
  shows "pops_back (remaining c) (comp_next_back c)"
  using assms
proof (induction "length (cpath c)" arbitrary: c rule: less_induct)
  case less
  show ?case
  proof (cases "len_before_body c < length (cpath c)")
    case True
    let ?c = "c\<lparr> cpath := fst (peek_back c) \<rparr>"
    have n: "comp_next_back c = (if snd (peek_back c) \<noteq> None then Some (snd (peek_back c), ?c) else comp_next_back ?c)"
      using less.prems True by (simp add: comp_next_back.simps [of c] finished_Body Let_def)
    note R = peek_back_remaining [OF less.prems True]
    show ?thesis
    proof (cases "snd (peek_back c)")
      case None
      then show ?thesis using n R less.hyps [of ?c] less.prems peek_back_shorter [OF True] by simp
    next
      case (Some x)
      then show ?thesis using n R less.prems by (simp add: pops_back_def iter_ok_def finished_Body)
    qed
  qed (rule next_back_head [OF less.prems])
qed

lemma next_back_pops:
  assumes ok: "iter_ok c"
  shows "pops_back (remaining c) (comp_next_back c)"
proof (cases "finished c")
  case True
  then show ?thesis using pops_finished [OF True ok] by (simp add: comp_next_back.simps [of c] remaining_def)
next
  case False
  then show ?thesis using ok next_back_Body [of c] by (auto simp: iter_ok_def finished_def)
qed

section \<open>What is left of a path\<close>

definition trims :: "Components \<Rightarrow> Components \<Rightarrow> bool" where
  "trims c d \<longleftrightarrow> remaining d = remaining c \<and> back_st d = back_st c \<and> front_st d = front_st c"

lemma trim_right_ok:
  assumes "back_st c = Body" "front_st c \<noteq> Finished"
  shows "trims c (trim_right c) \<and> (\<exists>s. cpath c = cpath (trim_right c) @ s) \<and>
    \<not> (len_before_body (trim_right c) < length (cpath (trim_right c)) \<and> snd (peek_back (trim_right c)) = None)"
  using assms
proof (induction "length (cpath c)" arbitrary: c rule: less_induct)
  case less
  show ?case
  proof (cases "len_before_body c < length (cpath c) \<and> snd (peek_back c) = None")
    case True
    let ?c = "c\<lparr> cpath := fst (peek_back c) \<rparr>"
    have e: "trim_right c = trim_right ?c" using True by (simp add: trim_right.simps [of c])
    have "\<exists>n. fst (peek_back c) = take n (cpath c)" by (auto simp: peek_back_def split: option.split)
    then obtain s where s: "cpath c = fst (peek_back c) @ s" by (metis append_take_drop_id)
    have "trims c ?c" using True peek_back_remaining [OF less.prems] by (simp add: trims_def)
    moreover note IH = less.hyps [of ?c]
    obtain u where "fst (peek_back c) = cpath (trim_right ?c) @ u"
      using IH less.prems True peek_back_shorter [of c] by auto
    then have "cpath c = cpath (trim_right ?c) @ u @ s" using s by simp
    ultimately show ?thesis unfolding e using IH less.prems True peek_back_shorter [of c]
      by (auto simp: trims_def)
  next
    case False
    then have "trim_right c = c" by (subst trim_right.simps) auto
    then show ?thesis using False by (simp add: trims_def)
  qed
qed

lemma trim_left_ok:
  assumes "front_st c = Body" "back_st c = Body"
  shows "trims c (trim_left c) \<and> (cpath (trim_left c) \<noteq> [] \<longrightarrow> snd (peek (trim_left c)) \<noteq> None)"
  using assms
proof (induction "length (cpath c)" arbitrary: c rule: less_induct)
  case less
  show ?case
  proof (cases "cpath c \<noteq> [] \<and> snd (peek c) = None")
    case True
    let ?c = "c\<lparr> cpath := fst (peek c) \<rparr>"
    have e: "trim_left c = trim_left ?c" using True by (simp add: trim_left.simps [of c])
    have "trims c ?c" using True peek_parse [of c] less.prems by (simp add: trims_def remaining_def finished_def)
    then show ?thesis unfolding e using less.hyps [of ?c] less.prems True peek_shorter [of c] by (simp add: trims_def)
  next
    case False
    then have "trim_left c = c" by (subst trim_left.simps) auto
    then show ?thesis using False by (auto simp: trims_def)
  qed
qed

lemma peek_no_head:
  assumes "snd (peek c) \<noteq> None"
  shows "parse_head (cpath c) = []"
proof (cases "cpath c" rule: parse_head_cases)
  case (root q)
  then show ?thesis using assms by (simp add: peek_def component_def)
next
  case (cur q)
  then show ?thesis using assms by (auto simp: peek_def component_def SEPARATOR_def)
qed

lemma as_path_parse:
  assumes ok: "iter_ok c"
  shows "parse (as_path c) = remaining c"
proof (cases "finished c")
  case True
  then have p: "cpath c = []" using ok by (simp add: iter_ok_def)
  then have "cpath (trim_left c) = []" "cpath (trim_right d) = []" if "cpath d = []" for d
    using that by (simp_all add: trim_left.simps trim_right.simps)
  then show ?thesis using True p by (simp add: as_path_def Let_def remaining_def parse_def starts_with_def)
next
  case nf: False
  then have b: "back_st c = Body" and f: "front_st c = StartDir \<or> front_st c = Body"
    using ok by (cases "front_st c"; simp add: iter_ok_def finished_def)+
  show ?thesis
  proof (cases "front_st c = StartDir")
    case True
    then have a: "as_path c = cpath (trim_right c)" by (simp add: as_path_def Let_def b)
    have t: "trims c (trim_right c)" using trim_right_ok [OF b] True by simp
    then have "remaining (trim_right c) = parse (cpath (trim_right c))"
      using True b by (simp add: trims_def remaining_def finished_def)
    then show ?thesis unfolding a using t by (simp add: trims_def)
  next
    case False
    then have fb: "front_st c = Body" using f by simp
    let ?d = "trim_left c" let ?e = "trim_right ?d"
    have d: "trims c ?d" "cpath ?d \<noteq> [] \<Longrightarrow> parse_head (cpath ?d) = []"
      using trim_left_ok [OF fb b] peek_no_head [of ?d] by auto
    then have db: "back_st ?d = Body" "front_st ?d = Body" using b fb by (simp_all add: trims_def)
    have e: "trims ?d ?e" and stop: "\<not> (len_before_body ?e < length (cpath ?e) \<and> snd (peek_back ?e) = None)"
      and pre: "\<exists>s. cpath ?d = cpath ?e @ s" using trim_right_ok [OF db(1)] db by auto
    have eb: "back_st ?e = Body" "front_st ?e = Body" using e db by (simp_all add: trims_def)
    have "parse_head (cpath ?e) = []"
    proof (cases "cpath ?e" rule: parse_head_cases)
      case (root q)
      then show ?thesis using d(2) pre by (auto simp: parse_head_def starts_with_Cons split: if_splits)
    next
      case (cur q)
      have "q \<noteq> []" using stop cur eb
        by (auto simp: len_before_body_head peek_back_def rsplit_once_def component_def SEPARATOR_def)
      then show ?thesis using d(2) pre cur
        by (auto simp: parse_head_def starts_with_Cons SEPARATOR_def split: if_splits)
    qed
    then have "parse (cpath ?e) = parse_body (cpath ?e)" using parse_head_body [of "cpath ?e"] by simp
    moreover have "as_path c = cpath ?e" by (simp add: as_path_def Let_def fb db)
    moreover have "remaining ?e = parse_body (cpath ?e)" using eb by (simp add: remaining_def finished_def)
    ultimately show ?thesis using d(1) e by (simp add: trims_def)
  qed
qed

lemma collect_remaining: "iter_ok c \<Longrightarrow> comp_collect c = Some (remaining c)"
proof (induction "remaining c" arbitrary: c)
  case Nil
  then show ?case using next_pops [of c] by (subst comp_collect.simps) (auto simp: pops_front_def)
next
  case (Cons x xs)
  have r: "remaining c = x # xs" using Cons.hyps(2) by simp
  obtain c' where "comp_next c = Some (Some x, c')" "iter_ok c'" "remaining c' = xs"
    using next_pops [OF Cons.prems] unfolding r by (auto simp: pops_front_def)
  then show ?case using Cons.hyps(1) r by (subst comp_collect.simps) simp
qed

section \<open>Reading a path from both ends\<close>

datatype pull = PullFront | PullBack

fun run_iter :: "pull list \<Rightarrow> Components \<Rightarrow> (Component option list \<times> Components) option" where
  "run_iter [] c = Some ([], c)"
| "run_iter (op # ops) c =
     do {
       (x, c') \<leftarrow> (case op of PullFront \<Rightarrow> comp_next c | PullBack \<Rightarrow> comp_next_back c);
       (xs, c'') \<leftarrow> run_iter ops c';
       Some (x # xs, c'')
     }"

fun run_deque :: "pull list \<Rightarrow> 'a list \<Rightarrow> 'a option list \<times> 'a list" where
  "run_deque [] q = ([], q)"
| "run_deque (op # ops) q =
     (let (x, q') =
        (if q = [] then (None, [])
         else case op of PullFront \<Rightarrow> (Some (hd q), tl q) | PullBack \<Rightarrow> (Some (last q), butlast q));
          (xs, q'') = run_deque ops q'
      in (x # xs, q''))"

lemma run_iter_deque:
  "iter_ok c \<Longrightarrow> \<exists>c'. run_iter ops c = Some (fst (run_deque ops (remaining c)), c') \<and> iter_ok c' \<and>
     remaining c' = snd (run_deque ops (remaining c))"
proof (induction ops arbitrary: c)
  case (Cons op ops)
  have "\<exists>x c'. (case op of PullFront \<Rightarrow> comp_next c | PullBack \<Rightarrow> comp_next_back c) = Some (x, c') \<and> iter_ok c' \<and>
      (x, remaining c') = (if remaining c = [] then (None, [])
         else case op of PullFront \<Rightarrow> (Some (hd (remaining c)), tl (remaining c))
              | PullBack \<Rightarrow> (Some (last (remaining c)), butlast (remaining c)))"
    using next_pops [OF Cons.prems] next_back_pops [OF Cons.prems]
    by (cases op; cases "remaining c") (auto simp: pops_front_def pops_back_def)
  then obtain x c' where step: "(case op of PullFront \<Rightarrow> comp_next c | PullBack \<Rightarrow> comp_next_back c) = Some (x, c')"
    and c': "iter_ok c'" and x: "(if remaining c = [] then (None, [])
         else case op of PullFront \<Rightarrow> (Some (hd (remaining c)), tl (remaining c))
              | PullBack \<Rightarrow> (Some (last (remaining c)), butlast (remaining c))) = (x, remaining c')"
    by metis
  show ?case using Cons.IH [OF c'] step by (auto simp: x split: prod.split)
qed simp

text \<open>
  C5. The iterator over the components of a path refines a queue with two ends that holds the
  components found by splitting the path at its separators: under every sequence of \<open>next\<close> and
  \<open>next_back\<close> it returns what the queue returns and never panics, and the path that \<open>as_path\<close>
  gives in between has exactly the components still in the queue.
\<close>

theorem components_refine_deque:
  "\<exists>c. run_iter ops (Components_new p) = Some (fst (run_deque ops (parse p)), c) \<and>
     parse (as_path c) = snd (run_deque ops (parse p))"
proof -
  obtain c where "run_iter ops (Components_new p) = Some (fst (run_deque ops (parse p)), c)" "iter_ok c"
    "remaining c = snd (run_deque ops (parse p))"
    using run_iter_deque [of "Components_new p" ops] by auto
  then show ?thesis using as_path_parse [of c] by auto
qed

section \<open>Parents and file names\<close>

lemma peek_back_prefix: "prefix (fst (peek_back c)) (cpath c)"
  by (auto simp: peek_back_def take_is_prefix split: option.split)

lemma trim_right_prefix: "prefix (cpath (trim_right c)) (cpath c)"
proof (induction c rule: trim_right.induct)
  case (1 c)
  show ?case
  proof (cases "len_before_body c < length (cpath c) \<and> snd (peek_back c) = None")
    case True
    then show ?thesis using 1 peek_back_prefix [of c] by (auto simp: trim_right.simps [of c] intro: prefix_order.trans)
  next
    case False
    then have "trim_right c = c" by (subst trim_right.simps) auto
    then show ?thesis by simp
  qed
qed

lemma next_back_prefix:
  "comp_next_back c = Some (x, d) \<Longrightarrow> front_st d = front_st c \<and> prefix (cpath d) (cpath c)"
proof (induction c arbitrary: x d rule: comp_next_back.induct)
  case (1 c)
  show ?case
  proof (cases "finished c")
    case True
    then show ?thesis using "1.prems" by (auto simp: comp_next_back.simps [of c])
  next
    case nf: False
    show ?thesis
    proof (cases "back_st c")
      case Body
      show ?thesis
      proof (cases "len_before_body c < length (cpath c)")
        case True
        then show ?thesis using "1.prems" "1.IH"(2) [OF nf Body True refl] nf Body peek_back_prefix [of c]
          by (auto simp: comp_next_back.simps [of c] Let_def split: if_splits intro: prefix_order.trans)
      next
        case False
        then show ?thesis using "1.prems" "1.IH"(3) [OF nf Body False] nf Body
          by (simp add: comp_next_back.simps [of c])
      qed
    next
      case StartDir
      then show ?thesis using "1.prems" "1.IH"(1) [OF nf StartDir refl] nf
        by (auto simp: comp_next_back.simps [of c] Let_def take_is_prefix split: if_splits)
    next
      case Finished
      then show ?thesis using nf by (simp add: finished_def)
    qed
  qed
qed

lemma as_path_prefix: "front_st c = StartDir \<Longrightarrow> prefix (as_path c) (cpath c)"
  by (auto simp: as_path_def Let_def trim_right_prefix)

text \<open>The components of a body are names and parent directories.\<close>

lemma parse_body_components:
  "x \<in> set (parse_body s) \<Longrightarrow>
   x = ParentDir \<or> (\<exists>n. x = Normal n \<and> n \<noteq> [] \<and> n \<noteq> ''.'' \<and> n \<noteq> ''..'' \<and> SEPARATOR \<notin> set n)"
  using segments_no_sep [of _ s]
  by (auto simp: parse_body_def List.map_filter_def component_def split: if_splits)

lemma parse_root:
  assumes "parse p \<noteq> []" "last (parse p) = RootDir"
  shows "parse p = [RootDir]"
proof -
  let ?b = "parse_body (drop (length (parse_head p)) p)"
  have "?b = []"
  proof (rule ccontr)
    assume "?b \<noteq> []"
    then have "last (parse p) \<in> set ?b" by (simp add: parse_head_body [of p] del: last.simps)
    then show False using parse_body_components assms(2) by fastforce
  qed
  then have "parse p = parse_head p" using parse_head_body [of p] by simp
  then show ?thesis using assms by (cases p rule: parse_head_cases) auto
qed

text \<open>
  \<open>parent\<close>, \<open>file_name\<close> and \<open>pop\<close> work on the last component and never panic.  The parent exists
  unless the path is empty or a root, its components are those of the path without the last one,
  and \<open>pop\<close> truncates the path to it; the file name is the last component if that is a name.
\<close>

theorem parent_file_name_pop:
  "\<exists>q. parent p = Some q \<and>
     (case q of None \<Rightarrow> parse p = [] \<or> parse p = [RootDir]
      | Some r \<Rightarrow> parse p \<noteq> [] \<and> last (parse p) \<noteq> RootDir \<and> parse r = butlast (parse p) \<and> prefix r p) \<and>
     file_name p = Some (case parse p of [] \<Rightarrow> None | _ \<Rightarrow> (case last (parse p) of Normal s \<Rightarrow> Some s | _ \<Rightarrow> None)) \<and>
     path_pop p = Some (case q of None \<Rightarrow> (False, p) | Some r \<Rightarrow> (True, r))"
proof -
  let ?c = "Components_new p"
  obtain x c where n: "comp_next_back ?c = Some (x, c)" and ok: "iter_ok c"
    and x: "if parse p = [] then x = None \<and> remaining c = [] else x = Some (last (parse p)) \<and> remaining c = butlast (parse p)"
    using next_back_pops [of ?c] by (auto simp: pops_back_def)
  have "front_st c = StartDir" "prefix (cpath c) p"
    using next_back_prefix [OF n] by (simp_all add: Components_new_def)
  then have pre: "prefix (as_path c) p" using as_path_prefix [of c] by (blast intro: prefix_order.trans)
  then have tk: "take (length (as_path c)) p = as_path c" by (auto simp: prefix_def)
  show ?thesis
  proof (cases "parse p = []")
    case True
    then show ?thesis using n x by (simp add: parent_def file_name_def path_pop_def)
  next
    case False
    then show ?thesis
      using n x as_path_parse [OF ok] pre tk parse_root [OF False]
      by (cases "last (parse p)") (auto simp: parent_def file_name_def path_pop_def split: list.split)
  qed
qed

section \<open>Joining and relative paths\<close>

text \<open>A leading current-directory component disappears when a path is appended to another.\<close>

fun drop_cur :: "Component list \<Rightarrow> Component list" where
  "drop_cur (CurDir # cs) = cs"
| "drop_cur cs = cs"

lemma parse_body_dot: "parse_body (CHR ''.'' # SEPARATOR # s) = parse_body s"
  using parse_body_append [of "''.''" s] by (simp add: parse_body_whole component_def SEPARATOR_def)

lemma parse_body_sep: "parse_body (SEPARATOR # s) = parse_body s"
  using parse_body_append [of "[]" s] by simp

lemma drop_cur_id: "CurDir \<notin> set cs \<Longrightarrow> drop_cur cs = cs"
  by (cases cs rule: drop_cur.cases) auto

lemma parse_body_relative: "\<not> is_absolute q \<Longrightarrow> parse_body q = drop_cur (parse q)"
proof (cases q rule: parse_head_cases)
  case (cur r)
  then show ?thesis using parse_head_body [of q] parse_body_dot parse_body_sep
    by (auto simp: parse_body_whole component_def SEPARATOR_def)
next
  case none
  assume "\<not> is_absolute q"
  have "parse q = parse_body q" using none parse_head_body [of q] by simp
  moreover have "CurDir \<notin> set (parse_body q)" using parse_body_components [of CurDir q] by auto
  ultimately show ?thesis by (simp add: drop_cur_id)
qed (auto simp: is_absolute_def starts_with_Cons)

lemma parse_head_extend:
  "p \<noteq> [] \<Longrightarrow> parse_head (p @ SEPARATOR # q) = parse_head p"
proof (cases p rule: parse_head_cases)
  case (root r)
  then show ?thesis by (simp add: parse_head_def starts_with_Cons)
next
  case (cur r)
  then show ?thesis by (auto simp: parse_head_def starts_with_Cons SEPARATOR_def)
next
  case none
  assume "p \<noteq> []"
  then show ?thesis using none
    by (cases p) (auto simp: parse_head_def starts_with_Cons SEPARATOR_def append_eq_Cons_conv split: if_splits)
qed

lemma parse_join:
  "parse (path_join p q) =
     (if is_absolute q then parse q
      else if p = [] then RootDir # drop_cur (parse q)
      else parse p @ drop_cur (parse q))"
proof (cases "is_absolute q \<or> p = []")
  case True
  then show ?thesis
    by (auto simp: path_join_def path_push_def parse_def [of "SEPARATOR # q"] starts_with_Cons parse_body_relative)
next
  case False
  let ?h = "length (parse_head p)"
  have j: "path_join p q = p @ SEPARATOR # q" using False by (simp add: path_join_def path_push_def)
  have "?h \<le> length p" using False by (cases p rule: parse_head_cases) auto
  then have "drop ?h (p @ SEPARATOR # q) = drop ?h p @ SEPARATOR # q" by simp
  then show ?thesis using False parse_head_body [of p] parse_head_body [of "p @ SEPARATOR # q"]
    by (simp add: j parse_head_extend parse_body_append parse_body_relative)
qed

fun rel_list :: "Component list \<Rightarrow> Component list \<Rightarrow> Component list \<Rightarrow> Component list option" where
  "rel_list [] [] comps = Some comps"
| "rel_list (a # as) [] comps = Some (comps @ a # as)"
| "rel_list [] (b # bs) comps = rel_list [] bs (comps @ [ParentDir])"
| "rel_list (a # as) (b # bs) comps =
     (if comps = [] \<and> a = b then rel_list as bs comps
      else if b = CurDir then rel_list as bs (comps @ [a])
      else if b = ParentDir then None
      else Some (comps @ ParentDir # map (\<lambda>_. ParentDir) bs @ a # as))"

lemma relative_loop_list:
  "iter_ok ita \<Longrightarrow> iter_ok itb \<Longrightarrow> remaining ita = as \<Longrightarrow> remaining itb = bs \<Longrightarrow>
   relative_loop ita itb comps = Some (rel_list as bs comps)"
proof (induction as bs comps arbitrary: ita itb rule: rel_list.induct)
  case (1 comps)
  then show ?case using next_pops [of ita] next_pops [of itb]
    by (subst relative_loop.simps) (auto simp: pops_front_def)
next
  case (2 a as comps)
  then show ?case using next_pops [of ita] next_pops [of itb]
    by (subst relative_loop.simps) (auto simp: pops_front_def collect_remaining)
next
  case (3 b bs comps)
  then show ?case using next_pops [of ita] next_pops [of itb]
    by (subst relative_loop.simps) (auto simp: pops_front_def)
next
  case (4 a as b bs comps)
  then show ?case using next_pops [of ita] next_pops [of itb]
    by (subst relative_loop.simps) (auto simp: pops_front_def collect_remaining)
qed

lemma relative_list:
  "is_absolute self = is_absolute base \<Longrightarrow>
   relative self base = Some (map_option (\<lambda>comps. path_from_iter (map component_str comps))
     (rel_list (parse self) (parse base) []))"
  using relative_loop_list [of "Components_new self" "Components_new base" "parse self" "parse base" "[]"]
  by (simp add: relative_def)

text \<open>Following the components of a path from a directory: names are entered, \<open>..\<close> leaves the last one.\<close>

fun resolve_step :: "Component list \<Rightarrow> Component \<Rightarrow> Component list" where
  "resolve_step st RootDir = [RootDir]"
| "resolve_step st CurDir = st"
| "resolve_step st (Normal n) = Normal n # st"
| "resolve_step (Normal n # st) ParentDir = st"
| "resolve_step (RootDir # st) ParentDir = RootDir # st"
| "resolve_step st ParentDir = ParentDir # st"

definition resolve :: "Component list \<Rightarrow> Component list" where
  "resolve cs = rev (foldl resolve_step [] cs)"

lemma resolve_skip_cur: "foldl resolve_step st (filter (\<lambda>c. c \<noteq> CurDir) cs) = foldl resolve_step st cs"
  by (induction cs arbitrary: st) auto

lemma resolve_leave:
  "(\<forall>b \<in> set bs. \<exists>n. b = Normal n) \<Longrightarrow>
   foldl resolve_step (foldl resolve_step st bs) (map (\<lambda>_. ParentDir) bs) = st"
proof (induction bs arbitrary: st)
  case (Cons b bs)
  then obtain n where "b = Normal n" by auto
  moreover have "map (\<lambda>_. ParentDir) (b # bs) = map (\<lambda>_. ParentDir) bs @ [ParentDir]"
    by (simp add: map_replicate_const replicate_append_same)
  ultimately show ?case using Cons by simp
qed simp

text \<open>The relative path leaves the base up to the common part and enters the target.\<close>

lemma rel_list_leave: "rel_list [] bs comps = Some (comps @ map (\<lambda>_. ParentDir) bs)"
  by (induction bs arbitrary: comps) simp_all

lemma rel_list_split:
  "(\<forall>b \<in> set bs. \<exists>n. b = Normal n) \<Longrightarrow>
   \<exists>C as' bs'. as = C @ as' \<and> bs = C @ bs' \<and> rel_list as bs [] = Some (map (\<lambda>_. ParentDir) bs' @ as')"
proof (induction as arbitrary: bs)
  case Nil
  then show ?case by (simp add: rel_list_leave)
next
  case (Cons a as)
  show ?case
  proof (cases bs)
    case Nil
    then show ?thesis by simp
  next
    case bs: (Cons b bs')
    show ?thesis
    proof (cases "a = b")
      case True
      then obtain C x y where "as = C @ x" "bs' = C @ y" "rel_list as bs' [] = Some (map (\<lambda>_. ParentDir) y @ x)"
        using Cons.IH [of bs'] Cons.prems bs by auto
      then show ?thesis using True bs by (intro exI [of _ "a # C"] exI [of _ x] exI [of _ y]) simp
    next
      case False
      then show ?thesis using Cons.prems bs by (intro exI [of _ "[]"] exI [of _ "a # as"] exI [of _ bs]) auto
    qed
  qed
qed

lemma resolve_rel_list:
  assumes bs: "\<forall>b \<in> set bs. \<exists>n. b = Normal n" and r: "rel_list as bs [] = Some r"
  shows "foldl resolve_step st (bs @ r) = foldl resolve_step st as"
proof -
  obtain C as' bs' where 1: "as = C @ as'" "bs = C @ bs'" "r = map (\<lambda>_. ParentDir) bs' @ as'"
    using rel_list_split [OF bs, of as] r by auto
  have "\<forall>b \<in> set bs'. \<exists>n. b = Normal n" using bs 1(2) by simp
  then show ?thesis by (simp add: 1 resolve_leave del: map_replicate_const)
qed

text \<open>Printing a list of components and parsing it again.\<close>

definition printable :: "Component \<Rightarrow> bool" where
  "printable c \<longleftrightarrow> c = ParentDir \<or> c = CurDir \<or>
     (\<exists>n. c = Normal n \<and> n \<noteq> [] \<and> n \<noteq> ''.'' \<and> n \<noteq> ''..'' \<and> SEPARATOR \<notin> set n)"

lemma printable_str:
  assumes "printable c"
  shows "SEPARATOR \<notin> set (component_str c)" "component_str c \<noteq> []"
    "component (component_str c) = (if c = CurDir then None else Some c)"
  using assms by (auto simp: printable_def component_def SEPARATOR_def)

lemma parse_body_print:
  "(\<forall>c \<in> set cs. printable c) \<Longrightarrow>
   parse_body (path_from_iter (map component_str cs)) = filter (\<lambda>c. c \<noteq> CurDir) cs"
proof (induction cs)
  case (Cons c cs)
  then have c: "printable c" by simp
  show ?case
  proof (cases cs)
    case Nil
    then show ?thesis using printable_str [OF c] by (simp add: parse_body_whole)
  next
    case cs: (Cons d ds)
    have "path_from_iter (map component_str (c # cs)) =
        component_str c @ SEPARATOR # path_from_iter (map component_str cs)" by (simp add: cs)
    moreover have "parse_body (path_from_iter (map component_str cs)) = filter (\<lambda>c. c \<noteq> CurDir) cs"
      using Cons by simp
    ultimately show ?thesis using printable_str [OF c] by (simp add: parse_body_append parse_body_whole)
  qed
qed simp

lemma print_relative:
  assumes "\<forall>c \<in> set cs. printable c"
  shows "\<not> is_absolute (path_from_iter (map component_str cs))"
proof (cases cs)
  case (Cons c ds)
  then have c: "printable c" using assms by simp
  then obtain x xs where x: "component_str c = x # xs" using printable_str(2) by (cases "component_str c") auto
  then have "x \<noteq> SEPARATOR" using printable_str(1) [OF c] by auto
  moreover have "\<exists>ys. path_from_iter (map component_str cs) = x # ys" using Cons x by (cases ds) auto
  ultimately show ?thesis by (auto simp: is_absolute_def starts_with_Cons)
qed (simp add: is_absolute_def starts_with_def)

lemma parse_printable: "c \<in> set (parse p) \<Longrightarrow> c \<noteq> RootDir \<Longrightarrow> printable c"
proof -
  assume c: "c \<in> set (parse p)" "c \<noteq> RootDir"
  then have "c = CurDir \<or> c \<in> set (parse_body (drop (length (parse_head p)) p))"
    using parse_head_body [of p] by (cases p rule: parse_head_cases) auto
  then show ?thesis using parse_body_components [of c] by (auto simp: printable_def)
qed

lemma parse_absolute: "is_absolute p \<Longrightarrow> parse p = RootDir # parse_body (drop 1 p)"
  by (simp add: parse_def is_absolute_def)

lemma parse_not_absolute: "\<not> is_absolute p \<Longrightarrow> RootDir \<notin> set (parse p)"
  using parse_body_components [of RootDir] by (auto simp: parse_def is_absolute_def)



text \<open>
  The join of the empty path with a relative one is absolute: \<open>push\<close> writes the separator also
  in front of the first component.
\<close>

lemma join_empty_absolute: "\<not> is_absolute q \<Longrightarrow> is_absolute (path_join [] q)"
  by (simp add: path_join_def path_push_def is_absolute_def starts_with_Cons)

text \<open>A leading current directory in the base makes \<open>relative\<close> give a path to the wrong place.\<close>

lemma relative_cur_dir_wrong:
  "relative ''a/b'' ''./x'' = Some (Some ''a/../b'')"
  "resolve (parse (path_join ''./x'' ''a/../b'')) \<noteq> resolve (parse ''a/b'')"
proof -
  have "is_absolute ''a/b'' = is_absolute ''./x''"
    "map_option (\<lambda>comps. path_from_iter (map component_str comps)) (rel_list (parse ''a/b'') (parse ''./x'') []) =
      Some ''a/../b''" by code_simp+
  then show "relative ''a/b'' ''./x'' = Some (Some ''a/../b'')" using relative_list by simp
qed code_simp

text \<open>A file name is its stem, a dot and its extension, or its stem alone.\<close>

lemma stem_extension:
  "name = stem_of name @ (case extension_of name of None \<Rightarrow> [] | Some e \<Rightarrow> CHR ''.'' # e)"
  by (auto simp: stem_of_def extension_of_def rsplit_once_Some split: option.split)

end
