(* ===== verification/Syscall_Error.thy ===== *)
theory Syscall_Error
  imports Prelude
begin

text \<open>
  The error codes shared by the system calls and their translation to the two ABIs
  (\<open>kernel/maios_syscall/src/error.rs\<close>).  A result is a value or an error; an \<open>i64\<close> is a 64-bit
  word, read as signed.
\<close>

datatype SyscallError =
    NotImplemented
  | InvalidArgument
  | BadFileDescriptor
  | PermissionDenied
  | NotFound
  | OutOfMemory
  | IoError
  | NotADirectory
  | IsADirectory
  | FileExists
  | NotExecutable
  | NoDevice
  | NotATerminal
  | Busy
  | WouldBlock
  | Fault
  | NoSpace
  | IllegalSeek
  | Interrupted
  | ReadOnlyFs
  | BufferTooSmall
  | NoChild
  | NotPermitted

type_synonym SyscallResult = "SyscallError + u64"

fun as_str :: "SyscallError \<Rightarrow> string" where
  "as_str NotImplemented = ''ENOSYS''"
| "as_str InvalidArgument = ''EINVAL''"
| "as_str BadFileDescriptor = ''EBADF''"
| "as_str PermissionDenied = ''EACCES''"
| "as_str NotFound = ''ENOENT''"
| "as_str OutOfMemory = ''ENOMEM''"
| "as_str IoError = ''EIO''"
| "as_str NotADirectory = ''ENOTDIR''"
| "as_str IsADirectory = ''EISDIR''"
| "as_str FileExists = ''EEXIST''"
| "as_str NotExecutable = ''ENOEXEC''"
| "as_str NoDevice = ''ENODEV''"
| "as_str NotATerminal = ''ENOTTY''"
| "as_str Busy = ''EBUSY''"
| "as_str WouldBlock = ''EAGAIN''"
| "as_str Fault = ''EFAULT''"
| "as_str NoSpace = ''ENOSPC''"
| "as_str IllegalSeek = ''ESPIPE''"
| "as_str Interrupted = ''EINTR''"
| "as_str ReadOnlyFs = ''EROFS''"
| "as_str BufferTooSmall = ''ERANGE''"
| "as_str NoChild = ''ECHILD''"
| "as_str NotPermitted = ''EPERM''"

fun to_linux_errno :: "SyscallError \<Rightarrow> u64" where
  "to_linux_errno NotPermitted = - 1"
| "to_linux_errno NotFound = - 2"
| "to_linux_errno Interrupted = - 4"
| "to_linux_errno IoError = - 5"
| "to_linux_errno NotExecutable = - 8"
| "to_linux_errno BadFileDescriptor = - 9"
| "to_linux_errno NoChild = - 10"
| "to_linux_errno WouldBlock = - 11"
| "to_linux_errno OutOfMemory = - 12"
| "to_linux_errno PermissionDenied = - 13"
| "to_linux_errno Fault = - 14"
| "to_linux_errno Busy = - 16"
| "to_linux_errno FileExists = - 17"
| "to_linux_errno NoDevice = - 19"
| "to_linux_errno NotADirectory = - 20"
| "to_linux_errno IsADirectory = - 21"
| "to_linux_errno InvalidArgument = - 22"
| "to_linux_errno NotATerminal = - 25"
| "to_linux_errno NoSpace = - 28"
| "to_linux_errno IllegalSeek = - 29"
| "to_linux_errno ReadOnlyFs = - 30"
| "to_linux_errno BufferTooSmall = - 34"
| "to_linux_errno NotImplemented = - 38"

text \<open>A 32-bit status code, cast to \<open>i32\<close> and sign-extended.\<close>

definition status :: "u32 \<Rightarrow> u64" where
  "status c = signed c"

fun to_ntstatus :: "SyscallError \<Rightarrow> u64" where
  "to_ntstatus NotImplemented = status 0xC0000002"
| "to_ntstatus Fault = status 0xC0000005"
| "to_ntstatus BadFileDescriptor = status 0xC0000008"
| "to_ntstatus InvalidArgument = status 0xC000000D"
| "to_ntstatus OutOfMemory = status 0xC0000017"
| "to_ntstatus PermissionDenied = status 0xC0000022"
| "to_ntstatus BufferTooSmall = status 0xC0000023"
| "to_ntstatus NotFound = status 0xC0000034"
| "to_ntstatus FileExists = status 0xC0000035"
| "to_ntstatus IoError = status 0xC0000185"
| "to_ntstatus NotExecutable = status 0xC0000005"
| "to_ntstatus Busy = status 0xC0000024"
| "to_ntstatus WouldBlock = status 0x00000103"
| "to_ntstatus NoSpace = status 0xC000007F"
| "to_ntstatus ReadOnlyFs = status 0xC00000A2"
| "to_ntstatus _ = status 0xC0000002"

definition result_to_linux :: "SyscallResult \<Rightarrow> u64" where
  "result_to_linux r = (case r of Inr v \<Rightarrow> v | Inl e \<Rightarrow> to_linux_errno e)"

definition result_to_ntstatus :: "SyscallResult \<Rightarrow> u64" where
  "result_to_ntstatus r = (case r of Inr _ \<Rightarrow> 0 | Inl e \<Rightarrow> to_ntstatus e)"

lemma to_linux_errno_range: "- 4095 \<le> to_linux_errno e"
  by (cases e) (simp_all add: word_le_nat_alt unsigned_minus_1_eq_mask mask_eq_exp_minus_1)

lemma to_linux_errno_inj: "to_linux_errno e = to_linux_errno e' \<Longrightarrow> e = e'"
  by (cases e; cases e') simp_all

text \<open>
  The Linux return value determines the result: a value in the error range of the kernel ABI,
  that is between -4095 and -1, comes from exactly one error, and any other value is the value
  that the call returned.
\<close>

theorem linux_result_roundtrip:
  assumes "\<forall>v. r = Inr v \<longrightarrow> v < - 4095"
  shows "if - 4095 \<le> result_to_linux r
    then \<exists>e. r = Inl e \<and> (\<forall>e'. to_linux_errno e' = result_to_linux r \<longleftrightarrow> e' = e)
    else r = Inr (result_to_linux r)"
proof (cases r)
  case (Inl e)
  then show ?thesis using to_linux_errno_range [of e] to_linux_errno_inj by (auto simp: result_to_linux_def)
next
  case (Inr v)
  then have "\<not> - 4095 \<le> v" using assms by simp
  then show ?thesis using Inr by (simp add: result_to_linux_def)
qed

theorem linux_result_roundtrip_witness:
  "if - 4095 \<le> result_to_linux (Inl NotFound)
    then \<exists>e. Inl NotFound = (Inl e :: SyscallResult) \<and>
      (\<forall>e'. to_linux_errno e' = result_to_linux (Inl NotFound) \<longleftrightarrow> e' = e)
    else Inl NotFound = (Inr (result_to_linux (Inl NotFound)) :: SyscallResult)"
  by (rule linux_result_roundtrip) simp

text \<open>
  The NT translation keeps less: an image that is not executable is reported as an access violation,
  and a pending operation as a status that is not an error.
\<close>

lemma ntstatus_not_executable: "to_ntstatus NotExecutable = to_ntstatus Fault"
  by simp

lemma ntstatus_sign: "to_ntstatus e <s 0 \<longleftrightarrow> e \<noteq> WouldBlock"
  by (cases e) (simp_all add: status_def, (code_simp)+)

end
