(* ===== verification/Resource_Table.thy ===== *)
theory Resource_Table
  imports Syscall_Error
begin

text \<open>
  The per-task table of files and handles (\<open>kernel/maios_syscall/src/resource.rs\<close>): one ordered map
  serves Linux file descriptors and Windows handles.  A file reference is an index into the store
  of files of theory \<open>Vfs\<close>; the pages of a memory resource are represented by its base and size.
\<close>

type_synonym fileref = nat

datatype Resource =
    Stdin
  | Stdout
  | Stderr
  | RFile fileref usize
  | RMemory usize usize

record ResourceTable =
  resources :: "(u64, Resource) btree"
  next_fd :: u64
  next_handle :: u64

definition ResourceTable_new :: ResourceTable where
  "ResourceTable_new =
     \<lparr> resources =
         bt_insert 0x0B Stderr (bt_insert 0x07 Stdout (bt_insert 0x03 Stdin
           (bt_insert 2 Stderr (bt_insert 1 Stdout (bt_insert 0 Stdin []))))),
       next_fd = 3,
       next_handle = 0x100 \<rparr>"

definition alloc_fd :: "Resource \<Rightarrow> ResourceTable \<Rightarrow> u64 \<times> ResourceTable" where
  "alloc_fd r t =
     (let fd = next_fd t
      in (fd, t\<lparr> next_fd := next_fd t + 1, resources := bt_insert fd r (resources t) \<rparr>))"

definition alloc_handle :: "Resource \<Rightarrow> ResourceTable \<Rightarrow> u64 \<times> ResourceTable" where
  "alloc_handle r t =
     (let handle = next_handle t
      in (handle, t\<lparr> next_handle := next_handle t + 4, resources := bt_insert handle r (resources t) \<rparr>))"

definition is_stdio :: "u64 \<Rightarrow> bool" where
  "is_stdio h \<longleftrightarrow> h \<in> {0, 1, 2, 0x03, 0x07, 0x0B}"

definition table_close :: "u64 \<Rightarrow> ResourceTable \<Rightarrow> Resource option \<times> ResourceTable" where
  "table_close h t =
     (if h \<in> {0, 1, 2, 0x03, 0x07, 0x0B} then (None, t)
      else (bt_get h (resources t), t\<lparr> resources := bt_remove h (resources t) \<rparr>))"

definition table_get :: "u64 \<Rightarrow> ResourceTable \<Rightarrow> Resource option" where
  "table_get h t = bt_get h (resources t)"

text \<open>Storing through the reference that \<open>get_mut\<close> returns.\<close>

definition table_set :: "u64 \<Rightarrow> Resource \<Rightarrow> ResourceTable \<Rightarrow> ResourceTable" where
  "table_set h r t = t\<lparr> resources := bt_insert h r (resources t) \<rparr>"

text \<open>The copy that \<open>dup\<close> and \<open>dup2\<close> make of a resource.\<close>

fun dup_resource :: "Resource \<Rightarrow> Resource option" where
  "dup_resource (RMemory _ _) = None"
| "dup_resource r = Some r"

definition dup :: "u64 \<Rightarrow> ResourceTable \<Rightarrow> u64 option \<times> ResourceTable" where
  "dup src t =
     (case Option.bind (bt_get src (resources t)) dup_resource of
        None \<Rightarrow> (None, t)
      | Some r \<Rightarrow> (case alloc_fd r t of (fd, t') \<Rightarrow> (Some fd, t')))"

definition dup2 :: "u64 \<Rightarrow> u64 \<Rightarrow> ResourceTable \<Rightarrow> u64 option \<times> ResourceTable" where
  "dup2 src target t =
     (if src = target then (if bt_get src (resources t) \<noteq> None then Some target else None, t)
      else case Option.bind (bt_get src (resources t)) dup_resource of
        None \<Rightarrow> (None, t)
      | Some r \<Rightarrow>
          let m = (if is_stdio target then resources t else bt_remove target (resources t))
          in (Some target, t\<lparr> resources := bt_insert target r m \<rparr>))"

definition find_handle :: "(Resource \<Rightarrow> bool) \<Rightarrow> ResourceTable \<Rightarrow> u64 option" where
  "find_handle P t = map_option fst (find (\<lambda>e. P (snd e)) (resources t))"

text \<open>The tables of all tasks; a table is created when it is first used.\<close>

type_synonym tables = "(nat, ResourceTable) btree"

definition with_resources_mut :: "nat \<Rightarrow> (ResourceTable \<Rightarrow> 'a \<times> ResourceTable) \<Rightarrow> tables \<Rightarrow> 'a \<times> tables" where
  "with_resources_mut tid f T =
     (let t = (case bt_get tid T of Some t \<Rightarrow> t | None \<Rightarrow> ResourceTable_new);
          (r, t') = f t
      in (r, bt_insert tid t' T))"

definition with_resources :: "nat \<Rightarrow> (ResourceTable \<Rightarrow> 'a) \<Rightarrow> tables \<Rightarrow> 'a \<times> tables" where
  "with_resources tid f T =
     (let t = (case bt_get tid T of Some t \<Rightarrow> t | None \<Rightarrow> ResourceTable_new)
      in (f t, bt_insert tid t T))"

definition remove_resources :: "nat \<Rightarrow> tables \<Rightarrow> tables" where
  "remove_resources tid T = bt_remove tid T"

section \<open>Histories of a table\<close>

datatype table_op =
    AllocFd Resource
  | AllocHandle Resource
  | Close u64
  | Dup u64
  | Dup2 u64 u64

fun table_step :: "table_op \<Rightarrow> ResourceTable \<Rightarrow> ResourceTable" where
  "table_step (AllocFd r) t = snd (alloc_fd r t)"
| "table_step (AllocHandle r) t = snd (alloc_handle r t)"
| "table_step (Close h) t = snd (table_close h t)"
| "table_step (Dup h) t = snd (dup h t)"
| "table_step (Dup2 s h) t = snd (dup2 s h t)"

abbreviation table_run :: "table_op list \<Rightarrow> ResourceTable \<Rightarrow> ResourceTable" where
  "table_run ops t \<equiv> fold table_step ops t"

text \<open>The handle an operation stores into or removes.\<close>

fun touches :: "table_op \<Rightarrow> ResourceTable \<Rightarrow> u64" where
  "touches (AllocFd _) t = next_fd t"
| "touches (AllocHandle _) t = next_handle t"
| "touches (Close h) t = h"
| "touches (Dup _) t = next_fd t"
| "touches (Dup2 _ h) t = h"

lemmas table_defs = alloc_fd_def alloc_handle_def table_close_def dup_def dup2_def table_get_def Let_def

lemma table_ok_step: "bt_ok (resources t) \<Longrightarrow> bt_ok (resources (table_step op t))"
  by (cases op) (auto simp: table_defs bt_ok_insert bt_ok_remove split: option.split)

lemma table_frame:
  "bt_ok (resources t) \<Longrightarrow> h \<noteq> touches op t \<Longrightarrow> table_get h (table_step op t) = table_get h t"
  by (cases op) (auto simp: table_defs bt_facts split: option.split)

lemma next_fd_step: "next_fd (table_step op t) = next_fd t \<or> next_fd (table_step op t) = next_fd t + 1"
  by (cases op) (auto simp: table_defs split: option.split)

lemma next_handle_step:
  "next_handle (table_step op t) = next_handle t \<or> next_handle (table_step op t) = next_handle t + 4"
  by (cases op) (auto simp: table_defs split: option.split)


text \<open>After \<open>n\<close> operations the counters have not wrapped.\<close>

definition counters_ok :: "nat \<Rightarrow> ResourceTable \<Rightarrow> bool" where
  "counters_ok n t \<longleftrightarrow> bt_ok (resources t) \<and> unat (next_fd t) \<le> 3 + n \<and>
     0x100 \<le> unat (next_handle t) \<and> unat (next_handle t) \<le> 0x100 + 4 * n"

lemma counters_new: "counters_ok 0 ResourceTable_new"
  by (simp add: counters_ok_def ResourceTable_new_def bt_ok_def)

lemma unat_next_fd_step:
  assumes "counters_ok n t" "n < 2 ^ 60"
  shows "unat (next_fd (table_step op t)) = unat (next_fd t) \<or> unat (next_fd (table_step op t)) = unat (next_fd t) + 1"
proof -
  have "unat (next_fd t) + 1 < 2 ^ 64" using assms by (simp add: counters_ok_def)
  then show ?thesis using next_fd_step [of op t] by (auto simp: unat_add_one)
qed

lemma counters_step:
  assumes ok: "counters_ok n t" and n: "n < 2 ^ 60"
  shows "counters_ok (Suc n) (table_step op t)"
proof -
  have "unat (next_handle t) + unat (4 :: u64) < 2 ^ LENGTH(64)" using ok n by (simp add: counters_ok_def)
  then have "unat (next_handle t + 4) = unat (next_handle t) + 4" by (simp add: unat_add_nowrap)
  then have "unat (next_handle (table_step op t)) = unat (next_handle t) \<or>
      unat (next_handle (table_step op t)) = unat (next_handle t) + 4"
    using next_handle_step [of op t] by auto
  then show ?thesis using ok unat_next_fd_step [OF ok n, of op] table_ok_step [of t op]
    by (auto simp: counters_ok_def)
qed

lemma counters_run: "counters_ok n t \<Longrightarrow> n + length ops \<le> 2 ^ 60 \<Longrightarrow> counters_ok (n + length ops) (table_run ops t)"
proof (induction ops arbitrary: n t)
  case (Cons op ops)
  then show ?case using counters_step [of n t op] Cons.IH [of "Suc n"] by simp
qed simp

text \<open>Operations that leave a descriptor below the counter alone.\<close>

definition spares :: "u64 \<Rightarrow> table_op \<Rightarrow> bool" where
  "spares fd op \<longleftrightarrow>
     (case op of Close h \<Rightarrow> h \<noteq> fd | Dup2 _ h \<Rightarrow> h \<noteq> fd | AllocHandle _ \<Rightarrow> fd < 0x100 | _ \<Rightarrow> True)"

lemma spares_run:
  "counters_ok n t \<Longrightarrow> n + length ops \<le> 2 ^ 60 \<Longrightarrow> fd < next_fd t \<Longrightarrow> \<forall>op \<in> set ops. spares fd op \<Longrightarrow>
   table_get fd (table_run ops t) = table_get fd t \<and> fd < next_fd (table_run ops t)"
proof (induction ops arbitrary: n t)
  case (Cons op ops)
  have n: "n < 2 ^ 60" using Cons.prems(2) by simp
  have "fd \<noteq> touches op t"
    using Cons.prems by (cases op) (auto simp: spares_def counters_ok_def word_less_nat_alt)
  then have "table_get fd (table_step op t) = table_get fd t"
    using Cons.prems(1) by (simp add: table_frame counters_ok_def)
  moreover have "fd < next_fd (table_step op t)"
    using unat_next_fd_step [OF Cons.prems(1) n, of op] Cons.prems(3) by (auto simp: word_less_nat_alt)
  ultimately show ?case
    using Cons.IH [OF counters_step [OF Cons.prems(1) n, of op]] Cons.prems(2,4) by simp
qed simp



text \<open>The first descriptor of a task takes the number of a Windows stream handle and cannot be closed.\<close>

lemma first_fd_not_closable:
  "fst (alloc_fd r ResourceTable_new) = 3" "table_close 3 t = (None, t)"
  by (simp_all add: alloc_fd_def ResourceTable_new_def Let_def table_close_def)

text \<open>A descriptor made by \<open>dup2\<close> beyond the counter is overwritten when the counter reaches it.\<close>

lemma dup2_target_overwritten:
  "table_get 4 (table_run [Dup2 1 4, AllocFd (RFile 0 0), AllocFd (RFile 5 0)] ResourceTable_new) = Some (RFile 5 0)"
  by code_simp

text \<open>Tasks do not share tables.\<close>

lemma with_resources_other:
  "bt_ok T \<Longrightarrow> tid' \<noteq> tid \<Longrightarrow> bt_get tid' (snd (with_resources_mut tid f T)) = bt_get tid' T"
  "bt_ok T \<Longrightarrow> tid' \<noteq> tid \<Longrightarrow> bt_get tid' (snd (with_resources tid g T)) = bt_get tid' T"
  by (simp_all add: with_resources_mut_def with_resources_def Let_def bt_facts split: prod.split)

end
