(* ===== verification/Vfs.thy ===== *)
theory Vfs
  imports Path Resource_Table "HOL-Library.List_Lexorder" "HOL-Library.Char_ord"
begin

text \<open>
  The in-memory file system: heap files (\<open>kernel/heapfile/src/lib.rs\<close>), directories
  (\<open>kernel/vfs_node/src/lib.rs\<close>), the root directory (\<open>kernel/root/src/lib.rs\<close>) and absolute paths
  (\<open>kernel/fs_node/src/lib.rs\<close>).  Files and directories live in a store and are named by references;
  the root is directory 0.  A weak reference to a parent is an optional reference: directories of
  the store are never freed.  Strings are ordered by their bytes, as in a \<open>BTreeMap\<close>.
\<close>

type_synonym dirref = nat
type_synonym node = "(fileref, dirref) FileOrDir"

section \<open>Heap files\<close>

datatype IoError = IoInvalidInput | IoTimedOut | IoOther string

record HeapFile =
  hf_name :: string
  hf_vec :: "u8 list"
  hf_parent :: "dirref option"

text \<open>\<open>read_at\<close> returns the bytes copied to the front of the buffer.\<close>

definition read_at :: "HeapFile \<Rightarrow> nat \<Rightarrow> usize \<Rightarrow> IoError + u8 list" where
  "read_at f buffer_len offset =
     (if length (hf_vec f) \<le> unat offset then Inl IoInvalidInput
      else Inr (take (min (length (hf_vec f) - unat offset) buffer_len) (drop (unat offset) (hf_vec f))))"

definition vec_resize :: "nat \<Rightarrow> 'a \<Rightarrow> 'a list \<Rightarrow> 'a list" where
  "vec_resize n x xs = take n xs @ replicate (n - length xs) x"

text \<open>
  \<open>write_at\<close>: \<open>None\<close> is a panic, of \<open>resize\<close> when the vector would exceed the largest size of an
  allocation, or of the slice when the end wraps around.
\<close>

definition write_at :: "HeapFile \<Rightarrow> u8 list \<Rightarrow> usize \<Rightarrow> (nat \<times> HeapFile) option" where
  "write_at f buffer offset =
     (let final_len = offset + of_nat (length buffer);
          vec = (if length (hf_vec f) < unat final_len then vec_resize (unat final_len) 0 (hf_vec f) else hf_vec f)
      in if length (hf_vec f) < unat final_len \<and> 2 ^ 63 \<le> unat final_len \<or> unat final_len < unat offset then None
         else Some (length buffer,
                f\<lparr> hf_vec := take (unat offset) vec @ buffer @ drop (unat final_len) vec \<rparr>))"

section \<open>Directories\<close>

record VFSDirectory =
  dir_name :: string
  children :: "(string, node) btree"
  dir_parent :: "dirref option"
  prefix_index :: "(string, string) btree"

record Vfs =
  vfiles :: "fileref \<Rightarrow> HeapFile"
  vdirs :: "dirref \<Rightarrow> VFSDirectory"
  next_file :: nat
  next_dir :: nat

definition index_prefix :: "string \<Rightarrow> string" where
  "index_prefix name =
     (case position (\<lambda>c. c = CHR ''-'') name of Some i \<Rightarrow> take (i + 1) name | None \<Rightarrow> name)"

definition index_insert :: "string \<Rightarrow> VFSDirectory \<Rightarrow> VFSDirectory" where
  "index_insert name d =
     (let pfx = index_prefix name;
          should_insert = (case bt_get pfx (prefix_index d) of Some existing \<Rightarrow> existing < name | None \<Rightarrow> True)
      in if should_insert then d\<lparr> prefix_index := bt_insert pfx name (prefix_index d) \<rparr> else d)"

definition index_remove :: "string \<Rightarrow> VFSDirectory \<Rightarrow> VFSDirectory" where
  "index_remove name d =
     (let pfx = index_prefix name
      in if bt_get pfx (prefix_index d) = Some name
         then (case filter (\<lambda>k. starts_with pfx k \<and> k \<noteq> name) (map fst (children d)) of
                 [] \<Rightarrow> d\<lparr> prefix_index := bt_remove pfx (prefix_index d) \<rparr>
               | ks \<Rightarrow> d\<lparr> prefix_index := bt_insert pfx (last ks) (prefix_index d) \<rparr>)
         else d)"

definition find_map :: "('a \<Rightarrow> 'b option) \<Rightarrow> 'a list \<Rightarrow> 'b option" where
  "find_map f xs = (case List.map_filter f xs of [] \<Rightarrow> None | y # _ \<Rightarrow> Some y)"

definition get_file_starting_with :: "string \<Rightarrow> VFSDirectory \<Rightarrow> fileref option" where
  "get_file_starting_with pfx d =
     (case Option.bind (bt_get pfx (prefix_index d)) (\<lambda>n. bt_get n (children d)) of
        Some (File f) \<Rightarrow> Some f
      | _ \<Rightarrow> find_map (\<lambda>(name, nd). if starts_with pfx name
                              then (case nd of File f \<Rightarrow> Some f | Dir _ \<Rightarrow> None) else None) (children d))"

definition dir_get :: "string \<Rightarrow> VFSDirectory \<Rightarrow> node option" where
  "dir_get name d = bt_get name (children d)"

definition dir_list :: "VFSDirectory \<Rightarrow> string list" where
  "dir_list d = map fst (children d)"

text \<open>\<open>FsNode\<close> of a file or directory; the root is its own parent and keeps it.\<close>

fun get_name :: "Vfs \<Rightarrow> node \<Rightarrow> string" where
  "get_name V (File f) = hf_name (vfiles V f)"
| "get_name V (Dir d) = (if d = 0 then [] else dir_name (vdirs V d))"

fun get_parent_dir :: "Vfs \<Rightarrow> node \<Rightarrow> dirref option" where
  "get_parent_dir V (File f) = hf_parent (vfiles V f)"
| "get_parent_dir V (Dir d) = (if d = 0 then Some 0 else dir_parent (vdirs V d))"

fun set_parent_dir :: "Vfs \<Rightarrow> node \<Rightarrow> dirref option \<Rightarrow> Vfs" where
  "set_parent_dir V (File f) p = V\<lparr> vfiles := (vfiles V)(f := (vfiles V f)\<lparr> hf_parent := p \<rparr>) \<rparr>"
| "set_parent_dir V (Dir d) p =
     (if d = 0 then V else V\<lparr> vdirs := (vdirs V)(d := (vdirs V d)\<lparr> dir_parent := p \<rparr>) \<rparr>)"

definition dir_update :: "dirref \<Rightarrow> (VFSDirectory \<Rightarrow> VFSDirectory) \<Rightarrow> Vfs \<Rightarrow> Vfs" where
  "dir_update d g V = V\<lparr> vdirs := (vdirs V)(d := g (vdirs V d)) \<rparr>"

text \<open>\<open>insert\<close> and \<open>remove\<close> of both kinds of directories; the root has no prefix index.\<close>

definition dir_insert :: "dirref \<Rightarrow> node \<Rightarrow> Vfs \<Rightarrow> node option \<times> Vfs" where
  "dir_insert d nd V =
     (let name = get_name V nd;
          old = bt_get name (children (vdirs V d));
          V1 = dir_update d (\<lambda>dir. let dir' = (if d = 0 then dir else index_insert name dir)
                                   in dir'\<lparr> children := bt_insert name nd (children dir') \<rparr>) V
      in (old, case old of Some nd' \<Rightarrow> set_parent_dir V1 nd' None | None \<Rightarrow> V1))"

definition dir_remove :: "dirref \<Rightarrow> node \<Rightarrow> Vfs \<Rightarrow> node option \<times> Vfs" where
  "dir_remove d nd V =
     (if d = 0 \<and> nd = Dir 0 then (None, V)
      else let name = get_name V nd;
               old = bt_get name (children (vdirs V d));
               V1 = dir_update d (\<lambda>dir. let dir' = (if d = 0 then dir else index_remove name dir)
                                        in dir'\<lparr> children := bt_remove name (children dir') \<rparr>) V
           in (old, case old of Some nd' \<Rightarrow> set_parent_dir V1 nd' None | None \<Rightarrow> V1))"

text \<open>\<open>HeapFile::from_vec\<close>, \<open>HeapFile::create\<close>, \<open>VFSDirectory::create\<close> and the initial root.\<close>

definition heapfile_from_vec :: "u8 list \<Rightarrow> string \<Rightarrow> dirref \<Rightarrow> Vfs \<Rightarrow> fileref \<times> Vfs" where
  "heapfile_from_vec vec name par V =
     (let f = next_file V;
          V1 = V\<lparr> vfiles := (vfiles V)(f := \<lparr> hf_name = name, hf_vec = vec, hf_parent = Some par \<rparr>),
                  next_file := f + 1 \<rparr>
      in (f, snd (dir_insert par (File f) V1)))"

definition heapfile_create :: "string \<Rightarrow> dirref \<Rightarrow> Vfs \<Rightarrow> fileref \<times> Vfs" where
  "heapfile_create name par V = heapfile_from_vec [] name par V"

definition vfsdir_create :: "string \<Rightarrow> dirref \<Rightarrow> Vfs \<Rightarrow> dirref \<times> Vfs" where
  "vfsdir_create name par V =
     (let d = next_dir V;
          V1 = V\<lparr> vdirs := (vdirs V)(d := \<lparr> dir_name = name, children = [], dir_parent = Some par, prefix_index = [] \<rparr>),
                  next_dir := d + 1 \<rparr>
      in (d, snd (dir_insert par (Dir d) V1)))"

definition vfs_init :: Vfs where
  "vfs_init =
     \<lparr> vfiles = (\<lambda>_. \<lparr> hf_name = [], hf_vec = [], hf_parent = None \<rparr>),
       vdirs = (\<lambda>_. \<lparr> dir_name = [], children = [], dir_parent = None, prefix_index = [] \<rparr>),
       next_file = 0, next_dir = 1 \<rparr>"

text \<open>Writing through a file reference.\<close>

definition vfs_write :: "fileref \<Rightarrow> u8 list \<Rightarrow> usize \<Rightarrow> Vfs \<Rightarrow> (nat \<times> Vfs) option" where
  "vfs_write f buffer offset V =
     map_option (\<lambda>(n, h). (n, V\<lparr> vfiles := (vfiles V)(f := h) \<rparr>)) (write_at (vfiles V f) buffer offset)"

text \<open>\<open>get_absolute_path\<close>: the recursion over the parents, which need not end in a cyclic tree.\<close>

partial_function (option) get_absolute_path :: "Vfs \<Rightarrow> node \<Rightarrow> string option" where
  "get_absolute_path V nd =
     (if nd = Dir 0 then Some ''/''
      else case get_parent_dir V nd of
        None \<Rightarrow> Some (get_name V nd)
      | Some cur_dir \<Rightarrow> do {
          parent_path \<leftarrow> get_absolute_path V (Dir cur_dir);
          Some (if parent_path = ''/'' then parent_path @ get_name V nd
                else parent_path @ ''/'' @ get_name V nd)
        })"

text \<open>The file system that path lookup sees.\<close>

definition vfs_fs :: "Vfs \<Rightarrow> (fileref, dirref) fs" where
  "vfs_fs V =
     \<lparr> fs_root = 0, fs_lookup = (\<lambda>d name. dir_get name (vdirs V d)), fs_parent = (\<lambda>d. get_parent_dir V (Dir d)) \<rparr>"

section \<open>Looking up a file by the start of its name\<close>

text \<open>Every entry of the prefix index leads to a name with that prefix, which may be gone.\<close>

definition index_ok :: "VFSDirectory \<Rightarrow> bool" where
  "index_ok d \<longleftrightarrow> bt_ok (children d) \<and> bt_ok (prefix_index d) \<and>
     (\<forall>p n. bt_get p (prefix_index d) = Some n \<longrightarrow> starts_with p n)"

lemmas bt_upd = btm.get_insert btm.get_remove bt_ok_insert bt_ok_remove

lemma starts_with_index_prefix: "starts_with (index_prefix name) name"
  by (auto simp: index_prefix_def starts_with_def min_def position_Some split: option.split)

lemma index_insert_ok: "index_ok d \<Longrightarrow> index_ok (index_insert name d) \<and> children (index_insert name d) = children d"
  by (auto simp: index_ok_def index_insert_def Let_def bt_upd starts_with_index_prefix split: if_splits)

lemma index_remove_ok:
  assumes ok: "index_ok d"
  shows "index_ok (index_remove name d) \<and> children (index_remove name d) = children d"
proof -
  let ?p = "index_prefix name" and ?ks = "filter (\<lambda>k. starts_with (index_prefix name) k \<and> k \<noteq> name) (map fst (children d))"
  have l: "starts_with ?p (last ?ks)" if "?ks \<noteq> []"
    using last_in_set [OF that] by simp
  show ?thesis
  proof (cases ?ks)
    case Nil
    then show ?thesis using ok by (auto simp: index_ok_def index_remove_def Let_def bt_upd split: if_splits)
  next
    case (Cons k ks)
    then have "starts_with ?p (last (k # ks))" using l by simp
    then show ?thesis using ok Cons
      by (auto simp: index_ok_def index_remove_def Let_def bt_upd simp del: last.simps split: if_splits)
  qed
qed

lemma find_map_Some: "find_map f xs = Some y \<Longrightarrow> \<exists>x \<in> set xs. f x = Some y"
  by (induction xs) (auto simp: find_map_def List.map_filter_def split: list.splits option.splits if_splits)

lemma find_map_None: "find_map f xs = None \<longleftrightarrow> (\<forall>x \<in> set xs. f x = None)"
  by (induction xs) (auto simp: find_map_def List.map_filter_def split: list.splits option.splits)

lemma get_file_starting_with_ok:
  assumes ok: "index_ok d"
  shows "case get_file_starting_with p d of
      Some f \<Rightarrow> \<exists>n. starts_with p n \<and> bt_get n (children d) = Some (File f)
    | None \<Rightarrow> \<forall>n f. starts_with p n \<longrightarrow> bt_get n (children d) \<noteq> Some (File f)"
proof -
  let ?scan = "find_map (\<lambda>(name, nd). if starts_with p name
      then (case nd of File f \<Rightarrow> Some f | Dir _ \<Rightarrow> None) else None) (children d)"
  have get: "bt_get n (children d) = Some nd \<longleftrightarrow> (n, nd) \<in> set (children d)" for n nd
    using ok by (simp add: index_ok_def btm.get_iff)
  have scan: "case ?scan of
      Some f \<Rightarrow> \<exists>n. starts_with p n \<and> bt_get n (children d) = Some (File f)
    | None \<Rightarrow> \<forall>n f. starts_with p n \<longrightarrow> bt_get n (children d) \<noteq> Some (File f)"
  proof (cases ?scan)
    case None
    then have "\<not> starts_with p n" if "(n, File f) \<in> set (children d)" for n f
      using that unfolding find_map_None by (auto dest: bspec split: if_splits)
    then show ?thesis unfolding None option.case get by blast
  next
    case (Some f)
    from find_map_Some [OF this] show ?thesis using Some
      by (auto simp: get split: if_splits FileOrDir.splits)
  qed
  show ?thesis
  proof (cases "\<exists>n f. bt_get p (prefix_index d) = Some n \<and> bt_get n (children d) = Some (File f)")
    case True
    then obtain n f where n: "bt_get p (prefix_index d) = Some n" "bt_get n (children d) = Some (File f)" by blast
    then have "starts_with p n" using ok by (simp add: index_ok_def)
    moreover have "get_file_starting_with p d = Some f" using n by (simp add: get_file_starting_with_def)
    ultimately show ?thesis using n(2) by auto
  next
    case False
    then have "get_file_starting_with p d = ?scan"
      by (auto simp: get_file_starting_with_def split: option.splits FileOrDir.splits Option.bind_splits)
    then show ?thesis using scan by simp
  qed
qed

section \<open>Well-formed trees\<close>

text \<open>
  Every child carries the name it is filed under and refers to its directory as parent; names are
  single path components, and directories are newer than their parents.
\<close>

definition valid_name :: "string \<Rightarrow> bool" where
  "valid_name n \<longleftrightarrow> n \<noteq> [] \<and> n \<noteq> ''.'' \<and> n \<noteq> ''..'' \<and> SEPARATOR \<notin> set n"

definition node_in :: "dirref \<Rightarrow> node \<Rightarrow> Vfs \<Rightarrow> bool" where
  "node_in d nd V \<longleftrightarrow> valid_name (get_name V nd) \<and> get_parent_dir V nd = Some d \<and>
     (case nd of File f \<Rightarrow> f < next_file V | Dir e \<Rightarrow> d < e \<and> e < next_dir V)"

definition child :: "Vfs \<Rightarrow> dirref \<Rightarrow> string \<Rightarrow> node \<Rightarrow> bool" where
  "child V d n nd \<longleftrightarrow> bt_get n (children (vdirs V d)) = Some nd"

definition wf_vfs :: "Vfs \<Rightarrow> bool" where
  "wf_vfs V \<longleftrightarrow> 0 < next_dir V \<and> (\<forall>d < next_dir V. index_ok (vdirs V d)) \<and>
     (\<forall>d n nd. d < next_dir V \<longrightarrow> child V d n nd \<longrightarrow> get_name V nd = n \<and> node_in d nd V)"

lemma wf_vfsD:
  assumes "wf_vfs V"
  shows "0 < next_dir V" "d < next_dir V \<Longrightarrow> index_ok (vdirs V d)"
    "d < next_dir V \<Longrightarrow> child V d n nd \<Longrightarrow> get_name V nd = n \<and> node_in d nd V"
  using assms by (simp_all add: wf_vfs_def)

lemma wf_init: "wf_vfs vfs_init"
  by (simp add: wf_vfs_def vfs_init_def index_ok_def bt_ok_def child_def bt_get_def)

text \<open>Changing the children of a directory and the parent of a node that is no child.\<close>

lemma dir_update_nodes:
  assumes "dir_name (g (vdirs V d)) = dir_name (vdirs V d)" "dir_parent (g (vdirs V d)) = dir_parent (vdirs V d)"
  shows "get_name (dir_update d g V) nd = get_name V nd" "get_parent_dir (dir_update d g V) nd = get_parent_dir V nd"
    "next_file (dir_update d g V) = next_file V" "next_dir (dir_update d g V) = next_dir V"
  using assms by (cases nd; simp add: dir_update_def)+

lemma node_in_cong:
  "get_name V' nd = get_name V nd \<Longrightarrow> get_parent_dir V' nd = get_parent_dir V nd \<Longrightarrow>
   next_file V \<le> next_file V' \<Longrightarrow> next_dir V \<le> next_dir V' \<Longrightarrow> node_in d nd V \<Longrightarrow> node_in d nd V'"
  by (auto simp: node_in_def split: FileOrDir.splits)

lemma set_parent_nodes:
  "get_name (set_parent_dir V x p) nd = get_name V nd"
  "nd \<noteq> x \<Longrightarrow> get_parent_dir (set_parent_dir V x p) nd = get_parent_dir V nd"
  "next_file (set_parent_dir V x p) = next_file V" "next_dir (set_parent_dir V x p) = next_dir V"
  "children (vdirs (set_parent_dir V x p) d) = children (vdirs V d)"
  "prefix_index (vdirs (set_parent_dir V x p) d) = prefix_index (vdirs V d)"
  by (cases x; cases nd; simp)+

lemma wf_set_parent:
  assumes wf: "wf_vfs V" and x: "\<And>d n. d < next_dir V \<Longrightarrow> \<not> child V d n x"
  shows "wf_vfs (set_parent_dir V x p)"
  unfolding wf_vfs_def
proof (intro conjI allI impI)
  show "0 < next_dir (set_parent_dir V x p)" using wf by (simp add: set_parent_nodes wf_vfsD)
next
  fix d assume "d < next_dir (set_parent_dir V x p)"
  then show "index_ok (vdirs (set_parent_dir V x p) d)"
    using wf_vfsD(2) [OF wf, of d] by (simp add: set_parent_nodes index_ok_def)
next
  fix d n nd assume d: "d < next_dir (set_parent_dir V x p)" "child (set_parent_dir V x p) d n nd"
  then have c: "d < next_dir V" "child V d n nd" by (simp_all add: set_parent_nodes child_def)
  then have "nd \<noteq> x" using x by blast
  then show "get_name (set_parent_dir V x p) nd = n" "node_in d nd (set_parent_dir V x p)"
    using wf_vfsD(3) [OF wf c] by (auto simp: set_parent_nodes intro: node_in_cong)
qed

text \<open>A node is filed in one place only.\<close>

lemma child_unique:
  assumes "wf_vfs V" "d < next_dir V" "child V d n nd" "d' < next_dir V" "child V d' n' nd"
  shows "d' = d \<and> n' = n"
  using wf_vfsD(3) [OF assms(1,2,3)] wf_vfsD(3) [OF assms(1,4,5)] by (simp add: node_in_def)

lemma wf_dir_update:
  fixes V d g defines "V1 \<equiv> dir_update d g V"
  assumes wf: "wf_vfs V" and d: "d < next_dir V"
    and g: "dir_name (g (vdirs V d)) = dir_name (vdirs V d)" "dir_parent (g (vdirs V d)) = dir_parent (vdirs V d)"
    and ok: "index_ok (g (vdirs V d))"
    and new: "\<And>n nd. bt_get n (children (g (vdirs V d))) = Some nd \<Longrightarrow>
      child V d n nd \<or> n = get_name V nd \<and> node_in d nd V"
  shows "wf_vfs V1"
  unfolding wf_vfs_def
proof (intro conjI allI impI)
  note N = dir_update_nodes [where V = V and d = d and g = g, OF g, folded V1_def]
  show "0 < next_dir V1" using wf by (simp add: N wf_vfsD)
  fix e assume "e < next_dir V1"
  then have e: "e < next_dir V" by (simp add: N)
  show "index_ok (vdirs V1 e)" using wf_vfsD(2) [OF wf e] ok by (simp add: V1_def dir_update_def)
  fix n nd assume "child V1 e n nd"
  then have "child V e n nd \<or> n = get_name V nd \<and> node_in e nd V"
    using new by (auto simp: V1_def dir_update_def child_def split: if_splits)
  then have "n = get_name V nd \<and> node_in e nd V" using wf_vfsD(3) [OF wf e] by blast
  then show "get_name V1 nd = n" "node_in e nd V1" by (auto simp: N intro: node_in_cong)
qed

lemma wf_dir_insert:
  assumes wf: "wf_vfs V" and d: "d < next_dir V" and nd: "node_in d nd V"
    and fresh: "\<And>e n. e < next_dir V \<Longrightarrow> \<not> child V e n nd"
  shows "wf_vfs (snd (dir_insert d nd V))" "child (snd (dir_insert d nd V)) d (get_name V nd) nd"
    "next_dir (snd (dir_insert d nd V)) = next_dir V"
proof -
  let ?n = "get_name V nd"
  let ?g = "\<lambda>dir. let dir' = (if d = 0 then dir else index_insert ?n dir)
                   in dir'\<lparr> children := bt_insert ?n nd (children dir') \<rparr>"
  let ?V = "dir_update d ?g V"
  have ok: "index_ok (vdirs V d)" using wf d by (simp add: wf_vfsD)
  note I = index_insert_ok [OF ok, of ?n]
  have g: "dir_name (?g (vdirs V d)) = dir_name (vdirs V d)" "dir_parent (?g (vdirs V d)) = dir_parent (vdirs V d)"
    by (auto simp: Let_def index_insert_def)
  have ch: "children (?g (vdirs V d)) = bt_insert ?n nd (children (vdirs V d))" using I by (simp add: Let_def)
  have gok: "index_ok (?g (vdirs V d))" using ok I by (cases "d = 0") (auto simp: Let_def index_ok_def bt_ok_insert)
  have bt: "bt_ok (children (vdirs V d))" using ok by (simp add: index_ok_def)
  have wf1: "wf_vfs ?V" using nd
    by (intro wf_dir_update [where V = V and d = d and g = ?g, OF wf d g gok]) (auto simp: ch bt_upd bt child_def split: if_splits)
  have c1: "child ?V e n x \<longleftrightarrow> (if e = d \<and> n = ?n then x = nd else child V e n x)" for e n x
    using ch by (auto simp: child_def dir_update_def bt_upd bt)
  have n1: "next_dir ?V = next_dir V" by (simp add: dir_update_def)
  have old: "\<not> child ?V e n x" if x: "child V d ?n x" and e: "e < next_dir ?V" for e n x
  proof
    assume c: "child ?V e n x"
    show False
    proof (cases "e = d \<and> n = ?n")
      case True
      then show False using c c1 fresh [OF d] x by auto
    next
      case False
      then have "child V e n x" using c c1 by simp
      then show False using child_unique [OF wf d x] e n1 False by simp
    qed
  qed
  have V': "snd (dir_insert d nd V) =
      (case bt_get ?n (children (vdirs V d)) of Some x \<Rightarrow> set_parent_dir ?V x None | None \<Rightarrow> ?V)"
    unfolding dir_insert_def Let_def snd_conv ..
  show "wf_vfs (snd (dir_insert d nd V))" unfolding V'
    using wf1 wf_set_parent [OF wf1 old] by (auto simp: child_def split: option.split)
  show "child (snd (dir_insert d nd V)) d ?n nd" unfolding V'
    using c1 [of d ?n nd] by (auto simp: child_def set_parent_nodes split: option.split)
  show "next_dir (snd (dir_insert d nd V)) = next_dir V" unfolding V'
    by (auto simp: n1 set_parent_nodes split: option.split)
qed

lemma wf_dir_remove:
  assumes wf: "wf_vfs V" and d: "d < next_dir V"
  shows "wf_vfs (snd (dir_remove d nd V))"
proof (cases "d = 0 \<and> nd = Dir 0")
  case False
  let ?n = "get_name V nd"
  let ?g = "\<lambda>dir. let dir' = (if d = 0 then dir else index_remove ?n dir)
                   in dir'\<lparr> children := bt_remove ?n (children dir') \<rparr>"
  let ?V = "dir_update d ?g V"
  have ok: "index_ok (vdirs V d)" using wf d by (simp add: wf_vfsD)
  note I = index_remove_ok [OF ok, of ?n]
  have g: "dir_name (?g (vdirs V d)) = dir_name (vdirs V d)" "dir_parent (?g (vdirs V d)) = dir_parent (vdirs V d)"
    by (auto simp: Let_def index_remove_def split: list.split)
  have ch: "children (?g (vdirs V d)) = bt_remove ?n (children (vdirs V d))" using I by (simp add: Let_def)
  have gok: "index_ok (?g (vdirs V d))" using ok I by (cases "d = 0") (auto simp: Let_def index_ok_def bt_ok_remove)
  have bt: "bt_ok (children (vdirs V d))" using ok by (simp add: index_ok_def)
  have wf1: "wf_vfs ?V"
    by (intro wf_dir_update [where V = V and d = d and g = ?g, OF wf d g gok]) (auto simp: ch bt_upd bt child_def split: if_splits)
  have c1: "child ?V e n x \<longleftrightarrow> \<not> (e = d \<and> n = ?n) \<and> child V e n x" for e n x
    using ch by (auto simp: child_def dir_update_def bt_upd bt)
  have n1: "next_dir ?V = next_dir V" by (simp add: dir_update_def)
  have old: "\<not> child ?V e n x" if x: "child V d ?n x" and e: "e < next_dir ?V" for e n x
    using child_unique [OF wf d x] e n1 c1 by auto
  have V': "snd (dir_remove d nd V) =
      (case bt_get ?n (children (vdirs V d)) of Some x \<Rightarrow> set_parent_dir ?V x None | None \<Rightarrow> ?V)"
    unfolding dir_remove_def Let_def if_not_P [OF False] snd_conv ..
  show ?thesis unfolding V'
    using wf1 wf_set_parent [OF wf1 old] by (auto simp: child_def split: option.split)
qed (simp add: dir_remove_def wf)

lemma wf_heapfile_from_vec:
  assumes wf: "wf_vfs V" and d: "d < next_dir V" and n: "valid_name name"
  shows "wf_vfs (snd (heapfile_from_vec vec name d V))"
    "child (snd (heapfile_from_vec vec name d V)) d name (File (next_file V))"
    "next_dir (snd (heapfile_from_vec vec name d V)) = next_dir V"
proof -
  let ?f = "next_file V"
  let ?V = "V\<lparr> vfiles := (vfiles V)(?f := \<lparr> hf_name = name, hf_vec = vec, hf_parent = Some d \<rparr>), next_file := Suc ?f \<rparr>"
  have same: "get_name ?V nd = get_name V nd" "get_parent_dir ?V nd = get_parent_dir V nd" if "nd \<noteq> File ?f" for nd
    using that by (cases nd; simp)+
  have fresh: "\<not> child V e m (File ?f)" if "e < next_dir V" for e m
    using wf_vfsD(3) [OF wf that, of m "File ?f"] by (auto simp: node_in_def)
  have ch: "child ?V e m x \<longleftrightarrow> child V e m x" for e m x by (simp add: child_def)
  have "wf_vfs ?V" unfolding wf_vfs_def
  proof (intro conjI allI impI)
    fix e m x assume e: "e < next_dir ?V" "child ?V e m x"
    then have e': "e < next_dir V" "child V e m x" by (simp_all add: ch)
    then have "x \<noteq> File ?f" using fresh by auto
    then show "get_name ?V x = m" "node_in e x ?V"
      using wf_vfsD(3) [OF wf e'] same [of x] node_in_cong [of ?V x V] by auto
  qed (use wf in \<open>simp_all add: wf_vfsD\<close>)
  moreover have "node_in d (File ?f) ?V" using n by (simp add: node_in_def)
  moreover have "\<not> child ?V e m (File ?f)" if "e < next_dir ?V" for e m using fresh that by (simp add: ch)
  ultimately show "wf_vfs (snd (heapfile_from_vec vec name d V))"
    "child (snd (heapfile_from_vec vec name d V)) d name (File ?f)"
    "next_dir (snd (heapfile_from_vec vec name d V)) = next_dir V"
    using wf_dir_insert [of ?V d "File ?f"] d by (simp_all add: heapfile_from_vec_def Let_def)
qed

lemma wf_vfsdir_create:
  assumes wf: "wf_vfs V" and d: "d < next_dir V" and n: "valid_name name"
  shows "wf_vfs (snd (vfsdir_create name d V))"
    "child (snd (vfsdir_create name d V)) d name (Dir (next_dir V))"
proof -
  let ?e = "next_dir V"
  let ?V = "V\<lparr> vdirs := (vdirs V)(?e := \<lparr> dir_name = name, children = [], dir_parent = Some d, prefix_index = [] \<rparr>), next_dir := Suc ?e \<rparr>"
  have e0: "?e \<noteq> 0" using wf_vfsD(1) [OF wf] by simp
  have same: "get_name ?V nd = get_name V nd" "get_parent_dir ?V nd = get_parent_dir V nd" if "nd \<noteq> Dir ?e" for nd
    using that by (cases nd; simp)+
  have fresh: "\<not> child V x m (Dir ?e)" if "x < next_dir V" for x m
    using wf_vfsD(3) [OF wf that, of m "Dir ?e"] by (auto simp: node_in_def)
  have ch: "child ?V x m nd \<longleftrightarrow> x \<noteq> ?e \<and> child V x m nd" for x m nd by (simp add: child_def bt_get_def)
  have "wf_vfs ?V" unfolding wf_vfs_def
  proof (intro conjI allI impI)
    fix x assume "x < next_dir ?V"
    then show "index_ok (vdirs ?V x)" using wf_vfsD(2) [OF wf, of x] by (auto simp: index_ok_def bt_ok_def bt_get_def)
    fix m nd assume "child ?V x m nd"
    then have x: "x < next_dir V" "child V x m nd" using \<open>x < next_dir ?V\<close> by (auto simp: ch)
    then have "nd \<noteq> Dir ?e" using fresh by auto
    then show "get_name ?V nd = m" "node_in x nd ?V"
      using wf_vfsD(3) [OF wf x] same [of nd] node_in_cong [of ?V nd V] by auto
  qed simp
  moreover have "node_in d (Dir ?e) ?V" using n d e0 by (simp add: node_in_def)
  moreover have "\<not> child ?V x m (Dir ?e)" if "x < next_dir ?V" for x m using fresh that by (auto simp: ch)
  ultimately show "wf_vfs (snd (vfsdir_create name d V))" "child (snd (vfsdir_create name d V)) d name (Dir ?e)"
    using wf_dir_insert [of ?V d "Dir ?e"] d e0 by (simp_all add: vfsdir_create_def Let_def)
qed

lemma vfs_write_nodes:
  assumes "vfs_write f bs off V = Some (n, V')"
  shows "get_name V' nd = get_name V nd" "get_parent_dir V' nd = get_parent_dir V nd" "vdirs V' = vdirs V"
    "next_file V' = next_file V" "next_dir V' = next_dir V" "g \<noteq> f \<Longrightarrow> vfiles V' g = vfiles V g"
  using assms by (cases nd; auto simp: vfs_write_def write_at_def Let_def split: if_splits)+

lemma wf_vfs_write:
  assumes "wf_vfs V" "vfs_write f bs off V = Some (n, V')"
  shows "wf_vfs V'"
  using assms(1) by (auto simp: wf_vfs_def child_def vfs_write_nodes [OF assms(2)] node_in_cong [of V' _ V])

text \<open>The file systems that creating, writing and removing files and directories can build.\<close>

inductive vfs_reachable :: "Vfs \<Rightarrow> bool" where
  init: "vfs_reachable vfs_init"
| new_file: "vfs_reachable V \<Longrightarrow> d < next_dir V \<Longrightarrow> valid_name name \<Longrightarrow>
    vfs_reachable (snd (heapfile_from_vec vec name d V))"
| new_dir: "vfs_reachable V \<Longrightarrow> d < next_dir V \<Longrightarrow> valid_name name \<Longrightarrow> vfs_reachable (snd (vfsdir_create name d V))"
| write_file: "vfs_reachable V \<Longrightarrow> vfs_write f bs off V = Some (n, V') \<Longrightarrow> vfs_reachable V'"
| remove: "vfs_reachable V \<Longrightarrow> d < next_dir V \<Longrightarrow> vfs_reachable (snd (dir_remove d nd V))"

lemma reachable_wf: "vfs_reachable V \<Longrightarrow> wf_vfs V"
  by (induction rule: vfs_reachable.induct)
    (simp_all add: wf_init wf_heapfile_from_vec wf_vfsdir_create wf_dir_remove wf_vfs_write)

section \<open>Absolute paths\<close>

text \<open>The nodes that hang on the root.\<close>

inductive linked :: "Vfs \<Rightarrow> node \<Rightarrow> bool" for V where
  root: "linked V (Dir 0)"
| child: "linked V (Dir d) \<Longrightarrow> d < next_dir V \<Longrightarrow> child V d n nd \<Longrightarrow> linked V nd"

lemma get_loop_snoc:
  "get_loop F (cs @ [Normal n]) cur =
     (case get_loop F cs cur of Some (Dir d) \<Rightarrow> fs_lookup F d n | _ \<Rightarrow> None)"
  by (induction F cs cur rule: get_loop.induct) (auto split: option.split FileOrDir.split)

lemma path_get_parse:
  "path_get F p cwd = Some (case parse p of RootDir # iter \<Rightarrow> get_loop F iter (fs_root F) | _ \<Rightarrow> get_loop F (parse p) cwd)"
  using collect_remaining [of "Components_new p"] by (simp add: path_get_def)

lemma parse_valid_name: "valid_name n \<Longrightarrow> parse_body n = [Normal n] \<and> parse n = [Normal n] \<and> \<not> is_absolute n"
  by (cases n) (auto simp: valid_name_def parse_body_whole component_def parse_def is_absolute_def starts_with_Cons
      SEPARATOR_def)

lemma linked_lookup:
  assumes wf: "wf_vfs V"
  shows "linked V nd \<Longrightarrow> \<exists>p cs. get_absolute_path V nd = Some p \<and> parse p = RootDir # cs \<and> get_loop (vfs_fs V) cs 0 = Some nd"
proof (induction rule: linked.induct)
  case root
  have "parse ''/'' = [RootDir]" by (simp add: parse_def starts_with_def SEPARATOR_def)
  then show ?case by (simp add: get_absolute_path.simps)
next
  case (child d n nd)
  then obtain p cs where p: "get_absolute_path V (Dir d) = Some p" "parse p = RootDir # cs"
    "get_loop (vfs_fs V) cs 0 = Some (Dir d)" by blast
  have nd: "get_name V nd = n" "valid_name n" "get_parent_dir V nd = Some d" "nd \<noteq> Dir 0"
    using wf_vfsD(3) [OF wf child.hyps(2,3)] by (auto simp: node_in_def)
  note n = parse_valid_name [OF nd(2)]
  let ?p = "if p = ''/'' then p @ n else p @ ''/'' @ n"
  have a: "get_absolute_path V nd = Some ?p" using p(1) nd by (simp add: get_absolute_path.simps [of V nd])
  have "parse ?p = parse p @ [Normal n]"
  proof (cases "p = ''/''")
    case True
    then show ?thesis using n by (simp add: parse_def starts_with_Cons SEPARATOR_def)
  next
    case False
    have "p \<noteq> []" using p(2) by (auto simp: parse_def starts_with_def)
    then show ?thesis using parse_join [of p n] n False
      by (simp add: path_join_def path_push_def SEPARATOR_def)
  qed
  moreover have "get_loop (vfs_fs V) (cs @ [Normal n]) 0 = Some nd"
    using p(3) child.hyps(3) by (simp add: get_loop_snoc vfs_fs_def dir_get_def child_def)
  ultimately show ?case using a p(2) by auto
qed

text \<open>
  C14. In every file system built by creating, writing and removing files and directories, the absolute
  path of a node that hangs on the root exists, and looking it up gives the node back.
\<close>

theorem absolute_path_roundtrip:
  assumes "vfs_reachable V" "linked V nd"
  shows "\<exists>p. get_absolute_path V nd = Some p \<and> path_get (vfs_fs V) p cwd = Some (Some nd)"
  using linked_lookup [OF reachable_wf [OF assms(1)] assms(2)]
  by (auto simp: path_get_parse) (auto simp: vfs_fs_def)

definition ex_vfs :: Vfs where
  "ex_vfs = snd (heapfile_from_vec [1, 2] ''b'' 1 (snd (vfsdir_create ''a'' 0 vfs_init)))"

lemma ex_vfs_reachable: "vfs_reachable ex_vfs"
proof -
  have "valid_name ''a''" "valid_name ''b''" by (simp_all add: valid_name_def SEPARATOR_def)
  moreover have "1 < next_dir (snd (vfsdir_create ''a'' 0 vfs_init))"
    by (simp add: vfsdir_create_def Let_def dir_insert_def vfs_init_def dir_update_def bt_get_def)
  ultimately show ?thesis unfolding ex_vfs_def
    by (intro vfs_reachable.intros) (simp_all add: vfs_init_def)
qed

lemma ex_vfs_linked: "linked ex_vfs (File 0)"
proof -
  have "child ex_vfs 0 ''a'' (Dir 1)" "child ex_vfs 1 ''b'' (File 0)" "0 < next_dir ex_vfs" "1 < next_dir ex_vfs"
    by code_simp+
  then show ?thesis by (blast intro: linked.intros)
qed

theorem absolute_path_roundtrip_witness:
  "\<exists>p. get_absolute_path ex_vfs (File 0) = Some p \<and> path_get (vfs_fs ex_vfs) p 1 = Some (Some (File 0))"
  by (rule absolute_path_roundtrip [OF ex_vfs_reachable ex_vfs_linked])

text \<open>
  Looking up a file by the start of its name finds one exactly when the directory has one: the prefix
  index never leads to a file with another name, and what it misses the scan finds.
\<close>

theorem prefix_lookup_complete:
  assumes "vfs_reachable V" "d < next_dir V"
  shows "case get_file_starting_with p (vdirs V d) of
      Some f \<Rightarrow> \<exists>n. starts_with p n \<and> dir_get n (vdirs V d) = Some (File f)
    | None \<Rightarrow> \<forall>n f. starts_with p n \<longrightarrow> dir_get n (vdirs V d) \<noteq> Some (File f)"
  using get_file_starting_with_ok [OF wf_vfsD(2) [OF reachable_wf [OF assms(1)] assms(2)], of p]
  unfolding dir_get_def .

theorem prefix_lookup_complete_witness:
  "case get_file_starting_with ''b'' (vdirs ex_vfs 1) of
      Some f \<Rightarrow> \<exists>n. starts_with ''b'' n \<and> dir_get n (vdirs ex_vfs 1) = Some (File f)
    | None \<Rightarrow> \<forall>n f. starts_with ''b'' n \<longrightarrow> dir_get n (vdirs ex_vfs 1) \<noteq> Some (File f)"
proof (rule prefix_lookup_complete [OF ex_vfs_reachable])
  show "1 < next_dir ex_vfs" by code_simp
qed

text \<open>
  Which file it finds depends on the index: a prefix that is indexed leads to the greatest name,
  any other to the least.
\<close>

definition ex_prefix_dir :: VFSDirectory where
  "ex_prefix_dir = vdirs (snd (heapfile_from_vec [] ''k-2'' 1 (snd (heapfile_from_vec [] ''k-1'' 1
     (snd (vfsdir_create ''a'' 0 vfs_init)))))) 1"

lemma prefix_lookup_order:
  "get_file_starting_with ''k-'' ex_prefix_dir = Some 1" "get_file_starting_with ''k'' ex_prefix_dir = Some 0"
  by code_simp+

end
