(* ===== verification/User_Memory.thy ===== *)
theory User_Memory
  imports Prelude "HOL-Library.Word"
begin

unbundle bit_operations_syntax

text \<open>
  The memory that the system calls read and write through raw pointers: a byte per 64-bit address.
  A pointer to a structure is the address of its little-endian bytes.  Reading a C string
  (\<open>read_c_string\<close> of \<open>kernel/maios_syscall/src/file_io.rs\<close>) scans at most 4096 bytes and checks
  that they are UTF-8, as \<open>core::str::from_utf8\<close> does.  Access to unmapped addresses is not modelled.
\<close>

type_synonym memory = "u64 \<Rightarrow> u8"

definition mem_read :: "memory \<Rightarrow> u64 \<Rightarrow> nat \<Rightarrow> u8 list" where
  "mem_read m p n = map (\<lambda>i. m (p + of_nat i)) [0..<n]"

definition mem_write :: "u64 \<Rightarrow> u8 list \<Rightarrow> memory \<Rightarrow> memory" where
  "mem_write p bs m = (\<lambda>a. if unat (a - p) < length bs then bs ! unat (a - p) else m a)"

definition to_le :: "nat \<Rightarrow> u64 \<Rightarrow> u8 list" where
  "to_le n w = map (\<lambda>i. ucast (drop_bit (8 * i) w)) [0..<n]"

definition from_le :: "u8 list \<Rightarrow> u64" where
  "from_le bs = foldr (\<lambda>b acc. ucast b OR push_bit 8 acc) bs 0"

definition read_u64 :: "memory \<Rightarrow> u64 \<Rightarrow> u64" where
  "read_u64 m p = from_le (mem_read m p 8)"

definition read_u32 :: "memory \<Rightarrow> u64 \<Rightarrow> u32" where
  "read_u32 m p = ucast (from_le (mem_read m p 4))"

section \<open>UTF-8\<close>

definition in_range :: "u8 \<Rightarrow> u8 \<Rightarrow> u8 \<Rightarrow> bool" where
  "in_range lo hi b \<longleftrightarrow> lo \<le> b \<and> b \<le> hi"

abbreviation continuation :: "u8 \<Rightarrow> bool" where
  "continuation \<equiv> in_range 0x80 0xBF"

text \<open>The second byte of a sequence of three and of four bytes.\<close>

definition second3 :: "u8 \<Rightarrow> u8 \<Rightarrow> bool" where
  "second3 a b \<longleftrightarrow>
     (if a = 0xE0 then in_range 0xA0 0xBF b else if a = 0xED then in_range 0x80 0x9F b
      else in_range 0xE1 0xEF a \<and> continuation b)"

definition second4 :: "u8 \<Rightarrow> u8 \<Rightarrow> bool" where
  "second4 a b \<longleftrightarrow>
     (if a = 0xF0 then in_range 0x90 0xBF b else if a = 0xF4 then in_range 0x80 0x8F b
      else in_range 0xF1 0xF3 a \<and> continuation b)"

fun valid_utf8 :: "u8 list \<Rightarrow> bool" where
  "valid_utf8 [] = True"
| "valid_utf8 (a # bs) =
     (if a < 0x80 then valid_utf8 bs
      else if in_range 0xC2 0xDF a
      then (case bs of b # bs' \<Rightarrow> continuation b \<and> valid_utf8 bs' | _ \<Rightarrow> False)
      else if in_range 0xE0 0xEF a
      then (case bs of b # c # bs' \<Rightarrow> second3 a b \<and> continuation c \<and> valid_utf8 bs' | _ \<Rightarrow> False)
      else if in_range 0xF0 0xF4 a
      then (case bs of b # c # d # bs' \<Rightarrow> second4 a b \<and> continuation c \<and> continuation d \<and> valid_utf8 bs' | _ \<Rightarrow> False)
      else False)"

section \<open>C strings\<close>

function c_string_loop :: "memory \<Rightarrow> u64 \<Rightarrow> nat \<Rightarrow> nat" where
  "c_string_loop m p len =
     (if len < 4096 then if m p = 0 then len else c_string_loop m (p + 1) (len + 1) else len)"
  by auto
termination by (relation "measure (\<lambda>(_, _, len). 4096 - len)") auto

declare c_string_loop.simps [simp del]

definition str_of :: "u8 list \<Rightarrow> string" where
  "str_of bs = map (\<lambda>b. char_of (unat b)) bs"

definition read_c_string :: "memory \<Rightarrow> u64 \<Rightarrow> string option" where
  "read_c_string m ptr =
     (if ptr = 0 then None
      else let len = c_string_loop m ptr 0
           in if len = 0 \<or> len \<ge> 4096 then None
              else let slice = mem_read m ptr len
                   in if valid_utf8 slice then Some (str_of slice) else None)"

section \<open>Reading back\<close>

lemma length_mem_read [simp]: "length (mem_read m p n) = n"
  by (simp add: mem_read_def)

lemma length_to_le [simp]: "length (to_le n w) = n"
  by (simp add: to_le_def)

lemma mem_read_nth [simp]: "i < n \<Longrightarrow> mem_read m p n ! i = m (p + of_nat i)"
  by (simp add: mem_read_def)

lemma mem_read_0 [simp]: "mem_read m p 0 = []"
  by (simp add: mem_read_def)

lemma mem_write_Nil [simp]: "mem_write p [] m = m"
  by (simp add: mem_write_def)

lemma mem_read_write_same:
  assumes "length bs \<le> 2 ^ 64"
  shows "mem_read (mem_write p bs m) p (length bs) = bs"
proof (rule nth_equalityI)
  fix i
  assume "i < length (mem_read (mem_write p bs m) p (length bs))"
  then have i: "i < length bs" by simp
  then have "unat (of_nat i :: u64) = i" using assms by (simp add: unat_of_nat)
  then show "mem_read (mem_write p bs m) p (length bs) ! i = bs ! i" using i by (simp add: mem_write_def)
qed simp

lemma mem_write_other: "length bs \<le> unat (a - p) \<Longrightarrow> mem_write p bs m a = m a"
  by (simp add: mem_write_def)

lemma mem_read_append: "mem_read m p (i + j) = mem_read m p i @ mem_read m (p + of_nat i) j"
  by (rule nth_equalityI) (auto simp: nth_append add.assoc simp flip: of_nat_add)

text \<open>The bytes of a word give the word back.\<close>

lemma from_le_simps: "from_le [] = 0" "from_le (b # bs) = ucast b OR push_bit 8 (from_le bs)"
  by (simp_all add: from_le_def)

lemma from_to_le: "n \<le> 8 \<Longrightarrow> from_le (to_le n w) = take_bit (8 * n) w"
proof (induction n arbitrary: w)
  case 0
  then show ?case by (simp add: to_le_def from_le_simps)
next
  case (Suc n)
  have "to_le (Suc n) w = ucast w # to_le n (drop_bit 8 w)"
    by (rule nth_equalityI) (auto simp: to_le_def nth_Cons' drop_bit_drop_bit nth_append less_Suc_eq
        simp del: upt_Suc intro!: arg_cong [where f = "\<lambda>k. ucast (drop_bit k w)"])
  then show ?case using Suc
    by (simp add: from_le_simps) (rule bit_word_eqI, auto simp: bit_simps)
qed

text \<open>
  Scanning a C string finds the first zero byte, and gives up after 4096 bytes.
\<close>

lemma c_string_loop_spec:
  "len \<le> 4096 \<Longrightarrow> c_string_loop m p len \<le> 4096 \<and> len \<le> c_string_loop m p len \<and>
     (\<forall>i < c_string_loop m p len - len. m (p + of_nat i) \<noteq> 0) \<and>
     (c_string_loop m p len < 4096 \<longrightarrow> m (p + of_nat (c_string_loop m p len - len)) = 0)"
proof (induction m p len rule: c_string_loop.induct)
  case (1 m p len)
  show ?case
  proof (cases "len < 4096 \<and> m p \<noteq> 0")
    case False
    then show ?thesis using 1(2) by (auto simp: c_string_loop.simps [of m p len])
  next
    case True
    let ?r = "c_string_loop m (p + 1) (len + 1)"
    have r: "c_string_loop m p len = ?r" using True by (subst c_string_loop.simps) simp
    have IH: "?r \<le> 4096" "len + 1 \<le> ?r" "\<forall>i < ?r - (len + 1). m (p + 1 + of_nat i) \<noteq> 0"
      "?r < 4096 \<longrightarrow> m (p + 1 + of_nat (?r - (len + 1))) = 0"
      using 1(1) True by auto
    have "m (p + of_nat i) \<noteq> 0" if "i < ?r - len" for i
    proof (cases i)
      case (Suc j)
      then show ?thesis using IH(3) that by (auto simp: add.assoc)
    qed (use True in simp)
    moreover have "?r - len = Suc (?r - (len + 1))" using IH(2) by simp
    ultimately show ?thesis using IH(1,2,4) unfolding r by (simp add: add.assoc)
  qed
qed

lemma c_string_loop_exact:
  assumes "0 \<notin> set (mem_read m p n)" "m (p + of_nat n) = 0" "n < 4096"
  shows "c_string_loop m p 0 = n"
proof -
  let ?r = "c_string_loop m p 0"
  have r: "?r \<le> 4096" "\<forall>i < ?r. m (p + of_nat i) \<noteq> 0" "?r < 4096 \<longrightarrow> m (p + of_nat ?r) = 0"
    using c_string_loop_spec [of 0 m p] by auto
  have "\<not> n < ?r" using r(2) assms(2) by blast
  moreover have "\<not> ?r < n" using r(3) assms(1,3) by (auto simp: mem_read_def image_iff)
  ultimately show ?thesis by simp
qed

lemma read_c_string_Some:
  "read_c_string m ptr = Some s \<Longrightarrow> \<exists>n. 0 < n \<and> n < 4096 \<and> s = str_of (mem_read m ptr n) \<and> ptr \<noteq> 0"
  by (auto simp: read_c_string_def Let_def split: if_splits)

lemma read_c_string_nonempty: "read_c_string m ptr = Some s \<Longrightarrow> s \<noteq> []"
  by (drule read_c_string_Some) (auto simp: str_of_def mem_read_def)

end
