(* ===== verification/File_Syscalls.thy ===== *)
theory File_Syscalls
  imports Vfs User_Memory "HOL-Library.Monad_Syntax"
begin

unbundle bit_operations_syntax

text \<open>
  The file system calls (\<open>kernel/maios_syscall/src/file_io.rs\<close>).  A call takes the environment of the
  calling task and the state of the kernel, and returns its result with the new state; \<open>None\<close> is a
  panic.  The standard streams of \<open>app_io\<close> are trait objects and appear as operations of the environment on
  a state of their own; a failed stream is \<open>None\<close>.  Log messages are not modelled.
\<close>

record 'io sys_env =
  stdin_read :: "nat \<Rightarrow> 'io \<Rightarrow> u8 list option \<times> 'io"
  stdout_write :: "u8 list \<Rightarrow> 'io \<Rightarrow> nat option \<times> 'io"
  stderr_write :: "u8 list \<Rightarrow> 'io \<Rightarrow> nat option \<times> 'io"
  cur_task :: nat
  working_dir :: "dirref option"

record 'io Sys =
  umem :: memory
  utabs :: tables
  ufs :: Vfs
  uio :: 'io

type_synonym 'io syscall = "'io Sys \<Rightarrow> (SyscallResult \<times> 'io Sys) option"

definition ret :: "SyscallResult \<Rightarrow> 'io syscall" where
  "ret r s = Some (r, s)"

text \<open>\<open>with_resources\<close> and \<open>with_resources_mut\<close> for the current task.\<close>

definition query :: "'io sys_env \<Rightarrow> (ResourceTable \<Rightarrow> 'a) \<Rightarrow> 'io Sys \<Rightarrow> 'a \<times> 'io Sys" where
  "query E f s = (let (r, T) = with_resources (cur_task E) f (utabs s) in (r, s\<lparr> utabs := T \<rparr>))"

definition modify :: "'io sys_env \<Rightarrow> (ResourceTable \<Rightarrow> 'a \<times> ResourceTable) \<Rightarrow> 'io Sys \<Rightarrow> 'a \<times> 'io Sys" where
  "modify E f s = (let (r, T) = with_resources_mut (cur_task E) f (utabs s) in (r, s\<lparr> utabs := T \<rparr>))"

definition file_len :: "fileref \<Rightarrow> 'io Sys \<Rightarrow> usize" where
  "file_len f s = of_nat (length (hf_vec (vfiles (ufs s) f)))"

section \<open>The stat structure\<close>

definition stat_bytes :: "u64 \<Rightarrow> u64 \<Rightarrow> u64 \<Rightarrow> u64 \<Rightarrow> u64 \<Rightarrow> u8 list" where
  "stat_bytes mode rdev sz blksize blocks =
     to_le 8 1 @ to_le 8 1 @ to_le 8 1 @ to_le 4 mode @ replicate 12 0 @ to_le 8 rdev @ to_le 8 sz @
     to_le 8 blksize @ to_le 8 blocks @ replicate 72 0"

definition fill_stat_buf :: "u64 \<Rightarrow> usize \<Rightarrow> bool \<Rightarrow> memory \<Rightarrow> memory" where
  "fill_stat_buf stat_ptr sz is_dir m =
     mem_write stat_ptr
       (stat_bytes (if is_dir then 0x41ED else 0x81A4) 0 sz 4096 ((sz + 511) div 512)) m"

definition fill_stat_buf_chardev :: "u64 \<Rightarrow> memory \<Rightarrow> memory" where
  "fill_stat_buf_chardev stat_ptr m = mem_write stat_ptr (stat_bytes 0x21B6 0x0501 0 1024 0) m"

section \<open>Reading and writing\<close>

datatype ReadTarget = ReadStdin | ReadFile | ReadBadFd

text \<open>The closure of \<open>sys_read\<close> on the table: the bytes to copy, or a panic of \<open>vec!\<close>.\<close>

definition read_file :: "Vfs \<Rightarrow> u64 \<Rightarrow> u64 \<Rightarrow> ResourceTable \<Rightarrow> (SyscallError + u8 list) option \<times> ResourceTable" where
  "read_file V fd cnt t =
     (case table_get fd t of
        Some (RFile file offset) \<Rightarrow>
          if 2 ^ 63 \<le> unat cnt then (None, t)
          else (case read_at (vfiles V file) (unat cnt) offset of
              Inr buf \<Rightarrow> (Some (Inr buf), table_set fd (RFile file (offset + of_nat (length buf))) t)
            | Inl _ \<Rightarrow> (Some (Inl IoError), t))
      | _ \<Rightarrow> (Some (Inl BadFileDescriptor), t))"

definition copy_out :: "u64 \<Rightarrow> SyscallError + u8 list \<Rightarrow> 'io syscall" where
  "copy_out buf_ptr r s =
     (case r of
        Inr buf \<Rightarrow> ret (Inr (of_nat (length buf))) (s\<lparr> umem := mem_write buf_ptr buf (umem s) \<rparr>)
      | Inl e \<Rightarrow> ret (Inl e) s)"

definition sys_read :: "'io sys_env \<Rightarrow> u64 \<Rightarrow> u64 \<Rightarrow> u64 \<Rightarrow> 'io syscall" where
  "sys_read E fd buf_ptr cnt s =
     (if buf_ptr = 0 \<or> cnt = 0 then ret (if cnt = 0 then Inr 0 else Inl Fault) s
      else
        let (target, s1) = query E (\<lambda>t. case table_get fd t of
                Some Stdin \<Rightarrow> ReadStdin | Some (RFile _ _) \<Rightarrow> ReadFile | _ \<Rightarrow> ReadBadFd) s
        in case target of
          ReadStdin \<Rightarrow>
            (let (r, io') = stdin_read E (unat cnt) (uio s1)
             in copy_out buf_ptr (case r of Some buf \<Rightarrow> Inr buf | None \<Rightarrow> Inl WouldBlock) (s1\<lparr> uio := io' \<rparr>))
        | ReadFile \<Rightarrow>
            (let (r, s2) = modify E (read_file (ufs s1) fd cnt) s1
             in case r of None \<Rightarrow> None | Some r' \<Rightarrow> copy_out buf_ptr r' s2)
        | ReadBadFd \<Rightarrow> ret (Inl BadFileDescriptor) s1)"

datatype WriteTarget = WriteStdout | WriteStderr | WriteFile | WriteBadFd | WriteOther

definition write_stream :: "u64 \<Rightarrow> nat option \<times> 'io \<Rightarrow> 'io syscall" where
  "write_stream cnt r s =
     ret (Inr (case fst r of Some n \<Rightarrow> of_nat n | None \<Rightarrow> cnt)) (s\<lparr> uio := snd r \<rparr>)"

text \<open>The closure of \<open>sys_write\<close> on the table, which also writes the file.\<close>

definition write_file ::
  "Vfs \<Rightarrow> u64 \<Rightarrow> u8 list \<Rightarrow> ResourceTable \<Rightarrow> (SyscallResult \<times> Vfs) option \<times> ResourceTable" where
  "write_file V fd buf t =
     (case table_get fd t of
        Some (RFile file offset) \<Rightarrow>
          (case vfs_write file buf offset V of
             Some (n, V') \<Rightarrow> (Some (Inr (of_nat n), V'), table_set fd (RFile file (offset + of_nat n)) t)
           | None \<Rightarrow> (None, t))
      | _ \<Rightarrow> (Some (Inl BadFileDescriptor, V), t))"

definition sys_write :: "'io sys_env \<Rightarrow> u64 \<Rightarrow> u64 \<Rightarrow> u64 \<Rightarrow> 'io syscall" where
  "sys_write E fd buf_ptr cnt s =
     (if buf_ptr = 0 \<and> cnt > 0 then ret (Inl Fault) s
      else if cnt = 0 then ret (Inr 0) s
      else
        let buf = mem_read (umem s) buf_ptr (unat cnt);
            (target, s1) = query E (\<lambda>t. case table_get fd t of
                Some Stdout \<Rightarrow> WriteStdout | Some Stderr \<Rightarrow> WriteStderr | Some Stdin \<Rightarrow> WriteBadFd
              | Some (RFile _ _) \<Rightarrow> WriteFile | Some (RMemory _ _) \<Rightarrow> WriteOther | None \<Rightarrow> WriteBadFd) s
        in case target of
          WriteStdout \<Rightarrow> write_stream cnt (stdout_write E buf (uio s1)) s1
        | WriteStderr \<Rightarrow> write_stream cnt (stderr_write E buf (uio s1)) s1
        | WriteFile \<Rightarrow>
            (let (r, s2) = modify E (write_file (ufs s1) fd buf) s1
             in case r of None \<Rightarrow> None | Some (r', V') \<Rightarrow> ret r' (s2\<lparr> ufs := V' \<rparr>))
        | WriteBadFd \<Rightarrow> ret (Inl BadFileDescriptor) s1
        | WriteOther \<Rightarrow> ret (Inl BadFileDescriptor) s1)"

section \<open>Opening and closing\<close>

definition O_WRONLY :: u64 where "O_WRONLY = 0x0001"
definition O_RDWR :: u64 where "O_RDWR = 0x0002"
definition O_CREAT :: u64 where "O_CREAT = 0x0040"
definition O_EXCL :: u64 where "O_EXCL = 0x0080"
definition O_TRUNC :: u64 where "O_TRUNC = 0x0200"
definition O_APPEND :: u64 where "O_APPEND = 0x0400"

text \<open>\<open>resolve_parent_and_name\<close>; the outer option is that of path lookup.\<close>

definition resolve_parent_and_name ::
  "'io sys_env \<Rightarrow> Vfs \<Rightarrow> string \<Rightarrow> dirref \<Rightarrow> (SyscallError + dirref \<times> string) option" where
  "resolve_parent_and_name E V path_str root =
     (case rsplit_once SEPARATOR path_str of
        Some (before, filename) \<Rightarrow>
          let parent_path = (if before = [] then ''/'' else before)
          in if filename = [] then Some (Inl InvalidArgument)
             else map_option (\<lambda>nd. case nd of Some (Dir d) \<Rightarrow> Inr (d, filename) | _ \<Rightarrow> Inl NotFound)
                    (path_get (vfs_fs V) parent_path root)
      | None \<Rightarrow>
          Some (case working_dir E of Some cwd \<Rightarrow> Inr (cwd, path_str) | None \<Rightarrow> Inl NotFound))"

text \<open>The last part of \<open>sys_open\<close>, which allocates the descriptor.\<close>

definition open_fd :: "'io sys_env \<Rightarrow> u64 \<Rightarrow> fileref \<Rightarrow> 'io syscall" where
  "open_fd E flags file_ref s =
     (let offset = (if flags AND O_APPEND \<noteq> 0 then file_len file_ref s else 0);
          (fd, s') = modify E (alloc_fd (RFile file_ref offset)) s
      in ret (Inr fd) s')"

definition sys_open :: "'io sys_env \<Rightarrow> u64 \<Rightarrow> u64 \<Rightarrow> 'io syscall" where
  "sys_open E path_ptr flags s =
     (case read_c_string (umem s) path_ptr of
        None \<Rightarrow> ret (Inl Fault) s
      | Some path_str \<Rightarrow> do {
          existing \<leftarrow> path_get (vfs_fs (ufs s)) path_str 0;
          case existing of
            Some (File f) \<Rightarrow>
              if flags AND O_CREAT \<noteq> 0 \<and> flags AND O_EXCL \<noteq> 0 then ret (Inl FileExists) s
              else do {
                V \<leftarrow> (if flags AND O_TRUNC \<noteq> 0 then map_option snd (vfs_write f [] 0 (ufs s)) else Some (ufs s));
                open_fd E flags f (s\<lparr> ufs := V \<rparr>)
              }
          | Some (Dir _) \<Rightarrow>
              if flags AND (O_WRONLY OR O_RDWR) \<noteq> 0 then ret (Inl IsADirectory) s else ret (Inl IsADirectory) s
          | None \<Rightarrow>
              if flags AND O_CREAT = 0 then ret (Inl NotFound) s
              else do {
                r \<leftarrow> resolve_parent_and_name E (ufs s) path_str 0;
                case r of
                  Inl e \<Rightarrow> ret (Inl e) s
                | Inr (parent_dir, filename) \<Rightarrow>
                    let (f, V) = heapfile_create filename parent_dir (ufs s)
                    in open_fd E flags f (s\<lparr> ufs := V \<rparr>)
              }
        })"

definition sys_close :: "'io sys_env \<Rightarrow> u64 \<Rightarrow> 'io syscall" where
  "sys_close E handle s =
     (if is_stdio handle then ret (Inr 0) s
      else let (closed, s') = modify E (table_close handle) s
           in ret (case closed of Some _ \<Rightarrow> Inr 0 | None \<Rightarrow> Inl BadFileDescriptor) s')"

section \<open>Attributes and positions\<close>

definition sys_stat :: "u64 \<Rightarrow> u64 \<Rightarrow> 'io syscall" where
  "sys_stat path_ptr stat_buf s =
     (if stat_buf = 0 then ret (Inl Fault) s
      else case read_c_string (umem s) path_ptr of
        None \<Rightarrow> ret (Inl Fault) s
      | Some path_str \<Rightarrow> do {
          nd \<leftarrow> path_get (vfs_fs (ufs s)) path_str 0;
          case nd of
            Some (File f) \<Rightarrow> ret (Inr 0) (s\<lparr> umem := fill_stat_buf stat_buf (file_len f s) False (umem s) \<rparr>)
          | Some (Dir _) \<Rightarrow> ret (Inr 0) (s\<lparr> umem := fill_stat_buf stat_buf 0 True (umem s) \<rparr>)
          | None \<Rightarrow> ret (Inl NotFound) s
        })"

definition sys_fstat :: "'io sys_env \<Rightarrow> u64 \<Rightarrow> u64 \<Rightarrow> 'io syscall" where
  "sys_fstat E fd stat_buf s =
     (if stat_buf = 0 then ret (Inl Fault) s
      else let (entry, s1) = query E (table_get fd) s
           in case entry of
             None \<Rightarrow> ret (Inl BadFileDescriptor) s1
           | Some (RFile file _) \<Rightarrow>
               ret (Inr 0) (s1\<lparr> umem := fill_stat_buf stat_buf (file_len file s1) False (umem s1) \<rparr>)
           | Some (RMemory _ _) \<Rightarrow> ret (Inl BadFileDescriptor) s1
           | Some _ \<Rightarrow> ret (Inr 0) (s1\<lparr> umem := fill_stat_buf_chardev stat_buf (umem s1) \<rparr>))"

text \<open>The closure of \<open>sys_lseek\<close>; an \<open>i64\<close> is a word read as signed.\<close>

definition seek_file :: "Vfs \<Rightarrow> u64 \<Rightarrow> u64 \<Rightarrow> u32 \<Rightarrow> ResourceTable \<Rightarrow> SyscallResult \<times> ResourceTable" where
  "seek_file V fd offset whence t =
     (case table_get fd t of
        None \<Rightarrow> (Inl BadFileDescriptor, t)
      | Some (RFile file cur_off) \<Rightarrow>
          if whence \<notin> {0, 1, 2} then (Inl InvalidArgument, t)
          else let new_offset = (if whence = 0 then offset else if whence = 1 then cur_off + offset
                                 else of_nat (length (hf_vec (vfiles V file))) + offset)
               in if new_offset <s 0 then (Inl InvalidArgument, t)
                  else (Inr new_offset, table_set fd (RFile file new_offset) t)
      | Some _ \<Rightarrow> (Inl IllegalSeek, t))"

definition sys_lseek :: "'io sys_env \<Rightarrow> u64 \<Rightarrow> u64 \<Rightarrow> u64 \<Rightarrow> 'io syscall" where
  "sys_lseek E fd offset whence s =
     (let (r, s') = modify E (seek_file (ufs s) fd offset (ucast whence)) s in ret r s')"

definition sys_ioctl :: "u64 \<Rightarrow> u64 \<Rightarrow> u64 \<Rightarrow> 'io syscall" where
  "sys_ioctl fd request arg s =
     (if request = 0x5413 \<and> arg \<noteq> 0
      then ret (Inr 0) (s\<lparr> umem := mem_write arg (to_le 2 25 @ to_le 2 80 @ to_le 2 0 @ to_le 2 0) (umem s) \<rparr>)
      else ret (Inl NotATerminal) s)"

section \<open>Duplicating descriptors\<close>

definition or_bad_fd :: "u64 option \<Rightarrow> SyscallResult" where
  "or_bad_fd r = (case r of Some new_fd \<Rightarrow> Inr new_fd | None \<Rightarrow> Inl BadFileDescriptor)"

definition sys_dup :: "'io sys_env \<Rightarrow> u64 \<Rightarrow> 'io syscall" where
  "sys_dup E fd s = (let (r, s') = modify E (dup fd) s in ret (or_bad_fd r) s')"

definition sys_dup2 :: "'io sys_env \<Rightarrow> u64 \<Rightarrow> u64 \<Rightarrow> 'io syscall" where
  "sys_dup2 E oldfd newfd s = (let (r, s') = modify E (dup2 oldfd newfd) s in ret (or_bad_fd r) s')"

definition sys_dup3 :: "'io sys_env \<Rightarrow> u64 \<Rightarrow> u64 \<Rightarrow> 'io syscall" where
  "sys_dup3 E oldfd newfd s = (if oldfd = newfd then ret (Inl InvalidArgument) s else sys_dup2 E oldfd newfd s)"

definition sys_pipe :: "u64 \<Rightarrow> 'io syscall" where
  "sys_pipe pipefd_ptr s = ret (Inl (if pipefd_ptr = 0 then Fault else NotImplemented)) s"

definition sys_pipe2 :: "u64 \<Rightarrow> u64 \<Rightarrow> 'io syscall" where
  "sys_pipe2 pipefd_ptr flags s = sys_pipe pipefd_ptr s"

definition sys_openat :: "'io sys_env \<Rightarrow> u64 \<Rightarrow> u64 \<Rightarrow> u64 \<Rightarrow> 'io syscall" where
  "sys_openat E dirfd path_ptr flags s = sys_open E path_ptr flags s"

definition sys_fcntl :: "'io sys_env \<Rightarrow> u64 \<Rightarrow> u64 \<Rightarrow> u64 \<Rightarrow> 'io syscall" where
  "sys_fcntl E fd cmd arg s =
     (if cmd = 0 \<or> cmd = 1030 then (let (r, s') = modify E (dup fd) s in ret (or_bad_fd r) s')
      else if cmd \<in> {1, 2, 3, 4}
      then (let (r, s') = query E (table_get fd) s
            in ret (if r \<noteq> None then Inr (if cmd = 3 then 2 else 0) else Inl BadFileDescriptor) s')
      else ret (Inl InvalidArgument) s)"

section \<open>Vectored and positioned transfers\<close>

text \<open>The structures \<open>iovec\<close> of the array at \<open>iov_ptr\<close>.\<close>

definition iov_base :: "memory \<Rightarrow> u64 \<Rightarrow> nat \<Rightarrow> u64" where
  "iov_base m iov_ptr i = read_u64 m (iov_ptr + of_nat (16 * i))"

definition iov_len :: "memory \<Rightarrow> u64 \<Rightarrow> nat \<Rightarrow> u64" where
  "iov_len m iov_ptr i = read_u64 m (iov_ptr + of_nat (16 * i + 8))"

fun writev_loop :: "'io sys_env \<Rightarrow> u64 \<Rightarrow> u64 \<Rightarrow> nat list \<Rightarrow> u64 \<Rightarrow> 'io syscall" where
  "writev_loop E fd iov_ptr [] tot s = ret (Inr tot) s"
| "writev_loop E fd iov_ptr (i # is) tot s =
     (let base = iov_base (umem s) iov_ptr i; len = iov_len (umem s) iov_ptr i
      in if len = 0 then writev_loop E fd iov_ptr is tot s
         else if base = 0 then ret (Inl Fault) s
         else do {
           (r, s') \<leftarrow> sys_write E fd base len s;
           case r of
             Inr n \<Rightarrow> writev_loop E fd iov_ptr is (tot + n) s'
           | Inl e \<Rightarrow> ret (if tot > 0 then Inr tot else Inl e) s'
         })"

definition sys_writev :: "'io sys_env \<Rightarrow> u64 \<Rightarrow> u64 \<Rightarrow> u64 \<Rightarrow> 'io syscall" where
  "sys_writev E fd iov_ptr iovcnt s =
     (if iov_ptr = 0 \<or> iovcnt = 0 then ret (if iovcnt = 0 then Inr 0 else Inl Fault) s
      else if iovcnt > 1024 then ret (Inl InvalidArgument) s
      else writev_loop E fd iov_ptr [0..<unat iovcnt] 0 s)"

fun readv_loop :: "'io sys_env \<Rightarrow> u64 \<Rightarrow> u64 \<Rightarrow> nat list \<Rightarrow> u64 \<Rightarrow> 'io syscall" where
  "readv_loop E fd iov_ptr [] tot s = ret (Inr tot) s"
| "readv_loop E fd iov_ptr (i # is) tot s =
     (let base = iov_base (umem s) iov_ptr i; len = iov_len (umem s) iov_ptr i
      in if len = 0 then readv_loop E fd iov_ptr is tot s
         else if base = 0 then ret (Inl Fault) s
         else do {
           (r, s') \<leftarrow> sys_read E fd base len s;
           case r of
             Inr n \<Rightarrow>
               if n = 0 then ret (Inr tot) s'
               else if n < len then ret (Inr (tot + n)) s'
               else readv_loop E fd iov_ptr is (tot + n) s'
           | Inl e \<Rightarrow> ret (if tot > 0 then Inr tot else Inl e) s'
         })"

definition sys_readv :: "'io sys_env \<Rightarrow> u64 \<Rightarrow> u64 \<Rightarrow> u64 \<Rightarrow> 'io syscall" where
  "sys_readv E fd iov_ptr iovcnt s =
     (if iov_ptr = 0 \<or> iovcnt = 0 then ret (if iovcnt = 0 then Inr 0 else Inl Fault) s
      else if iovcnt > 1024 then ret (Inl InvalidArgument) s
      else readv_loop E fd iov_ptr [0..<unat iovcnt] 0 s)"

definition sys_pread64 :: "'io sys_env \<Rightarrow> u64 \<Rightarrow> u64 \<Rightarrow> u64 \<Rightarrow> u64 \<Rightarrow> 'io syscall" where
  "sys_pread64 E fd buf_ptr cnt offset s =
     (if buf_ptr = 0 \<or> cnt = 0 then ret (if cnt = 0 then Inr 0 else Inl Fault) s
      else let (entry, s1) = query E (table_get fd) s
           in case entry of
             Some (RFile file _) \<Rightarrow>
               if 2 ^ 63 \<le> unat cnt then None
               else copy_out buf_ptr (case read_at (vfiles (ufs s1) file) (unat cnt) offset of
                   Inr buf \<Rightarrow> Inr buf | Inl _ \<Rightarrow> Inl IoError) s1
           | Some _ \<Rightarrow> ret (Inl IllegalSeek) s1
           | None \<Rightarrow> ret (Inl BadFileDescriptor) s1)"

definition sys_pwrite64 :: "'io sys_env \<Rightarrow> u64 \<Rightarrow> u64 \<Rightarrow> u64 \<Rightarrow> u64 \<Rightarrow> 'io syscall" where
  "sys_pwrite64 E fd buf_ptr cnt offset s =
     (if buf_ptr = 0 \<or> cnt = 0 then ret (if cnt = 0 then Inr 0 else Inl Fault) s
      else let buf = mem_read (umem s) buf_ptr (unat cnt);
               (entry, s1) = query E (table_get fd) s
           in case entry of
             Some (RFile file _) \<Rightarrow>
               (case vfs_write file buf offset (ufs s1) of
                  None \<Rightarrow> None
                | Some (n, V) \<Rightarrow> ret (Inr (of_nat n)) (s1\<lparr> ufs := V \<rparr>))
           | Some _ \<Rightarrow> ret (Inl IllegalSeek) s1
           | None \<Rightarrow> ret (Inl BadFileDescriptor) s1)"

section \<open>Paths\<close>

definition sys_access :: "u64 \<Rightarrow> 'io syscall" where
  "sys_access path_ptr s =
     (case read_c_string (umem s) path_ptr of
        None \<Rightarrow> ret (Inl Fault) s
      | Some path_str \<Rightarrow> do {
          nd \<leftarrow> path_get (vfs_fs (ufs s)) path_str 0;
          ret (if nd \<noteq> None then Inr 0 else Inl NotFound) s
        })"

definition sys_getcwd :: "u64 \<Rightarrow> u64 \<Rightarrow> 'io syscall" where
  "sys_getcwd buf_ptr sz s =
     (if buf_ptr = 0 then ret (Inl Fault) s
      else if sz < 2 then ret (Inl BufferTooSmall) s
      else ret (Inr buf_ptr) (s\<lparr> umem := mem_write buf_ptr [0x2F, 0] (umem s) \<rparr>))"

definition sys_getdents64 :: "u64 \<Rightarrow> u64 \<Rightarrow> u64 \<Rightarrow> 'io syscall" where
  "sys_getdents64 fd buf_ptr buf_size s =
     ret (Inl (if buf_ptr = 0 \<or> buf_size = 0 then Fault else NotImplemented)) s"

definition sys_chdir :: "u64 \<Rightarrow> 'io syscall" where
  "sys_chdir path_ptr s =
     (case read_c_string (umem s) path_ptr of
        None \<Rightarrow> ret (Inl Fault) s
      | Some path_str \<Rightarrow> do {
          nd \<leftarrow> path_get (vfs_fs (ufs s)) path_str 0;
          ret (case nd of Some (Dir _) \<Rightarrow> Inr 0 | Some (File _) \<Rightarrow> Inl NotADirectory | None \<Rightarrow> Inl NotFound) s
        })"

definition sys_mkdir :: "u64 \<Rightarrow> u64 \<Rightarrow> 'io syscall" where
  "sys_mkdir path_ptr mode s = ret (Inl ReadOnlyFs) s"

definition sys_unlink :: "u64 \<Rightarrow> 'io syscall" where
  "sys_unlink path_ptr s = ret (Inl ReadOnlyFs) s"

definition sys_readlink :: "u64 \<Rightarrow> u64 \<Rightarrow> u64 \<Rightarrow> 'io syscall" where
  "sys_readlink path_ptr buf_ptr buf_size s =
     (if buf_ptr = 0 \<or> buf_size = 0 then ret (Inl Fault) s
      else case read_c_string (umem s) path_ptr of
        None \<Rightarrow> ret (Inl Fault) s
      | Some path_str \<Rightarrow>
          if path_str = ''/proc/self/exe''
          then let len = min 4 (unat buf_size)
               in ret (Inr (of_nat len)) (s\<lparr> umem := mem_write buf_ptr (take len [0x2F, 0x61, 0x70, 0x70]) (umem s) \<rparr>)
          else ret (Inl InvalidArgument) s)"

definition sys_newfstatat :: "'io sys_env \<Rightarrow> u64 \<Rightarrow> u64 \<Rightarrow> u64 \<Rightarrow> 'io syscall" where
  "sys_newfstatat E dirfd path_ptr stat_buf s =
     (case read_c_string (umem s) path_ptr of
        None \<Rightarrow> ret (Inl Fault) s
      | Some path_str \<Rightarrow>
          if path_str = [] then sys_fstat E dirfd stat_buf s else sys_stat path_ptr stat_buf s)"

definition sys_faccessat :: "u64 \<Rightarrow> u64 \<Rightarrow> u64 \<Rightarrow> 'io syscall" where
  "sys_faccessat dirfd path_ptr mode s = sys_access path_ptr s"

definition sys_ftruncate :: "u64 \<Rightarrow> u64 \<Rightarrow> 'io syscall" where
  "sys_ftruncate fd len s = ret (Inl NotImplemented) s"

definition sys_rename :: "u64 \<Rightarrow> u64 \<Rightarrow> 'io syscall" where
  "sys_rename oldpath newpath s = ret (Inl ReadOnlyFs) s"

end
