(* ===== verification/File_Stream.thy ===== *)
theory File_Stream
  imports File_Syscalls
begin

text \<open>
  An open file descriptor as a byte stream.  The calls on a descriptor (\<open>sys_read\<close>, \<open>sys_write\<close>,
  \<open>sys_lseek\<close>, \<open>sys_pread64\<close>, \<open>sys_pwrite64\<close>) are compared with an abstract file: a list of bytes and a
  cursor, both unbounded numbers.  Vectored writes are compared with one write of the concatenated buffers.
\<close>

section \<open>The table of the current task\<close>

definition task_table :: "nat \<Rightarrow> 'io Sys \<Rightarrow> ResourceTable" where
  "task_table tid s = (case bt_get tid (utabs s) of Some t \<Rightarrow> t | None \<Rightarrow> ResourceTable_new)"

definition sys_ok :: "'io Sys \<Rightarrow> bool" where
  "sys_ok s \<longleftrightarrow> bt_ok (utabs s) \<and> (\<forall>tid t. bt_get tid (utabs s) = Some t \<longrightarrow> bt_ok (resources t))"

definition put_table :: "'io sys_env \<Rightarrow> ResourceTable \<Rightarrow> 'io Sys \<Rightarrow> 'io Sys" where
  "put_table E t s = s\<lparr> utabs := bt_insert (cur_task E) t (utabs s) \<rparr>"

lemma query_eq: "query E f s = (f (task_table (cur_task E) s), put_table E (task_table (cur_task E) s) s)"
  by (simp add: query_def with_resources_def task_table_def put_table_def Let_def)

lemma modify_eq:
  "modify E f s = (let (r, t) = f (task_table (cur_task E) s) in (r, put_table E t s))"
  by (simp add: modify_def with_resources_mut_def task_table_def put_table_def Let_def split: prod.split)

lemma put_table_simps [simp]:
  "umem (put_table E t s) = umem s" "ufs (put_table E t s) = ufs s" "uio (put_table E t s) = uio s"
  by (simp_all add: put_table_def)

lemma bt_insert_twice: "bt_insert k v' (bt_insert k v m) = bt_insert k v' m"
  by (induction m) auto

lemma put_table_twice [simp]: "put_table E t' (put_table E t s) = put_table E t' s"
  by (simp add: put_table_def bt_insert_twice)

lemma table_ok: "sys_ok s \<Longrightarrow> bt_ok (resources (task_table tid s))"
  by (auto simp: sys_ok_def task_table_def ResourceTable_new_def bt_ok_insert bt_ok_def split: option.split)

lemma task_table_put:
  "sys_ok s \<Longrightarrow> task_table tid (put_table E t s) = (if tid = cur_task E then t else task_table tid s)"
  by (simp add: task_table_def put_table_def sys_ok_def btm.get_insert)

lemma sys_ok_put: "sys_ok s \<Longrightarrow> bt_ok (resources t) \<Longrightarrow> sys_ok (put_table E t s)"
  by (auto simp: sys_ok_def put_table_def btm.get_insert bt_ok_insert split: if_splits)

lemma sys_ok_cong: "utabs s' = utabs s \<Longrightarrow> sys_ok s' = sys_ok s"
  by (simp add: sys_ok_def)

lemma task_table_cong: "utabs s' = utabs s \<Longrightarrow> task_table tid s' = task_table tid s"
  by (simp add: task_table_def)

lemma table_get_set:
  "bt_ok (resources t) \<Longrightarrow> table_get h' (table_set h r t) = (if h' = h then Some r else table_get h' t)"
  by (simp add: table_get_def table_set_def btm.get_insert)

lemma table_set_ok: "bt_ok (resources t) \<Longrightarrow> bt_ok (resources (table_set h r t))"
  by (simp add: table_set_def bt_ok_insert)

section \<open>The abstract file\<close>

record stream =
  content :: "u8 list"
  cursor :: nat
  smem :: memory

datatype file_op =
    SRead u64 u64
  | SWrite u64 u64
  | SSeek u64 u64
  | SPread u64 u64 u64
  | SPwrite u64 u64 u64

text \<open>Replacing bytes from a position on, with zeros up to it when it is past the end.\<close>

definition overwrite :: "nat \<Rightarrow> u8 list \<Rightarrow> u8 list \<Rightarrow> u8 list" where
  "overwrite p bs xs = take p (xs @ replicate (p - length xs) 0) @ bs @ drop (p + length bs) xs"

definition stream_read :: "nat \<Rightarrow> u64 \<Rightarrow> u64 \<Rightarrow> stream \<Rightarrow> (SyscallError + u8 list) option" where
  "stream_read pos buf cnt st =
     (if cnt = 0 then Some (Inr []) else if buf = 0 then Some (Inl Fault)
      else if 2 ^ 63 \<le> unat cnt then None
      else if length (content st) \<le> pos then Some (Inl IoError)
      else Some (Inr (take (unat cnt) (drop pos (content st)))))"

definition stream_write :: "nat \<Rightarrow> u64 \<Rightarrow> u64 \<Rightarrow> stream \<Rightarrow> (SyscallError + u8 list) option" where
  "stream_write pos buf cnt st =
     (if cnt = 0 then Some (Inr []) else if buf = 0 then Some (Inl Fault)
      else if 2 ^ 63 \<le> pos + unat cnt then None
      else Some (Inr (mem_read (smem st) buf (unat cnt))))"

definition seek_target :: "u32 \<Rightarrow> int \<Rightarrow> stream \<Rightarrow> int option" where
  "seek_target whence off st =
     (if whence = 0 then Some off else if whence = 1 then Some (int (cursor st) + off)
      else if whence = 2 then Some (int (length (content st)) + off) else None)"

definition transfer :: "(SyscallError + u8 list) option \<Rightarrow> (u8 list \<Rightarrow> stream \<Rightarrow> stream) \<Rightarrow> stream \<Rightarrow>
    (SyscallResult \<times> stream) option" where
  "transfer r g st =
     (case r of None \<Rightarrow> None | Some (Inl e) \<Rightarrow> Some (Inl e, st)
      | Some (Inr bs) \<Rightarrow> Some (Inr (of_nat (length bs)), if bs = [] then st else g bs st))"

fun stream_step :: "file_op \<Rightarrow> stream \<Rightarrow> (SyscallResult \<times> stream) option" where
  "stream_step (SRead buf cnt) st =
     transfer (stream_read (cursor st) buf cnt st)
       (\<lambda>bs st. st\<lparr> smem := mem_write buf bs (smem st), cursor := cursor st + length bs \<rparr>) st"
| "stream_step (SWrite buf cnt) st =
     transfer (stream_write (cursor st) buf cnt st)
       (\<lambda>bs st. st\<lparr> content := overwrite (cursor st) bs (content st), cursor := cursor st + length bs \<rparr>) st"
| "stream_step (SSeek off whence) st =
     (case seek_target (ucast whence) (sint off) st of
        Some p \<Rightarrow> if 0 \<le> p \<and> p < 2 ^ 63 then Some (Inr (of_int p), st\<lparr> cursor := nat p \<rparr>)
                  else Some (Inl InvalidArgument, st)
      | None \<Rightarrow> Some (Inl InvalidArgument, st))"
| "stream_step (SPread buf cnt off) st =
     transfer (stream_read (unat off) buf cnt st) (\<lambda>bs st. st\<lparr> smem := mem_write buf bs (smem st) \<rparr>) st"
| "stream_step (SPwrite buf cnt off) st =
     transfer (stream_write (unat off) buf cnt st)
       (\<lambda>bs st. st\<lparr> content := overwrite (unat off) bs (content st) \<rparr>) st"

fun file_call :: "'io sys_env \<Rightarrow> u64 \<Rightarrow> file_op \<Rightarrow> 'io syscall" where
  "file_call E fd (SRead buf cnt) s = sys_read E fd buf cnt s"
| "file_call E fd (SWrite buf cnt) s = sys_write E fd buf cnt s"
| "file_call E fd (SSeek off whence) s = sys_lseek E fd off whence s"
| "file_call E fd (SPread buf cnt off) s = sys_pread64 E fd buf cnt off s"
| "file_call E fd (SPwrite buf cnt off) s = sys_pwrite64 E fd buf cnt off s"

fun run_calls :: "('op \<Rightarrow> 's \<Rightarrow> ('r \<times> 's) option) \<Rightarrow> 'op list \<Rightarrow> 's \<Rightarrow> ('r list \<times> 's) option" where
  "run_calls f [] s = Some ([], s)"
| "run_calls f (x # xs) s =
     (case f x s of None \<Rightarrow> None
      | Some (r, s') \<Rightarrow> map_option (apfst (Cons r)) (run_calls f xs s'))"

text \<open>The stream that a descriptor stands for, and what a call on it leaves alone.\<close>

definition stream_of :: "'io sys_env \<Rightarrow> u64 \<Rightarrow> fileref \<Rightarrow> 'io Sys \<Rightarrow> stream option" where
  "stream_of E fd f s =
     (case table_get fd (task_table (cur_task E) s) of
        Some (RFile g off) \<Rightarrow>
          if g = f then Some \<lparr> content = hf_vec (vfiles (ufs s) f), cursor = unat off, smem = umem s \<rparr> else None
      | _ \<Rightarrow> None)"

definition stream_ok :: "stream \<Rightarrow> bool" where
  "stream_ok st \<longleftrightarrow> length (content st) < 2 ^ 63 \<and> cursor st < 2 ^ 63"

definition only_file :: "'io sys_env \<Rightarrow> u64 \<Rightarrow> fileref \<Rightarrow> 'io Sys \<Rightarrow> 'io Sys \<Rightarrow> bool" where
  "only_file E fd f s s' \<longleftrightarrow>
     (\<forall>tid. tid \<noteq> cur_task E \<longrightarrow> task_table tid s' = task_table tid s) \<and>
     (\<forall>fd'. fd' \<noteq> fd \<longrightarrow> table_get fd' (task_table (cur_task E) s') = table_get fd' (task_table (cur_task E) s)) \<and>
     (\<forall>g. g \<noteq> f \<longrightarrow> vfiles (ufs s') g = vfiles (ufs s) g) \<and> vdirs (ufs s') = vdirs (ufs s) \<and> uio s' = uio s"

definition simulates :: "'io sys_env \<Rightarrow> u64 \<Rightarrow> fileref \<Rightarrow> 'io Sys \<Rightarrow> ('r \<times> 'io Sys) option \<Rightarrow> ('r \<times> stream) option \<Rightarrow> bool" where
  "simulates E fd f s c a \<longleftrightarrow>
     rel_option (\<lambda>(r, s') (r', st'). r = r' \<and> sys_ok s' \<and> stream_of E fd f s' = Some st' \<and> stream_ok st' \<and>
       only_file E fd f s s') c a"


section \<open>One call\<close>

lemma unat_add_of_nat:
  "n < 2 ^ 64 \<Longrightarrow> unat (w + of_nat n :: u64) = (if unat w + n < 2 ^ 64 then unat w + n else unat w + n - 2 ^ 64)"
proof -
  assume n: "n < 2 ^ 64"
  define N :: nat where "N = 2 ^ 64"
  have w: "unat w < N" using unsigned_less [of w] by (simp add: N_def)
  have "unat (w + of_nat n) = (unat w + n) mod N" using n by (simp add: unat_word_ariths unat_of_nat N_def)
  then show ?thesis using n w unfolding N_def [symmetric] by (simp add: le_mod_geq)
qed

lemma resize_overwrite:
  "take p (if length xs < p + length bs then vec_resize (p + length bs) 0 xs else xs) @ bs @
     drop (p + length bs) (if length xs < p + length bs then vec_resize (p + length bs) 0 xs else xs) =
   overwrite p bs xs"
proof (cases "length xs < p + length bs")
  case True
  have "take p (take (p + length bs) xs @ replicate (p + length bs - length xs) 0) =
      take p (xs @ replicate (p - length xs) (0 :: u8))"
    using True by (simp add: min_def)
  then show ?thesis using True by (simp add: overwrite_def vec_resize_def)
qed (simp add: overwrite_def)

lemma write_at_spec:
  assumes "length (hf_vec h) < 2 ^ 63" "length bs < 2 ^ 64"
  shows "write_at h bs off =
    (if 2 ^ 63 \<le> unat off + length bs then None
     else Some (length bs, h\<lparr> hf_vec := overwrite (unat off) bs (hf_vec h) \<rparr>))"
proof -
  note u = unat_add_of_nat [OF assms(2), of off]
  have lt: "unat off < 2 ^ 64" using unsigned_less [of off] by simp
  consider "2 ^ 64 \<le> unat off + length bs" | "2 ^ 63 \<le> unat off + length bs" "unat off + length bs < 2 ^ 64"
    | "unat off + length bs < 2 ^ 63" by linarith
  then show ?thesis
  proof cases
    case 1
    then have "unat (off + of_nat (length bs)) < unat off" using u assms(2) lt by simp
    then show ?thesis using 1 by (simp add: write_at_def Let_def)
  next
    case 2
    then show ?thesis using u assms(1) by (simp add: write_at_def Let_def)
  next
    case 3
    then have "unat (off + of_nat (length bs)) = unat off + length bs" using u by simp
    then show ?thesis using 3 resize_overwrite [where xs = "hf_vec h" and p = "unat off" and bs = bs]
      by (cases "length (hf_vec h) < unat off + length bs") (simp_all add: write_at_def Let_def)
  qed
qed

lemma read_at_spec:
  "read_at h n off =
     (if length (hf_vec h) \<le> unat off then Inl IoInvalidInput else Inr (take n (drop (unat off) (hf_vec h))))"
  by (simp add: read_at_def min_def)

lemma length_overwrite: "length (overwrite p bs xs) = max (length xs) (p + length bs)"
  by (auto simp: overwrite_def)

text \<open>What an open stream says about the state.\<close>

lemma stream_ofE:
  assumes "stream_of E fd f s = Some st"
  obtains off where "table_get fd (task_table (cur_task E) s) = Some (RFile f off)"
    "st = \<lparr> content = hf_vec (vfiles (ufs s) f), cursor = unat off, smem = umem s \<rparr>"
  using assms by (auto simp: stream_of_def split: option.splits Resource.splits if_splits)

lemma smem_stream_of: "stream_of E fd f s = Some st \<Longrightarrow> smem st = umem s"
  by (auto elim: stream_ofE)

text \<open>The state after a call: the table entry, the file and the memory are replaced.\<close>

definition updated :: "'io sys_env \<Rightarrow> u64 \<Rightarrow> fileref \<Rightarrow> usize \<Rightarrow> u8 list \<Rightarrow> memory \<Rightarrow> 'io Sys \<Rightarrow> 'io Sys \<Rightarrow> bool" where
  "updated E fd f off bs m s s' \<longleftrightarrow>
     (\<exists>t. (t = task_table (cur_task E) s \<or> t = table_set fd (RFile f off) (task_table (cur_task E) s)) \<and>
       table_get fd t = Some (RFile f off) \<and>
       utabs s' = utabs (put_table E t s) \<and>
     ufs s' = (ufs s)\<lparr> vfiles := (vfiles (ufs s))(f := (vfiles (ufs s) f)\<lparr> hf_vec := bs \<rparr>) \<rparr> \<and>
     umem s' = m \<and> uio s' = uio s)"

lemma updated_simulates:
  assumes ok: "sys_ok s" and up: "updated E fd f off bs m s s'"
    and st: "st = \<lparr> content = bs, cursor = unat off, smem = m \<rparr>" "stream_ok st"
  shows "simulates E fd f s (Some (r, s')) (Some (r, st))"
proof -
  obtain t where t: "t = task_table (cur_task E) s \<or> t = table_set fd (RFile f off) (task_table (cur_task E) s)"
    "table_get fd t = Some (RFile f off)" "utabs s' = utabs (put_table E t s)"
    "ufs s' = (ufs s)\<lparr> vfiles := (vfiles (ufs s))(f := (vfiles (ufs s) f)\<lparr> hf_vec := bs \<rparr>) \<rparr>"
    "umem s' = m" "uio s' = uio s"
    using up by (auto simp: updated_def)
  note tt = task_table_cong [OF t(3)] task_table_put [OF ok]
  note tok = table_ok [OF ok, of "cur_task E"]
  have "bt_ok (resources t)" using t(1) tok table_set_ok [OF tok] by auto
  then have "sys_ok s'" using sys_ok_put [OF ok] sys_ok_cong [OF t(3)] by simp
  moreover have "table_get fd' t = table_get fd' (task_table (cur_task E) s)" if "fd' \<noteq> fd" for fd'
    using t(1) that table_get_set [OF tok] by auto
  ultimately show ?thesis
    using st t by (simp add: simulates_def stream_of_def only_file_def tt)
qed

lemma query_updated:
  assumes "table_get fd (task_table (cur_task E) s) = Some (RFile f off)"
  shows "updated E fd f off (hf_vec (vfiles (ufs s) f)) (umem s) s (put_table E (task_table (cur_task E) s) s)"
  using assms by (auto simp: updated_def)


lemma refused_simulates:
  assumes "sys_ok s" "stream_of E fd f s = Some st" "stream_ok st"
  shows "simulates E fd f s (Some (r, put_table E (task_table (cur_task E) s) s)) (Some (r, st))"
proof -
  obtain off where off: "table_get fd (task_table (cur_task E) s) = Some (RFile f off)"
    "st = \<lparr> content = hf_vec (vfiles (ufs s) f), cursor = unat off, smem = umem s \<rparr>"
    by (rule stream_ofE [OF assms(2)])
  show ?thesis by (rule updated_simulates [OF assms(1) query_updated [OF off(1)] off(2) assms(3)])
qed

lemma unchanged_simulates:
  "sys_ok s \<Longrightarrow> stream_of E fd f s = Some st \<Longrightarrow> stream_ok st \<Longrightarrow> simulates E fd f s (Some (r, s)) (Some (r, st))"
  by (simp add: simulates_def only_file_def)

lemma word_zero_cases: "(w :: u64) > 0 \<longleftrightarrow> w \<noteq> 0" "unat w = 0 \<longleftrightarrow> w = 0"
  by (simp_all add: word_gt_0 unat_eq_0)

lemmas call_defs = query_eq modify_eq Let_def ret_def copy_out_def

lemma read_simulates:
  assumes ok: "sys_ok s" and st: "stream_of E fd f s = Some st" "stream_ok st"
  shows "simulates E fd f s (file_call E fd (SRead buf cnt) s) (stream_step (SRead buf cnt) st)"
proof -
  obtain off where off: "table_get fd (task_table (cur_task E) s) = Some (RFile f off)"
    "st = \<lparr> content = hf_vec (vfiles (ufs s) f), cursor = unat off, smem = umem s \<rparr>"
    by (rule stream_ofE [OF st(1)])
  show ?thesis
  proof (cases "cnt = 0 \<or> buf = 0")
    case True
    then show ?thesis using unchanged_simulates [OF ok st]
      by (auto simp: sys_read_def stream_read_def transfer_def ret_def)
  next
    case False
    note tt = task_table_put [OF ok, of "cur_task E" E]
    let ?t = "task_table (cur_task E) s" and ?xs = "hf_vec (vfiles (ufs s) f)"
    let ?bs = "take (unat cnt) (drop (unat off) ?xs)"
    consider "2 ^ 63 \<le> unat cnt" | "unat cnt < 2 ^ 63" "length ?xs \<le> unat off"
      | "unat cnt < 2 ^ 63" "unat off < length ?xs" by linarith
    then show ?thesis
    proof cases
      case 1
      then show ?thesis using False off tt
        by (simp add: sys_read_def call_defs read_file_def stream_read_def transfer_def simulates_def)
    next
      case 2
      then show ?thesis using False off tt refused_simulates [OF ok st]
        by (simp add: sys_read_def call_defs read_file_def read_at_spec stream_read_def transfer_def)
    next
      case 3
      let ?off = "off + of_nat (length ?bs)" and ?m = "mem_write buf ?bs (umem s)"
      let ?s' = "put_table E (table_set fd (RFile f ?off) ?t) s\<lparr> umem := ?m \<rparr>"
      have len: "length ?bs < 2 ^ 63" "unat off + length ?bs \<le> length ?xs" using 3 by auto
      have xs: "length ?xs < 2 ^ 63" using st(2) off(2) by (simp add: stream_ok_def)
      have o: "unat ?off = unat off + length ?bs"
        using len xs by (subst unat_add_of_nat) auto
      have "?bs \<noteq> []" using False 3 by (auto simp: word_zero_cases)
      moreover have "updated E fd f ?off ?xs ?m s ?s'"
        using table_get_set [OF table_ok [OF ok]] by (auto simp: updated_def)
      then have "simulates E fd f s (Some (Inr (of_nat (length ?bs)) :: SyscallResult, ?s'))
          (Some (Inr (of_nat (length ?bs)), \<lparr> content = ?xs, cursor = unat ?off, smem = ?m \<rparr>))"
        by (rule updated_simulates [OF ok]) (use len xs o in \<open>simp_all add: stream_ok_def\<close>)
      ultimately show ?thesis using False off tt 3 o
        by (simp add: sys_read_def call_defs read_file_def read_at_spec stream_read_def transfer_def)
    qed
  qed
qed


lemma unat_lt [simp]: "unat (w :: u64) < 18446744073709551616"
  using unsigned_less [of w] by simp

lemma vfs_write_spec:
  assumes "length (hf_vec (vfiles V f)) < 2 ^ 63" "length bs < 2 ^ 64"
  shows "vfs_write f bs off V =
    (if 2 ^ 63 \<le> unat off + length bs then None
     else Some (length bs,
       V\<lparr> vfiles := (vfiles V)(f := (vfiles V f)\<lparr> hf_vec := overwrite (unat off) bs (hf_vec (vfiles V f)) \<rparr>) \<rparr>))"
  by (simp add: vfs_write_def write_at_spec [OF assms])

text \<open>A write of memory at a position: the new file, or a panic.\<close>

lemma write_simulates:
  assumes ok: "sys_ok s" and st: "stream_of E fd f s = Some st" "stream_ok st"
  shows "simulates E fd f s (file_call E fd (SWrite buf cnt) s) (stream_step (SWrite buf cnt) st)"
proof -
  obtain off where off: "table_get fd (task_table (cur_task E) s) = Some (RFile f off)"
    "st = \<lparr> content = hf_vec (vfiles (ufs s) f), cursor = unat off, smem = umem s \<rparr>"
    by (rule stream_ofE [OF st(1)])
  show ?thesis
  proof (cases "cnt = 0 \<or> buf = 0")
    case True
    then show ?thesis using unchanged_simulates [OF ok st]
      by (auto simp: sys_write_def stream_write_def transfer_def ret_def word_zero_cases)
  next
    case False
    note tt = task_table_put [OF ok, of "cur_task E" E]
    let ?t = "task_table (cur_task E) s" and ?xs = "hf_vec (vfiles (ufs s) f)"
    let ?bs = "mem_read (umem s) buf (unat cnt)"
    have xs: "length ?xs < 2 ^ 63" using st(2) off(2) by (simp add: stream_ok_def)
    note w = vfs_write_spec [of "ufs s" f ?bs off, OF xs]
    show ?thesis
    proof (cases "2 ^ 63 \<le> unat off + unat cnt")
      case True
      then show ?thesis using False off tt w
        by (simp add: sys_write_def call_defs write_file_def stream_write_def transfer_def simulates_def word_zero_cases)
    next
      case fits: False
      let ?off = "off + of_nat (unat cnt)" and ?ys = "overwrite (unat off) ?bs ?xs"
      let ?V = "(ufs s)\<lparr> vfiles := (vfiles (ufs s))(f := (vfiles (ufs s) f)\<lparr> hf_vec := ?ys \<rparr>) \<rparr>"
      let ?s' = "put_table E (table_set fd (RFile f ?off) ?t) s\<lparr> ufs := ?V \<rparr>"
      have o: "unat ?off = unat off + unat cnt" using fits by (subst unat_add_of_nat) auto
      have "updated E fd f ?off ?ys (umem s) s ?s'"
        using table_get_set [OF table_ok [OF ok]] by (auto simp: updated_def)
      then have "simulates E fd f s (Some (Inr (of_nat (unat cnt)) :: SyscallResult, ?s'))
          (Some (Inr (of_nat (unat cnt)), \<lparr> content = ?ys, cursor = unat ?off, smem = umem s \<rparr>))"
        by (rule updated_simulates [OF ok]) (use fits xs o in \<open>simp_all add: stream_ok_def length_overwrite\<close>)
      moreover have "?bs \<noteq> []" using False by (auto simp: word_zero_cases simp flip: length_0_conv)
      ultimately show ?thesis using False off tt fits o w
        by (simp add: sys_write_def call_defs write_file_def stream_write_def transfer_def word_zero_cases)
    qed
  qed
qed

lemma pread_simulates:
  assumes ok: "sys_ok s" and st: "stream_of E fd f s = Some st" "stream_ok st"
  shows "simulates E fd f s (file_call E fd (SPread buf cnt pos) s) (stream_step (SPread buf cnt pos) st)"
proof -
  obtain off where off: "table_get fd (task_table (cur_task E) s) = Some (RFile f off)"
    "st = \<lparr> content = hf_vec (vfiles (ufs s) f), cursor = unat off, smem = umem s \<rparr>"
    by (rule stream_ofE [OF st(1)])
  let ?t = "task_table (cur_task E) s" and ?xs = "hf_vec (vfiles (ufs s) f)"
  let ?bs = "take (unat cnt) (drop (unat pos) ?xs)"
  let ?s' = "put_table E ?t s\<lparr> umem := mem_write buf ?bs (umem s) \<rparr>"
  have "updated E fd f off ?xs (mem_write buf ?bs (umem s)) s ?s'" using off(1) by (auto simp: updated_def)
  then have "simulates E fd f s (Some (Inr (of_nat (length ?bs)) :: SyscallResult, ?s'))
      (Some (Inr (of_nat (length ?bs)), \<lparr> content = ?xs, cursor = unat off, smem = mem_write buf ?bs (umem s) \<rparr>))"
    by (rule updated_simulates [OF ok]) (use st(2) off(2) in \<open>simp_all add: stream_ok_def\<close>)
  moreover have "?bs \<noteq> []" if "cnt \<noteq> 0" "unat pos < length ?xs" using that by (auto simp: word_zero_cases)
  ultimately show ?thesis
    using off unchanged_simulates [OF ok st] refused_simulates [OF ok st]
    by (auto simp: sys_pread64_def call_defs read_at_spec stream_read_def transfer_def simulates_def [of _ _ _ _ None])
qed


lemma pwrite_simulates:
  assumes ok: "sys_ok s" and st: "stream_of E fd f s = Some st" "stream_ok st"
  shows "simulates E fd f s (file_call E fd (SPwrite buf cnt pos) s) (stream_step (SPwrite buf cnt pos) st)"
proof -
  obtain off where off: "table_get fd (task_table (cur_task E) s) = Some (RFile f off)"
    "st = \<lparr> content = hf_vec (vfiles (ufs s) f), cursor = unat off, smem = umem s \<rparr>"
    by (rule stream_ofE [OF st(1)])
  let ?t = "task_table (cur_task E) s" and ?xs = "hf_vec (vfiles (ufs s) f)"
  let ?bs = "mem_read (umem s) buf (unat cnt)"
  let ?ys = "overwrite (unat pos) ?bs ?xs"
  let ?s' = "put_table E ?t s\<lparr> ufs := (ufs s)\<lparr> vfiles := (vfiles (ufs s))(f := (vfiles (ufs s) f)\<lparr> hf_vec := ?ys \<rparr>) \<rparr> \<rparr>"
  have xs: "length ?xs < 2 ^ 63" "unat off < 2 ^ 63" using st(2) off(2) by (simp_all add: stream_ok_def)
  have "updated E fd f off ?ys (umem s) s ?s'" using off(1) by (auto simp: updated_def)
  then have "simulates E fd f s (Some (Inr (of_nat (unat cnt)) :: SyscallResult, ?s'))
      (Some (Inr (of_nat (unat cnt)), \<lparr> content = ?ys, cursor = unat off, smem = umem s \<rparr>))"
    if "unat pos + unat cnt < 2 ^ 63"
    by (rule updated_simulates [OF ok]) (use xs that in \<open>simp_all add: stream_ok_def length_overwrite\<close>)
  moreover have "?bs \<noteq> []" if "cnt \<noteq> 0" using that by (auto simp: word_zero_cases simp flip: length_0_conv)
  ultimately show ?thesis
    using off unchanged_simulates [OF ok st] vfs_write_spec [of "ufs s" f ?bs pos, OF xs(1)]
    by (auto simp: sys_pwrite64_def call_defs stream_write_def transfer_def simulates_def [of _ _ _ _ None])
qed

text \<open>Seeking: the sum of the base and the signed offset, refused when it is negative or wraps around.\<close>

lemma sint_unat: "sint (w :: u64) = (if 2 ^ 63 \<le> unat w then int (unat w) - 2 ^ 64 else int (unat w))"
proof -
  define u where "u = uint w"
  have u: "0 \<le> u" "u < 2 ^ 64" "int (unat w) = u" using uint_lt2p [of w] by (simp_all add: u_def)
  have "sint w = take_bit 64 (u + 2 ^ 63) - 2 ^ 63"
    by (simp add: sint_uint signed_take_bit_eq_take_bit_shift u_def)
  also have "\<dots> = (u + 2 ^ 63) mod 2 ^ 64 - 2 ^ 63" by (simp add: take_bit_eq_mod)
  finally have "sint w = (u + 2 ^ 63) mod 2 ^ 64 - 2 ^ 63" .
  moreover have "\<dots> = (if 2 ^ 63 \<le> u then u - 2 ^ 64 else u)"
  proof (cases "2 ^ 63 \<le> u")
    case True
    have "(u + 2 ^ 63) mod 2 ^ 64 = (u + 2 ^ 63 - 2 ^ 64) mod 2 ^ 64" by (simp only: minus_mod_self2)
    also have "\<dots> = u + 2 ^ 63 - 2 ^ 64" by (rule mod_pos_pos_trivial) (use True u(1,2) in simp_all)
    finally show ?thesis using True by simp
  next
    case False
    then have "(u + 2 ^ 63) mod 2 ^ 64 = u + 2 ^ 63" by (intro mod_pos_pos_trivial) (use u(1,2) in simp_all)
    then show ?thesis using False by simp
  qed
  moreover have "2 ^ 63 \<le> u \<longleftrightarrow> 2 ^ 63 \<le> unat w" unfolding u(3) [symmetric] by (metis of_nat_le_iff of_nat_numeral of_nat_power)
  ultimately show ?thesis by (simp only: u(3))
qed

lemma slt_zero: "(w :: u64) <s 0 \<longleftrightarrow> 2 ^ 63 \<le> unat w"
proof -
  have n: "n < 2 ^ 64 \<Longrightarrow> (if 2 ^ 63 \<le> n then int n - 2 ^ 64 else int n) < 0 \<longleftrightarrow> 2 ^ 63 \<le> n" for n by auto
  have "w <s 0 \<longleftrightarrow> sint w < 0" by (simp add: word_sless_alt)
  then show ?thesis using n [of "unat w"] by (simp add: sint_unat)
qed

lemma seek_word:
  fixes off :: u64
  assumes "a < 2 ^ 63"
  defines "p \<equiv> int a + sint off" and "w \<equiv> of_nat a + off"
  shows "w <s 0 \<longleftrightarrow> \<not> (0 \<le> p \<and> p < 2 ^ 63)" "0 \<le> p \<Longrightarrow> p < 2 ^ 63 \<Longrightarrow> unat w = nat p \<and> w = of_int p"
proof -
  define n where "n = unat off"
  have n: "n < 2 ^ 64" by (simp add: n_def)
  have p: "p = int a + (if 2 ^ 63 \<le> n then int n - 2 ^ 64 else int n)" by (simp add: p_def n_def sint_unat)
  have "w = off + of_nat a" by (simp add: w_def add.commute)
  then have u: "unat w = (if n + a < 2 ^ 64 then n + a else n + a - 2 ^ 64)"
    using assms(1) by (simp add: unat_add_of_nat n_def)
  show "w <s 0 \<longleftrightarrow> \<not> (0 \<le> p \<and> p < 2 ^ 63)"
    using assms(1) n unfolding slt_zero u p by (auto split: if_splits)
  assume q: "0 \<le> p" "p < 2 ^ 63"
  then have nat: "unat w = nat p"
    using assms(1) n unfolding u p by (auto split: if_splits)
  moreover have "unat (of_int p :: u64) = nat p"
    using q by (simp add: unsigned_of_int take_bit_eq_mod)
  ultimately show "unat w = nat p \<and> w = of_int p" by (simp add: word_unat_eq_iff)
qed

lemma seek_simulates:
  assumes ok: "sys_ok s" and st: "stream_of E fd f s = Some st" "stream_ok st"
  shows "simulates E fd f s (file_call E fd (SSeek pos whence) s) (stream_step (SSeek pos whence) st)"
proof -
  obtain off where off: "table_get fd (task_table (cur_task E) s) = Some (RFile f off)"
    "st = \<lparr> content = hf_vec (vfiles (ufs s) f), cursor = unat off, smem = umem s \<rparr>"
    by (rule stream_ofE [OF st(1)])
  let ?t = "task_table (cur_task E) s" and ?xs = "hf_vec (vfiles (ufs s) f)" and ?w = "ucast whence :: u32"
  define a where "a = (if ?w = 0 then 0 else if ?w = 1 then unat off else length ?xs)"
  have a: "a < 2 ^ 63" using st(2) off(2) by (simp add: a_def stream_ok_def)
  let ?new = "of_nat a + pos" and ?p = "int a + sint pos"
  let ?s' = "put_table E (table_set fd (RFile f ?new) ?t) s"
  have call: "file_call E fd (SSeek pos whence) s =
      (if ?w \<notin> {0, 1, 2} \<or> ?new <s 0 then Some (Inl InvalidArgument, put_table E ?t s) else Some (Inr ?new, ?s'))"
    using off(1) by (auto simp: sys_lseek_def seek_file_def call_defs a_def)
  have spec: "stream_step (SSeek pos whence) st =
      (if ?w \<notin> {0, 1, 2} \<or> \<not> (0 \<le> ?p \<and> ?p < 2 ^ 63) then Some (Inl InvalidArgument, st)
       else Some (Inr (of_int ?p), st\<lparr> cursor := nat ?p \<rparr>))"
    using off(2) by (simp add: seek_target_def a_def)
  show ?thesis
  proof (cases "?w \<notin> {0, 1, 2} \<or> ?new <s 0")
    case True
    then show ?thesis unfolding call spec using refused_simulates [OF ok st] seek_word(1) [OF a] by simp
  next
    case False
    then have p: "0 \<le> ?p" "?p < 2 ^ 63" using seek_word(1) [OF a] by auto
    then have n: "unat ?new = nat ?p" "?new = of_int ?p" using seek_word(2) [OF a] by auto
    have "updated E fd f ?new ?xs (umem s) s ?s'"
      using table_get_set [OF table_ok [OF ok]] by (auto simp: updated_def)
    then have "simulates E fd f s (Some (Inr ?new :: SyscallResult, ?s'))
        (Some (Inr ?new, \<lparr> content = ?xs, cursor = unat ?new, smem = umem s \<rparr>))"
      by (rule updated_simulates [OF ok]) (use st(2) off(2) n(1) p in \<open>simp_all add: stream_ok_def\<close>)
    then show ?thesis unfolding call spec n(2) [symmetric] using False p n(1) off(2) by simp
  qed
qed

lemma file_call_simulates:
  assumes "sys_ok s" "stream_of E fd f s = Some st" "stream_ok st"
  shows "simulates E fd f s (file_call E fd op s) (stream_step op st)"
  using read_simulates [OF assms] write_simulates [OF assms] seek_simulates [OF assms] pread_simulates [OF assms]
    pwrite_simulates [OF assms] by (cases op) auto

section \<open>Sequences of calls\<close>

lemma only_file_trans: "only_file E fd f s s' \<Longrightarrow> only_file E fd f s' s'' \<Longrightarrow> only_file E fd f s s''"
  by (simp add: only_file_def)

lemma run_calls_simulates:
  "sys_ok s \<Longrightarrow> stream_of E fd f s = Some st \<Longrightarrow> stream_ok st \<Longrightarrow>
   simulates E fd f s (run_calls (file_call E fd) ops s) (run_calls stream_step ops st)"
proof (induction ops arbitrary: s st)
  case Nil
  then show ?case by (simp add: simulates_def only_file_def)
next
  case (Cons op ops)
  note one = file_call_simulates [OF Cons.prems, of op, unfolded simulates_def]
  show ?case
  proof (cases "file_call E fd op s")
    case None
    then show ?thesis using one by (simp add: simulates_def)
  next
    case (Some p)
    then obtain r s' st' where s': "file_call E fd op s = Some (r, s')" "stream_step op st = Some (r, st')"
      "sys_ok s'" "stream_of E fd f s' = Some st'" "stream_ok st'" "only_file E fd f s s'"
      using one by (cases p; cases "stream_step op st") auto
    have "simulates E fd f s (map_option (apfst (Cons r)) (run_calls (file_call E fd) ops s'))
        (map_option (apfst (Cons r)) (run_calls stream_step ops st'))"
      using Cons.IH [OF s'(3-5)] unfolding simulates_def option.rel_map
      by (rule option.rel_mono_strong) (use only_file_trans [OF s'(6)] in auto)
    then show ?thesis using s'(1,2) by simp
  qed
qed

text \<open>
  C2. An open descriptor is a byte stream: every sequence of reads, writes, seeks and positioned reads and
  writes on it returns what the abstract file returns, panics exactly when that does (a position or a buffer
  beyond the address space), leaves the same bytes in user memory and in the file, and touches no other
  descriptor, task, file or directory.
\<close>

theorem descriptor_refines_stream:
  assumes "sys_ok s" "stream_of E fd f s = Some st" "stream_ok st"
  shows "rel_option (\<lambda>(rs, s') (rs', st'). rs = rs' \<and> stream_of E fd f s' = Some st' \<and> only_file E fd f s s')
    (run_calls (file_call E fd) ops s) (run_calls stream_step ops st)"
  using run_calls_simulates [OF assms, of ops] unfolding simulates_def
  by (rule option.rel_mono_strong) auto


definition ex_env :: "unit sys_env" where
  "ex_env =
     \<lparr> stdin_read = (\<lambda>n io. (None, io)), stdout_write = (\<lambda>bs io. (Some (length bs), io)),
       stderr_write = (\<lambda>bs io. (Some (length bs), io)), cur_task = 7, working_dir = Some 0 \<rparr>"

text \<open>A task that has the file of two bytes open as descriptor 4, and two buffers described at address 16.\<close>

definition ex_mem :: memory where
  "ex_mem = mem_write 16 (to_le 8 100 @ to_le 8 2 @ to_le 8 200 @ to_le 8 1)
     (mem_write 300 [5, 6, 7] (mem_write 200 [7] (mem_write 100 [5, 6] (\<lambda>_. 0))))"

definition ex_sys :: "unit Sys" where
  "ex_sys = \<lparr> umem = ex_mem, utabs = [(7, table_set 4 (RFile 0 1) ResourceTable_new)], ufs = ex_vfs, uio = () \<rparr>"

definition ex_stream :: stream where
  "ex_stream = \<lparr> content = [1, 2], cursor = 1, smem = ex_mem \<rparr>"

lemma ex_stream:
  "sys_ok ex_sys" "stream_of ex_env 4 0 ex_sys = Some ex_stream" "stream_ok ex_stream"
proof -
  have "bt_ok (resources (table_set 4 (RFile 0 1) ResourceTable_new))" by code_simp
  then show "sys_ok ex_sys" by (simp add: sys_ok_def ex_sys_def bt_ok_def bt_get_def)
  have "table_get 4 (table_set 4 (RFile 0 1) ResourceTable_new) = Some (RFile 0 1)" "hf_vec (vfiles ex_vfs 0) = [1, 2]"
    by code_simp+
  then show "stream_of ex_env 4 0 ex_sys = Some ex_stream"
    by (simp add: stream_of_def task_table_def ex_env_def ex_sys_def ex_stream_def bt_get_def)
  show "stream_ok ex_stream" by (simp add: stream_ok_def ex_stream_def)
qed

theorem descriptor_refines_stream_witness:
  "rel_option (\<lambda>(rs, s') (rs', st'). rs = rs' \<and> stream_of ex_env 4 0 s' = Some st' \<and> only_file ex_env 4 0 ex_sys s')
    (run_calls (file_call ex_env 4) [SWrite 100 2, SSeek 0 0, SRead 400 8] ex_sys)
    (run_calls stream_step [SWrite 100 2, SSeek 0 0, SRead 400 8] ex_stream)"
  by (rule descriptor_refines_stream [OF ex_stream])

section \<open>Vectored writes\<close>

lemma overwrite_append: "overwrite (p + length a) b (overwrite p a xs) = overwrite p (a @ b) xs"
proof -
  define h where "h = take p (xs @ replicate (p - length xs) 0)"
  have h: "length h = p" by (simp add: h_def)
  have o: "overwrite p a xs = (h @ a) @ drop (p + length a) xs" "overwrite p (a @ b) xs = h @ a @ b @ drop (p + length a + length b) xs"
    by (simp_all add: overwrite_def h_def add.assoc)
  show ?thesis unfolding o overwrite_def [of "p + length a"] using h by (simp add: add.commute)
qed

definition iov_bytes :: "memory \<Rightarrow> u64 \<Rightarrow> nat \<Rightarrow> u8 list" where
  "iov_bytes m iov_ptr i = mem_read m (iov_base m iov_ptr i) (unat (iov_len m iov_ptr i))"

text \<open>The stream after writing the bytes, or a panic.\<close>

definition stream_put :: "u64 \<Rightarrow> u8 list \<Rightarrow> stream \<Rightarrow> (SyscallResult \<times> stream) option" where
  "stream_put tot bs st =
     (if bs = [] then Some (Inr tot, st) else if 2 ^ 63 \<le> cursor st + length bs then None
      else Some (Inr (tot + of_nat (length bs)),
        st\<lparr> content := overwrite (cursor st) bs (content st), cursor := cursor st + length bs \<rparr>))"

lemma stream_put_append:
  assumes "bs \<noteq> []" "\<not> 2 ^ 63 \<le> cursor st + length bs"
  shows "stream_put (tot + of_nat (length bs)) cs
      (st\<lparr> content := overwrite (cursor st) bs (content st), cursor := cursor st + length bs \<rparr>) =
    stream_put tot (bs @ cs) st"
  using assms by (cases "cs = []") (simp_all add: stream_put_def overwrite_append add.assoc)

lemma simulates_trans:
  "simulates E fd f s' c a \<Longrightarrow> only_file E fd f s s' \<Longrightarrow> simulates E fd f s c a"
  unfolding simulates_def by (erule option.rel_mono_strong) (auto intro: only_file_trans)

lemma writev_loop_simulates:
  "sys_ok s \<Longrightarrow> stream_of E fd f s = Some st \<Longrightarrow> stream_ok st \<Longrightarrow>
   (\<And>i. i \<in> set is \<Longrightarrow> iov_len (smem st) iov_ptr i \<noteq> 0 \<Longrightarrow> iov_base (smem st) iov_ptr i \<noteq> 0) \<Longrightarrow>
   simulates E fd f s (writev_loop E fd iov_ptr is tot s)
     (stream_put tot (concat (map (iov_bytes (smem st) iov_ptr) is)) st)"
proof (induction "is" arbitrary: s st tot)
  case Nil
  then show ?case using unchanged_simulates [OF Nil(1-3)] by (simp add: stream_put_def ret_def)
next
  case (Cons i "is")
  have m: "smem st = umem s" by (rule smem_stream_of [OF Cons.prems(2)])
  let ?base = "iov_base (umem s) iov_ptr i" and ?len = "iov_len (umem s) iov_ptr i"
  let ?bs = "iov_bytes (umem s) iov_ptr i" and ?cs = "concat (map (iov_bytes (umem s) iov_ptr) is)"
  show ?case
  proof (cases "?len = 0")
    case True
    then have "?bs = []" by (simp add: iov_bytes_def)
    moreover have "simulates E fd f s (writev_loop E fd iov_ptr is tot s) (stream_put tot ?cs st)"
      using Cons.IH [OF Cons.prems(1-3)] Cons.prems(4) unfolding m by simp
    ultimately show ?thesis using True m by (simp add: Let_def)
  next
    case False
    then have base: "?base \<noteq> 0" using Cons.prems(4) m by auto
    have n: "?bs \<noteq> []" "length ?bs = unat ?len" using False
      by (auto simp: iov_bytes_def word_zero_cases simp flip: length_0_conv)
    note sim = write_simulates [OF Cons.prems(1-3), of ?base ?len]
    have spec: "stream_step (SWrite ?base ?len) st = stream_put 0 ?bs st"
      using False base n by (simp add: stream_write_def transfer_def stream_put_def m iov_bytes_def)
    note sim = sim [unfolded spec, simplified]
    show ?thesis
    proof (cases "2 ^ 63 \<le> cursor st + length ?bs")
      case True
      then have "sys_write E fd ?base ?len s = None" using sim n
        by (simp add: stream_put_def simulates_def)
      then show ?thesis using True False base n m by (simp add: Let_def stream_put_def simulates_def)
    next
      case fits: False
      let ?st = "st\<lparr> content := overwrite (cursor st) ?bs (content st), cursor := cursor st + length ?bs \<rparr>"
      obtain s' where s': "sys_write E fd ?base ?len s = Some (Inr (of_nat (length ?bs)), s')" "sys_ok s'"
        "stream_of E fd f s' = Some ?st" "stream_ok ?st" "only_file E fd f s s'"
        using sim fits n by (auto simp: stream_put_def simulates_def option_rel_Some2)
      have "simulates E fd f s' (writev_loop E fd iov_ptr is (tot + of_nat (length ?bs)) s')
          (stream_put (tot + of_nat (length ?bs)) ?cs ?st)"
        using Cons.IH [OF s'(2-4)] Cons.prems(4) m by simp
      moreover have "stream_put (tot + of_nat (length ?bs)) ?cs ?st = stream_put tot (?bs @ ?cs) st"
        by (rule stream_put_append [OF n(1) fits])
      ultimately show ?thesis using False base s'(1) simulates_trans [OF _ s'(5)] m by (simp add: Let_def)
    qed
  qed
qed



lemma ex_iov:
  "iov_base ex_mem 16 0 = 100" "iov_base ex_mem 16 1 = 200" "iov_len ex_mem 16 0 = 2" "iov_len ex_mem 16 1 = 1"
  "mem_read ex_mem 100 2 = [5, 6]" "mem_read ex_mem 200 1 = [7]" "mem_read ex_mem 300 3 = [5, 6, 7]"
  by (simp_all add: ex_mem_def iov_base_def iov_len_def read_u64_def mem_read_def upt_rec mem_write_def to_le_def from_le_def)

lemma ex_iov_bytes: "concat (map (iov_bytes ex_mem 16) [0..<2]) = [5, 6, 7]"
proof -
  have "[0..<2 :: nat] = [0, 1]" by code_simp
  then show ?thesis using ex_iov(1-6) by (simp add: iov_bytes_def)
qed


section \<open>Reading back\<close>

lemma take_drop_overwrite: "take (length bs) (drop p (overwrite p bs xs)) = bs"
  by (simp add: overwrite_def)

text \<open>
  What is written can be read back: after a write of \<open>cnt\<close> bytes at the cursor, a positioned read of \<open>cnt\<close>
  bytes from the old cursor succeeds and puts the same bytes into the other buffer.
\<close>

theorem write_pread_roundtrip:
  assumes "sys_ok s" "stream_of E fd f s = Some st" "stream_ok st"
    and "buf \<noteq> 0" "buf' \<noteq> 0" "cnt \<noteq> 0" "cursor st + unat cnt < 2 ^ 63"
  shows "\<exists>s'. run_calls (file_call E fd) [SWrite buf cnt, SPread buf' cnt (of_nat (cursor st))] s =
      Some ([Inr cnt, Inr cnt], s') \<and> mem_read (umem s') buf' (unat cnt) = mem_read (umem s) buf (unat cnt)"
proof -
  let ?ops = "[SWrite buf cnt, SPread buf' cnt (of_nat (cursor st))]"
  let ?bs = "mem_read (umem s) buf (unat cnt)"
  let ?st = "\<lparr> content = overwrite (cursor st) ?bs (content st), cursor = cursor st + unat cnt,
      smem = mem_write buf' ?bs (smem st) \<rparr>"
  have m: "smem st = umem s" by (rule smem_stream_of [OF assms(2)])
  have n: "?bs \<noteq> []" using assms(6) by (auto simp: word_zero_cases simp flip: length_0_conv)
  have c: "unat (of_nat (cursor st) :: u64) = cursor st" using assms(3) by (simp add: stream_ok_def unat_of_nat)
  have r: "take (unat cnt) (drop (cursor st) (overwrite (cursor st) ?bs (content st))) = ?bs"
    using take_drop_overwrite [of ?bs] by simp
  have cnt: "unat cnt < 2 ^ 63" using assms(7) by simp
  have "run_calls stream_step ?ops st = Some ([Inr cnt, Inr cnt], ?st)"
    using assms(4-7) m n c r cnt
    by (simp add: stream_write_def stream_read_def transfer_def length_overwrite word_zero_cases unat_gt_0)
  then obtain s' where "run_calls (file_call E fd) ?ops s = Some ([Inr cnt, Inr cnt], s')" "stream_of E fd f s' = Some ?st"
    using run_calls_simulates [OF assms(1-3), of ?ops] by (auto simp: simulates_def option_rel_Some2)
  moreover from this(2) have "umem s' = mem_write buf' ?bs (umem s)" using smem_stream_of m by fastforce
  moreover have "mem_read (mem_write buf' ?bs (umem s)) buf' (unat cnt) = ?bs"
    using mem_read_write_same [of ?bs buf' "umem s"] cnt by simp
  ultimately show ?thesis by auto
qed

theorem write_pread_roundtrip_witness:
  "\<exists>s'. run_calls (file_call ex_env 4) [SWrite 100 2, SPread 400 2 (of_nat (cursor ex_stream))] ex_sys =
      Some ([Inr 2, Inr 2], s') \<and> mem_read (umem s') 400 (unat (2 :: u64)) = mem_read (umem ex_sys) 100 (unat (2 :: u64))"
  by (rule write_pread_roundtrip [OF ex_stream]) (simp_all add: ex_stream_def)

end
