(* ===== verification/File_Open.thy ===== *)
theory File_Open
  imports File_Stream
begin

text \<open>
  Opening and creating files (\<open>sys_open\<close> of \<open>kernel/maios_syscall/src/file_io.rs\<close>): the call keeps the file
  system well formed, and the descriptor it returns is open on the file that the path names afterwards.
\<close>

section \<open>Looking up paths\<close>

lemma path_get_loop: "path_get F p cwd = Some (get_loop F (parse p) cwd)"
  by (auto simp: path_get_parse split: list.split Component.split)

lemma parse_split:
  "parse (before @ SEPARATOR # name) = parse (if before = [] then ''/'' else before) @ parse_body name"
proof (cases before)
  case Nil
  then show ?thesis by (simp add: parse_def starts_with_def SEPARATOR_def)
next
  case (Cons x xs)
  then show ?thesis using parse_body_append [of before name] parse_body_append [of xs name]
    by (cases xs) (auto simp: parse_def starts_with_Cons SEPARATOR_def [symmetric] starts_with_def)
qed

lemma get_loop_parent:
  "get_loop F (cs @ [ParentDir]) cur =
     (case get_loop F cs cur of Some (Dir d) \<Rightarrow> map_option Dir (fs_parent F d) | _ \<Rightarrow> None)"
  by (induction F cs cur rule: get_loop.induct) (auto split: option.split FileOrDir.split)

text \<open>Lookup from the root stays among the nodes that hang on the root.\<close>

lemma linked_dir: "wf_vfs V \<Longrightarrow> linked V (Dir d) \<Longrightarrow> d < next_dir V"
  by (erule linked.cases) (auto simp: wf_vfsD node_in_def dest: wf_vfsD(3))

lemma linked_parent:
  assumes "wf_vfs V" "linked V (Dir d)"
  obtains e where "fs_parent (vfs_fs V) d = Some e" "linked V (Dir e)"
  using assms(2)
proof cases
  case root
  then show ?thesis using that [of 0] by (simp add: vfs_fs_def linked.root)
next
  case (child e n)
  then show ?thesis using that [of e] wf_vfsD(3) [OF assms(1) child(2,3)] by (auto simp: vfs_fs_def node_in_def)
qed

lemma get_loop_linked:
  "wf_vfs V \<Longrightarrow> linked V (Dir cur) \<Longrightarrow> get_loop (vfs_fs V) cs cur = Some nd \<Longrightarrow> linked V nd"
proof (induction "vfs_fs V" cs cur rule: get_loop.induct)
  case (2 iter cur)
  then show ?case using linked.root by (simp add: vfs_fs_def)
next
  case (4 iter cur)
  obtain e where "fs_parent (vfs_fs V) cur = Some e" "linked V (Dir e)" by (rule linked_parent [OF 4(2,3)])
  then show ?case using 4 by auto
next
  case (5 name iter cur)
  have step: "linked V x" if "fs_lookup (vfs_fs V) cur name = Some x" for x
    using that 5(3) linked_dir [OF 5(2,3)] by (auto simp: vfs_fs_def dir_get_def child_def intro: linked.child)
  then show ?case using 5 by (auto split: option.splits FileOrDir.splits if_splits)
qed auto

text \<open>A file system that knows more names finds what was found before.\<close>

lemma get_loop_mono:
  assumes "fs_root F' = fs_root F" "\<And>d. fs_parent F' d = fs_parent F d"
    "\<And>d n x. fs_lookup F d n = Some x \<Longrightarrow> fs_lookup F' d n = Some x"
  shows "get_loop F cs cur = Some nd \<Longrightarrow> get_loop F' cs cur = Some nd"
proof (induction cs arbitrary: cur)
  case (Cons c cs)
  then show ?case
    by (cases c) (auto simp: assms(1,2) dest!: assms(3) split: option.splits FileOrDir.splits if_splits)
qed simp


section \<open>Creating a file\<close>

lemma index_insert_same [simp]:
  "children (index_insert n d) = children d" "dir_name (index_insert n d) = dir_name d"
  "dir_parent (index_insert n d) = dir_parent d"
  by (simp_all add: index_insert_def Let_def)

lemma create_lookup:
  assumes wf: "wf_vfs V" and d: "d < next_dir V" and new: "dir_get name (vdirs V d) = None"
  shows "fst (heapfile_create name d V) = next_file V"
    "fs_root (vfs_fs (snd (heapfile_create name d V))) = 0"
    "fs_parent (vfs_fs (snd (heapfile_create name d V))) e = fs_parent (vfs_fs V) e"
    "fs_lookup (vfs_fs (snd (heapfile_create name d V))) e n =
       (if e = d \<and> n = name then Some (File (next_file V)) else fs_lookup (vfs_fs V) e n)"
proof -
  have ok: "bt_ok (children (vdirs V d))" using wf_vfsD(2) [OF wf d] by (simp add: index_ok_def)
  let ?f = "next_file V"
  let ?V1 = "V\<lparr> vfiles := (vfiles V)(?f := \<lparr> hf_name = name, hf_vec = [], hf_parent = Some d \<rparr>), next_file := Suc ?f \<rparr>"
  have V': "snd (heapfile_create name d V) =
      dir_update d (\<lambda>dir. let dir' = (if d = 0 then dir else index_insert name dir)
        in dir'\<lparr> children := bt_insert name (File ?f) (children dir') \<rparr>) ?V1"
    using new by (simp add: heapfile_create_def heapfile_from_vec_def dir_insert_def Let_def dir_get_def cong: if_cong)
  show "fst (heapfile_create name d V) = ?f" by (simp add: heapfile_create_def heapfile_from_vec_def Let_def)
  show "fs_root (vfs_fs (snd (heapfile_create name d V))) = 0" by (simp add: vfs_fs_def)
  show "fs_parent (vfs_fs (snd (heapfile_create name d V))) e = fs_parent (vfs_fs V) e"
    unfolding V' by (simp add: vfs_fs_def dir_update_def Let_def)
  show "fs_lookup (vfs_fs (snd (heapfile_create name d V))) e n =
       (if e = d \<and> n = name then Some (File ?f) else fs_lookup (vfs_fs V) e n)"
    unfolding V' using btm.get_insert [OF ok] by (auto simp: vfs_fs_def dir_update_def dir_get_def Let_def)
qed

lemma create_contents:
  "g < next_file V \<Longrightarrow> hf_vec (vfiles (snd (heapfile_create name d V)) g) = hf_vec (vfiles V g)"
proof -
  have "hf_vec (vfiles (set_parent_dir W x q) g) = hf_vec (vfiles W g)" for W x q by (cases x) auto
  then show "g < next_file V \<Longrightarrow> ?thesis"
    by (auto simp: heapfile_create_def heapfile_from_vec_def dir_insert_def dir_update_def Let_def split: option.split)
qed

lemma fs_simps [simp]:
  "fs_root (vfs_fs V) = 0" "fs_lookup (vfs_fs V) d n = dir_get n (vdirs V d)"
  by (simp_all add: vfs_fs_def)

text \<open>What \<open>resolve_parent_and_name\<close> returns for a path that names nothing.\<close>

definition creates :: "Vfs \<Rightarrow> string \<Rightarrow> dirref \<Rightarrow> string \<Rightarrow> bool" where
  "creates V p d name \<longleftrightarrow> d < next_dir V \<and> valid_name name \<and>
     (SEPARATOR \<in> set p \<or> d = 0 \<longrightarrow> dir_get name (vdirs V d) = None \<and>
       (\<exists>cs. parse p = cs @ [Normal name] \<and> get_loop (vfs_fs V) cs 0 = Some (Dir d)))"

lemma resolve_total: "\<exists>res. resolve_parent_and_name E V p root = Some res"
  by (auto simp: resolve_parent_and_name_def path_get_loop Let_def split: option.split)

lemma resolve_below:
  assumes wf: "wf_vfs V" and absent: "get_loop (vfs_fs V) (parse p) 0 = None"
    and p: "rsplit_once SEPARATOR p = Some (before, name)"
    and r: "resolve_parent_and_name E V p 0 = Some (Inr (d, name'))"
  shows "name' = name \<and> creates V p d name"
proof -
  let ?par = "if before = [] then ''/'' else before"
  have n: "name \<noteq> []" "name' = name" "get_loop (vfs_fs V) (parse ?par) 0 = Some (Dir d)"
    using r p by (auto simp: resolve_parent_and_name_def path_get_loop Let_def
        split: if_splits option.splits FileOrDir.splits)
  have s: "p = before @ SEPARATOR # name" "SEPARATOR \<notin> set name" using p by (simp_all add: rsplit_once_Some)
  have q: "parse p = parse ?par @ parse_body name" unfolding s(1) by (rule parse_split)
  have l: "linked V (Dir d)" by (rule get_loop_linked [OF wf linked.root n(3)])
  have "name \<noteq> ''.''" using absent n(3) q s(2) by (auto simp: parse_body_whole component_def SEPARATOR_def)
  moreover have "name \<noteq> ''..''"
  proof
    assume "name = ''..''"
    then have "parse p = parse ?par @ [ParentDir]" using q s(2) by (simp add: parse_body_whole component_def)
    then show False using absent n(3) linked_parent [OF wf l] by (auto simp: get_loop_parent)
  qed
  ultimately have v: "valid_name name" using n s(2) by (simp add: valid_name_def)
  have c: "parse p = parse ?par @ [Normal name]" using q parse_valid_name [OF v] by simp
  have "dir_get name (vdirs V d) = None" using absent n(3) c by (simp add: get_loop_snoc)
  then show ?thesis using c n(2,3) v linked_dir [OF wf l] by (auto simp: creates_def)
qed

lemma resolve_plain:
  assumes wf: "wf_vfs V" and absent: "get_loop (vfs_fs V) (parse p) 0 = None" and p: "p \<noteq> []" "SEPARATOR \<notin> set p"
    and cwd: "\<And>e. working_dir E = Some e \<Longrightarrow> e < next_dir V"
    and r: "resolve_parent_and_name E V p 0 = Some (Inr (d, name))"
  shows "name = p \<and> creates V p d name"
proof -
  have "rsplit_once SEPARATOR p = None" using p(2) by (simp add: rsplit_once_None)
  then have n: "name = p" "working_dir E = Some d"
    using r by (auto simp: resolve_parent_and_name_def split: option.splits)
  have parent: "fs_parent (vfs_fs V) 0 = Some 0" by (simp add: vfs_fs_def)
  have "p \<noteq> ''.''" using absent by (auto simp: parse_def parse_body_whole starts_with_def SEPARATOR_def)
  moreover have "p \<noteq> ''..''" using absent parent
    by (auto simp: parse_def starts_with_def SEPARATOR_def parse_body_whole component_def)
  ultimately have "valid_name p" using p by (simp add: valid_name_def)
  then show ?thesis using n cwd [OF n(2)] absent parse_valid_name [of p] by (auto simp: creates_def p(2))
qed

lemma resolve_creates:
  assumes "wf_vfs V" "get_loop (vfs_fs V) (parse p) 0 = None" "p \<noteq> []"
    "\<And>e. working_dir E = Some e \<Longrightarrow> e < next_dir V" "resolve_parent_and_name E V p 0 = Some (Inr (d, name))"
  shows "creates V p d name"
  using resolve_below [OF assms(1,2) _ assms(5)] resolve_plain [OF assms(1-3) _ assms(4,5)]
  by (cases "rsplit_once SEPARATOR p") (auto simp: rsplit_once_None)

lemma create_found:
  assumes wf: "wf_vfs V" and c: "creates V p d name" and "SEPARATOR \<in> set p \<or> d = 0"
  shows "get_loop (vfs_fs (snd (heapfile_create name d V))) (parse p) 0 = Some (File (next_file V))"
proof -
  let ?V = "snd (heapfile_create name d V)"
  obtain cs where cs: "parse p = cs @ [Normal name]" "get_loop (vfs_fs V) cs 0 = Some (Dir d)"
    and d: "d < next_dir V" "dir_get name (vdirs V d) = None"
    using assms(2,3) by (auto simp: creates_def)
  note l = create_lookup [OF wf d]
  have "get_loop (vfs_fs ?V) cs 0 = Some (Dir d)"
    by (rule get_loop_mono [OF _ _ _ cs(2)]) (use l d(2) in \<open>auto simp del: fs_simps(2) simp: fs_simps(2) [of V]\<close>)
  then show ?thesis using l(4) [of d name] by (simp add: cs(1) get_loop_snoc)
qed


section \<open>Opening\<close>

text \<open>Truncation writes no byte, so it has no effect.\<close>

lemma trunc_no_effect: "vfs_write f [] 0 V = Some (0, V)"
  by (simp add: vfs_write_def write_at_def Let_def)

lemma open_fd_result:
  assumes "sys_ok s"
  obtains fd off s' where "open_fd E flags f s = Some (Inr fd, s')" "ufs s' = ufs s"
    "table_get fd (task_table (cur_task E) s') = Some (RFile f off)"
proof -
  let ?t = "task_table (cur_task E) s"
  let ?off = "if flags AND O_APPEND \<noteq> 0 then file_len f s else 0"
  let ?t' = "snd (alloc_fd (RFile f ?off) ?t)"
  have "open_fd E flags f s = Some (Inr (next_fd ?t), put_table E ?t' s)"
    by (simp add: open_fd_def call_defs alloc_fd_def)
  moreover have "table_get (next_fd ?t) ?t' = Some (RFile f ?off)"
    using btm.get_insert [OF table_ok [OF assms]] by (simp add: alloc_fd_def table_get_def Let_def)
  ultimately show ?thesis using that task_table_put [OF assms] by simp
qed



text \<open>The path \<open>/a/c\<close>, which does not exist yet, at address 500.\<close>

definition ex_open :: "unit Sys" where
  "ex_open = ex_sys\<lparr> umem := mem_write 500 [0x2F, 0x61, 0x2F, 0x63] (\<lambda>_. 0) \<rparr>"

lemma ex_open_path: "read_c_string (umem ex_open) 500 = Some ''/a/c''"
proof -
  have r: "mem_read (umem ex_open) 500 4 = [0x2F, 0x61, 0x2F, 0x63]"
    by (simp add: ex_open_def mem_write_def mem_read_def upt_rec)
  have "c_string_loop (umem ex_open) 500 0 = 4"
    by (rule c_string_loop_exact) (simp_all add: r, simp add: ex_open_def mem_write_def)
  moreover have "str_of [0x2F, 0x61, 0x2F, 0x63] = ''/a/c''" by code_simp
  ultimately show ?thesis using r by (simp add: read_c_string_def)
qed


text \<open>
  A name without a slash is looked up in the root but created in the working directory.  There it replaces a
  file of the same name, so every such call with \<open>O_CREAT\<close> discards what the previous one created.
\<close>

lemma relative_create_replaces:
  assumes "read_c_string (umem s) ptr = Some p" "SEPARATOR \<notin> set p" "path_get (vfs_fs (ufs s)) p 0 = Some None"
    and "working_dir E = Some d" "flags AND O_CREAT \<noteq> 0"
  shows "sys_open E ptr flags s =
    open_fd E flags (next_file (ufs s)) (s\<lparr> ufs := snd (heapfile_create p d (ufs s)) \<rparr>)"
proof -
  have "rsplit_once SEPARATOR p = None" using assms(2) by (simp add: rsplit_once_None)
  then show ?thesis using assms
    by (simp add: sys_open_def resolve_parent_and_name_def heapfile_create_def heapfile_from_vec_def Let_def)
qed

end
