(* ===== verification/Rtc.thy ===== *)
theory Rtc
  imports Prelude "HOL-Library.Word" "HOL-Library.Signed_Division"
begin

unbundle bit_operations_syntax

text \<open>
  The real-time clock (\<open>kernel/rtc/src/lib.rs\<close>) and the conversion of its calendar time to Unix time
  (\<open>rtc_to_unix_secs\<close> of \<open>kernel/maios_syscall/src/time.rs\<close>).  The CMOS registers are read and written through
  I/O ports: the byte read from a register is an argument, the byte written to one is a result.  The
  calendar computes with \<open>i64\<close> numbers far below overflow, which are integers here; its division
  truncates toward zero.
\<close>

section \<open>Registers\<close>

record RtcTime =
  seconds :: u8
  minutes :: u8
  hours :: u8
  days :: u8
  months :: u8
  years :: u8

text \<open>\<open>read_register\<close> turns the binary coded decimal of a register into a number.\<close>

definition read_register :: "u8 \<Rightarrow> u8" where
  "read_register bcd = (bcd div 16) * 10 + (bcd AND 0xf)"

definition read_rtc :: "(u8 \<Rightarrow> u8) \<Rightarrow> RtcTime" where
  "read_rtc cmos =
     \<lparr> seconds = read_register (cmos 0x00), minutes = read_register (cmos 0x02), hours = read_register (cmos 0x04),
       days = read_register (cmos 0x07), months = read_register (cmos 0x08), years = read_register (cmos 0x09) \<rparr>"

function log2_loop :: "nat \<Rightarrow> nat \<Rightarrow> nat" where
  "log2_loop v res = (if v > 0 then log2_loop (v div 2) (res + 1) else res)"
  by auto
termination by (relation "measure fst") auto

declare log2_loop.simps [simp del]

definition log2 :: "nat \<Rightarrow> nat" where
  "log2 v = log2_loop (v div 2) 0"

text \<open>The byte written to register A, whose previous value is \<open>prev\<close>; \<open>None\<close> is \<open>InvalidRtcRate\<close>.\<close>

definition set_rtc_frequency :: "nat \<Rightarrow> u8 \<Rightarrow> u8 option" where
  "set_rtc_frequency rate prev =
     (if \<not> ((\<exists>k \<le> 63. rate = 2 ^ k) \<and> 2 \<le> rate \<and> rate \<le> 8192) then None
      else let dividor = of_nat (log2 rate) + 2 in Some ((prev AND 0xF0) OR dividor))"

section \<open>Calendar\<close>

definition rtc_to_unix_secs :: "16 word \<Rightarrow> u8 \<Rightarrow> u8 \<Rightarrow> u8 \<Rightarrow> u8 \<Rightarrow> u8 \<Rightarrow> int" where
  "rtc_to_unix_secs year month day hour mins sec =
     (let y = uint year; m = uint month; d = uint day;
          (y_adj, m_adj) = (if m \<le> 2 then (y - 1, m + 9) else (y, m - 3));
          days = 365 * y_adj + y_adj sdiv 4 - y_adj sdiv 100 + y_adj sdiv 400 + (m_adj * 306 + 5) sdiv 10 + (d - 1) - 719468
      in days * 86400 + uint hour * 3600 + uint mins * 60 + uint sec)"

text \<open>The full year of the two digits of the clock.\<close>

definition full_year :: "u8 \<Rightarrow> 16 word" where
  "full_year y = (if y < 70 then 2000 + ucast y else 1900 + ucast y)"

section \<open>Decoding and rates\<close>

lemma read_register_bcd:
  assumes "n < 100"
  shows "read_register (of_nat (16 * (n div 10) + n mod 10)) = of_nat n"
proof -
  let ?w = "of_nat (16 * (n div 10) + n mod 10) :: u8"
  have lt: "16 * (n div 10) + n mod 10 < 256" using assms by linarith
  have w: "unat ?w = 16 * (n div 10) + n mod 10" using lt by (simp only: unat_of_nat) simp
  have "?w AND 0xf = take_bit 4 ?w" by (simp add: take_bit_eq_mask mask_eq_exp_minus_1)
  then have "unat (?w AND 0xf) = n mod 10" using w by (simp add: unat_mod take_bit_eq_mod)
  moreover have "unat (?w div 16) = n div 10" using w by (simp add: unat_div)
  moreover have "n div 10 * 10 < 256" "n < 256" using assms by auto
  ultimately have "unat (read_register ?w) = n"
    using assms by (simp add: read_register_def unat_word_ariths mod_less)
  then show ?thesis using assms by (simp add: word_unat_eq_iff unat_of_nat)
qed

lemma log2_loop_spec: "2 ^ n \<le> v \<Longrightarrow> v < 2 ^ Suc n \<Longrightarrow> log2_loop v res = res + Suc n"
proof (induction n arbitrary: v res)
  case 0
  then have "v = 1" by simp
  then show ?case by (simp add: log2_loop.simps [of "Suc 0"] log2_loop.simps [of 0])
next
  case (Suc n)
  then have "0 < v" "2 ^ n \<le> v div 2" "v div 2 < 2 ^ Suc n" by auto
  then show ?case using Suc.IH [of "v div 2" "Suc res"] by (simp add: log2_loop.simps [of v])
qed

lemma log2_exp: "log2 (2 ^ k) = k"
proof (cases k)
  case 0
  then show ?thesis by (simp add: log2_def log2_loop.simps)
next
  case (Suc n)
  then show ?thesis using log2_loop_spec [of n "2 ^ n" 0] by (simp add: log2_def)
qed

text \<open>
  The divider is computed as \<open>log2 rate + 2\<close>.  The clock runs at \<open>32768 >> (divider - 1)\<close> Hz, so only one of the
  accepted rates is set.
\<close>

lemma rtc_rate_only_128:
  assumes "set_rtc_frequency rate prev = Some reg"
  shows "drop_bit (unat (reg AND 0x0F) - 1) 32768 = rate \<longleftrightarrow> rate = 128"
proof -
  obtain k where k: "rate = 2 ^ k" "1 \<le> k" "k \<le> 13"
  proof -
    obtain j where j: "rate = 2 ^ j" "2 \<le> rate" "rate \<le> 8192"
      using assms by (auto simp: set_rtc_frequency_def split: if_splits)
    have "j \<noteq> 0" using j by (cases j) auto
    moreover have "\<not> 14 \<le> j" using j power_increasing [of 14 j "2 :: nat"] by auto
    ultimately show ?thesis using that [of j] j by auto
  qed
  have reg: "reg = (prev AND 0xF0) OR (of_nat k + 2)"
    using assms k by (simp add: set_rtc_frequency_def log2_exp Let_def split: if_splits)
  have low: "(of_nat k + 2 :: u8) AND 0x0F = of_nat k + 2"
  proof -
    have "unat (of_nat k + 2 :: u8) < 16" using k(3) by (simp add: unat_word_ariths unat_of_nat)
    then have "take_bit 4 (of_nat k + 2 :: u8) = of_nat k + 2"
      by (simp add: word_unat_eq_iff unat_mod take_bit_eq_mod)
    then show ?thesis by (simp add: take_bit_eq_mask mask_eq_exp_minus_1)
  qed
  have "reg AND 0x0F = ((prev AND 0xF0) AND 0x0F) OR ((of_nat k + 2) AND 0x0F)"
    unfolding reg by (simp add: bit.conj_disj_distrib2)
  also have "(prev AND 0xF0) AND 0x0F = 0" by (simp add: and.assoc)
  finally have "unat (reg AND 0x0F) = k + 2"
    using k(2,3) low by (simp add: unat_word_ariths unat_of_nat)
  moreover have "drop_bit (k + 2 - 1) (32768 :: nat) = 2 ^ k \<longleftrightarrow> (2 :: nat) ^ k = 128"
  proof -
    have e: "(32768 :: nat) = 2 ^ (14 - k) * 2 ^ (k + 1)" using k(3) by (simp flip: power_add)
    have "drop_bit (k + 1) (2 ^ (14 - k) * 2 ^ (k + 1)) = (2 :: nat) ^ (14 - k)"
      unfolding drop_bit_eq_div by (rule nonzero_mult_div_cancel_right) simp
    then have "drop_bit (k + 2 - 1) (32768 :: nat) = 2 ^ (14 - k)" unfolding e [symmetric] by simp
    moreover have "(128 :: nat) = 2 ^ 7" by simp
    ultimately show ?thesis using k(2,3) by (simp only: power_inject_exp) auto
  qed
  ultimately show ?thesis using k by auto
qed


section \<open>Unix time\<close>

text \<open>The Gregorian calendar, counting days from 1 January 1970.\<close>

definition leap :: "nat \<Rightarrow> bool" where
  "leap y \<longleftrightarrow> 4 dvd y \<and> (\<not> 100 dvd y \<or> 400 dvd y)"

definition days_in_month :: "nat \<Rightarrow> nat \<Rightarrow> nat" where
  "days_in_month y m =
     (if m \<in> {4, 6, 9, 11} then 30 else if m = 2 then (if leap y then 29 else 28) else 31)"

definition unix_days :: "nat \<Rightarrow> nat \<Rightarrow> nat \<Rightarrow> nat" where
  "unix_days y m d =
     (\<Sum>k \<leftarrow> [1970..<y]. if leap k then 366 else 365) + (\<Sum>j \<leftarrow> [1..<m]. days_in_month y j) + (d - 1)"

text \<open>The number of leap days up to a year, which the source computes by division.\<close>

definition leaps :: "nat \<Rightarrow> nat" where
  "leaps y = y div 4 + y div 400 - y div 100"

lemma div_step: "Suc y div n = y div n + (if n dvd Suc y then 1 else 0)"
  by (simp add: div_Suc dvd_eq_mod_eq_0)

lemma leaps_Suc: "leaps (Suc y) = leaps y + (if leap (Suc y) then 1 else 0)"
proof -
  have d: "4 dvd Suc y" if "100 dvd Suc y" using that dvd_trans [of 4 100 "Suc y"] by simp
  have e: "100 dvd Suc y" if "400 dvd Suc y" using that dvd_trans [of 100 400 "Suc y"] by simp
  have "y div 100 \<le> y div 4" by (rule div_le_mono2) simp_all
  then have "y div 100 \<le> y div 4 + y div 400" by simp
  then show ?thesis using d e unfolding leaps_def leap_def div_step [of y]
    by (cases "4 dvd Suc y"; cases "100 dvd Suc y"; cases "400 dvd Suc y") (simp_all add: Suc_diff_le)
qed

lemma sum_years: "1970 \<le> y \<Longrightarrow> (\<Sum>k \<leftarrow> [1970..<y]. if leap k then 366 else 365) + 719162 = 365 * (y - 1) + leaps (y - 1)"
proof (induction y rule: dec_induct)
  case base
  show ?case by (simp add: leaps_def)
next
  case (step y)
  then show ?case using leaps_Suc [of "y - 1"] by (simp split: if_splits)
qed


lemma sdiv_nat: "int a sdiv int n = int (a div n)"
  by (simp add: signed_divide_int_def zdiv_int sgn_if)

text \<open>The days before a month, and the formula of the source for them.\<close>

lemma month_cases: "1 \<le> m \<Longrightarrow> m \<le> 12 \<Longrightarrow> m \<in> {1, 2, 3, 4, 5, 6, 7, 8, 9, 10, 11, 12 :: nat}"
proof -
  assume "1 \<le> m" "m \<le> 12"
  then have "m \<in> set [1..<13]" by simp
  moreover have "[1..<13] = [1, 2, 3, 4, 5, 6, 7, 8, 9, 10, 11, 12 :: nat]" by code_simp
  ultimately show ?thesis by (simp only: list.set)
qed

lemma month_days:
  assumes "1 \<le> m" "m \<le> 12"
  shows "(\<Sum>j \<leftarrow> [1..<m]. days_in_month y j) + 306 =
    (if m \<le> 2 then (306 * (m + 9) + 5) div 10 else (306 * (m - 3) + 5) div 10 + 365 + (if leap y then 1 else 0))"
  using month_cases [OF assms] by (elim insertE emptyE; hypsubst) (simp add: upt_rec days_in_month_def)+

lemma unix_days_formula:
  assumes "1970 \<le> y" "1 \<le> m" "m \<le> 12" "1 \<le> d"
  shows "int (unix_days y m d) =
    (if m \<le> 2 then 365 * int (y - 1) + int (leaps (y - 1)) + int ((306 * (m + 9) + 5) div 10)
     else 365 * int y + int (leaps y) + int ((306 * (m - 3) + 5) div 10)) + (int d - 1) - 719468"
  using sum_years [OF assms(1)] month_days [OF assms(2,3), of y] leaps_Suc [of "y - 1"] assms
  by (simp add: unix_days_def of_nat_diff split: if_splits)


text \<open>
  C35. The conversion of calendar time to Unix time is exact: for every date from 1970 on it gives the seconds of
  the days that the Gregorian calendar counts since 1 January 1970, and of the time of day.
\<close>

theorem rtc_to_unix_secs_correct:
  assumes "1970 \<le> unat year" "1 \<le> unat month" "unat month \<le> 12" "1 \<le> unat day"
  shows "rtc_to_unix_secs year month day hour mins sec =
    86400 * int (unix_days (unat year) (unat month) (unat day)) + 3600 * uint hour + 60 * uint mins + uint sec"
proof -
  define y m d where ymd: "y = unat year" "m = unat month" "d = unat day"
  have u: "uint year = int y" "uint month = int m" "uint day = int d" by (simp_all add: ymd)
  have a: "1970 \<le> y" "1 \<le> m" "m \<le> 12" "1 \<le> d" using assms by (simp_all add: ymd)
  have q: "int (leaps k) = int k sdiv 4 - int k sdiv 100 + int k sdiv 400" for k
    using sdiv_nat [of k 4] sdiv_nat [of k 100] sdiv_nat [of k 400] div_le_mono2 [of 4 100 k]
    by (simp add: leaps_def of_nat_diff)
  have s: "(int k * 306 + 5) sdiv 10 = int ((306 * k + 5) div 10)" for k
    using sdiv_nat [of "306 * k + 5" 10] by (simp add: mult.commute)
  have main: "rtc_to_unix_secs year month day hour mins sec =
      86400 * int (unix_days y m d) + 3600 * uint hour + 60 * uint mins + uint sec"
  proof (cases "m \<le> 2")
    case True
    have n: "int m + 9 = int (m + 9)" "int y - 1 = int (y - 1)" using a(1) by auto
    have "int (unix_days y m d) = 365 * int (y - 1) + int (leaps (y - 1)) + int ((306 * (m + 9) + 5) div 10) + (int d - 1) - 719468"
      using unix_days_formula [OF a] True by simp
    moreover have "rtc_to_unix_secs year month day hour mins sec =
        (365 * int (y - 1) + int (y - 1) sdiv 4 - int (y - 1) sdiv 100 + int (y - 1) sdiv 400 + (int (m + 9) * 306 + 5) sdiv 10
          + (int d - 1) - 719468) * 86400 + uint hour * 3600 + uint mins * 60 + uint sec"
      unfolding rtc_to_unix_secs_def Let_def u n [symmetric] using True by simp
    ultimately show ?thesis unfolding q s by (simp add: algebra_simps)
  next
    case False
    have n: "int m - 3 = int (m - 3)" using False by auto
    have "int (unix_days y m d) = 365 * int y + int (leaps y) + int ((306 * (m - 3) + 5) div 10) + (int d - 1) - 719468"
      using unix_days_formula [OF a] False by simp
    moreover have "rtc_to_unix_secs year month day hour mins sec =
        (365 * int y + int y sdiv 4 - int y sdiv 100 + int y sdiv 400 + (int (m - 3) * 306 + 5) sdiv 10
          + (int d - 1) - 719468) * 86400 + uint hour * 3600 + uint mins * 60 + uint sec"
      unfolding rtc_to_unix_secs_def Let_def u n [symmetric] using False by simp
    ultimately show ?thesis unfolding q s by (simp add: algebra_simps)
  qed
  then show ?thesis by (simp only: ymd)
qed

theorem rtc_to_unix_secs_correct_witness:
  "rtc_to_unix_secs 2024 2 29 23 59 58 =
    86400 * int (unix_days (unat (2024 :: 16 word)) (unat (2 :: u8)) (unat (29 :: u8))) + 3600 * uint (23 :: u8) +
      60 * uint (59 :: u8) + uint (58 :: u8)"
  by (rule rtc_to_unix_secs_correct) simp_all

end
