(* ===== verification/Elf_Loader.thy ===== *)
theory Elf_Loader
  imports Memory_Structs User_Memory
begin

unbundle bit_operations_syntax

text \<open>
  The ELF loader (\<open>kernel/elf_loader/src/lib.rs\<close>) on the bytes of a file, and the slice of mapped pages it
  writes through (\<open>MappedPages::as_slice_mut\<close> of \<open>kernel/memory/src/paging/mapper.rs\<close>).  The structures of the
  file are read at their offsets in little-endian order.  \<open>memory::create_mapping\<close> is an argument: the result
  of the \<open>n\<close>-th call for a number of bytes, an error or pages with an address and contents.  An error is a
  message; a panic is \<open>None\<close>.
\<close>

type_synonym 'a res = "string + 'a"

section \<open>Headers\<close>

definition field :: "u8 list \<Rightarrow> nat \<Rightarrow> nat \<Rightarrow> u64" where
  "field data off n = from_le (take n (drop off data))"

record Elf64Header =
  e_ident :: "u8 list"
  e_type :: u64
  e_machine :: u64
  e_entry :: u64
  e_phoff :: u64
  e_phentsize :: u64
  e_phnum :: u64

record Elf64ProgramHeader =
  p_type :: u64
  p_flags :: u64
  p_offset :: u64
  p_vaddr :: u64
  p_filesz :: u64
  p_memsz :: u64

definition elf_header_at :: "u8 list \<Rightarrow> Elf64Header" where
  "elf_header_at data =
     \<lparr> e_ident = take 16 data, e_type = field data 16 2, e_machine = field data 18 2, e_entry = field data 24 8,
       e_phoff = field data 32 8, e_phentsize = field data 54 2, e_phnum = field data 56 2 \<rparr>"

definition phdr_at :: "u8 list \<Rightarrow> nat \<Rightarrow> Elf64ProgramHeader" where
  "phdr_at data off =
     \<lparr> p_type = field data off 4, p_flags = field data (off + 4) 4, p_offset = field data (off + 8) 8,
       p_vaddr = field data (off + 16) 8, p_filesz = field data (off + 32) 8, p_memsz = field data (off + 40) 8 \<rparr>"

definition parse_header :: "u8 list \<Rightarrow> Elf64Header res" where
  "parse_header data =
     (let header = elf_header_at data
      in if length data < 64 then Inl ''elf_loader: data too small for ELF64 header''
         else if take 4 (e_ident header) \<noteq> [0x7f, 0x45, 0x4C, 0x46] then Inl ''elf_loader: invalid ELF magic number''
         else if e_ident header ! 4 \<noteq> 2 then Inl ''elf_loader: not a 64-bit ELF (ELFCLASS64 expected)''
         else if e_ident header ! 5 \<noteq> 1 then Inl ''elf_loader: not a little-endian ELF (ELFDATA2LSB expected)''
         else if e_machine header \<noteq> 62 then Inl ''elf_loader: not an x86_64 ELF (EM_X86_64 expected)''
         else if e_type header \<noteq> 2 \<and> e_type header \<noteq> 3 then Inl ''elf_loader: ELF type is neither ET_EXEC nor ET_DYN''
         else if e_phentsize header \<noteq> 56 then Inl ''elf_loader: unexpected e_phentsize for ELF64''
         else Inr header)"

definition program_headers :: "u8 list \<Rightarrow> Elf64Header \<Rightarrow> Elf64ProgramHeader list res" where
  "program_headers data header =
     (let off = unat (e_phoff header); num = unat (e_phnum header); tot = num * 56
      in if 2 ^ 64 \<le> tot then Inl ''elf_loader: program header table size overflow''
         else if 2 ^ 64 \<le> off + tot then Inl ''elf_loader: program header table offset overflow''
         else if length data < off + tot then Inl ''elf_loader: program headers extend beyond ELF data''
         else Inr (map (\<lambda>i. phdr_at data (off + 56 * i)) [0..<num]))"

section \<open>Loading\<close>

record Mapped =
  mp_start :: usize
  mp_bytes :: "u8 list"
  mp_writable :: bool

text \<open>\<open>as_slice_mut\<close> for bytes, followed by storing \<open>length\<close> bytes through the slice.\<close>

definition as_slice_mut :: "Mapped \<Rightarrow> nat \<Rightarrow> nat \<Rightarrow> unit res" where
  "as_slice_mut mp byte_offset len =
     (if 2 ^ 63 \<le> len then Inl ''MappedPages::as_slice_mut(): length * size_of::<T>() must be no larger than isize::MAX''
      else if \<not> mp_writable mp then Inl ''MappedPages::as_slice_mut(): MappedPages were not writable''
      else if 2 ^ 64 \<le> unat (mp_start mp) + byte_offset then Inl ''MappedPages::as_slice_mut(): overflow: start_address + byte_offset''
      else if 2 ^ 64 \<le> byte_offset + len then Inl ''MappedPages::as_slice_mut(): overflow: byte_offset + (length * size_of::<T>())''
      else if length (mp_bytes mp) < byte_offset + len then Inl ''MappedPages::as_slice_mut(): requested slice length and byte_offset would not fit within the MappedPages bounds''
      else Inr ())"

definition store_slice :: "Mapped \<Rightarrow> nat \<Rightarrow> u8 list \<Rightarrow> Mapped" where
  "store_slice mp off bs = mp\<lparr> mp_bytes := take off (mp_bytes mp) @ bs @ drop (off + length bs) (mp_bytes mp) \<rparr>"

type_synonym mapper = "nat \<Rightarrow> usize \<Rightarrow> Mapped res"

text \<open>
  One turn of the loop of \<open>load\<close>: \<open>Inr None\<close> skips the segment.  \<open>dest[..filesz]\<close> panics when the file part is
  longer than the segment.
\<close>

definition load_segment :: "u8 list \<Rightarrow> mapper \<Rightarrow> nat \<Rightarrow> Elf64ProgramHeader \<Rightarrow> Mapped option res option" where
  "load_segment data create_mapping n phdr =
     (let vaddr = p_vaddr phdr; memsz = unat (p_memsz phdr); filesz = unat (p_filesz phdr); offset = unat (p_offset phdr);
          page_offset = unat (vaddr AND 4095)
      in if p_type phdr \<noteq> 1 \<or> memsz = 0 then Some (Inr None)
         else if 0 < filesz \<and> 2 ^ 64 \<le> offset + filesz then Some (Inl ''elf_loader: segment file offset + filesz overflow'')
         else if 0 < filesz \<and> length data < offset + filesz then Some (Inl ''elf_loader: segment file data exceeds ELF input bounds'')
         else if 2 ^ 64 \<le> memsz + page_offset then Some (Inl ''elf_loader: allocation size overflow'')
         else case create_mapping n (of_nat (memsz + page_offset)) of
           Inl e \<Rightarrow> Some (Inl e)
         | Inr mapped \<Rightarrow>
             (case as_slice_mut mapped page_offset memsz of
                Inl _ \<Rightarrow> Some (Inl ''elf_loader: failed to obtain mutable slice for mapped segment'')
              | Inr _ \<Rightarrow>
                  if memsz < filesz then None
                  else Some (Inr (Some (store_slice mapped page_offset
                         (take filesz (drop offset data) @ replicate (memsz - filesz) 0))))))"

fun load_loop :: "u8 list \<Rightarrow> mapper \<Rightarrow> Elf64ProgramHeader list \<Rightarrow> Mapped list \<Rightarrow> Mapped list res option" where
  "load_loop data create_mapping [] segments = Some (Inr segments)"
| "load_loop data create_mapping (phdr # phdrs) segments =
     (case load_segment data create_mapping (length segments) phdr of
        None \<Rightarrow> None
      | Some (Inl e) \<Rightarrow> Some (Inl e)
      | Some (Inr None) \<Rightarrow> load_loop data create_mapping phdrs segments
      | Some (Inr (Some mapped)) \<Rightarrow> load_loop data create_mapping phdrs (segments @ [mapped]))"

record LoadedElf =
  entry_point :: usize
  segments :: "Mapped list"

definition load :: "u8 list \<Rightarrow> mapper \<Rightarrow> LoadedElf res option" where
  "load data create_mapping =
     (case parse_header data of
        Inl e \<Rightarrow> Some (Inl e)
      | Inr header \<Rightarrow>
          (case program_headers data header of
             Inl e \<Rightarrow> Some (Inl e)
           | Inr phdrs \<Rightarrow>
               (case load_loop data create_mapping phdrs [] of
                  None \<Rightarrow> None
                | Some (Inl e) \<Rightarrow> Some (Inl e)
                | Some (Inr segs) \<Rightarrow>
                    if segs = [] then Some (Inl ''elf_loader: no PT_LOAD segments found in ELF binary'')
                    else Some (Inr \<lparr> entry_point = new_canonical Virtual (e_entry header), segments = segs \<rparr>))))"


section \<open>What is loaded\<close>

definition loadable :: "Elf64ProgramHeader \<Rightarrow> bool" where
  "loadable p \<longleftrightarrow> p_type p = 1 \<and> p_memsz p \<noteq> 0"

text \<open>The bytes of a segment: its part of the file, then zeros.\<close>

definition image :: "u8 list \<Rightarrow> Elf64ProgramHeader \<Rightarrow> u8 list" where
  "image data p =
     take (unat (p_filesz p)) (drop (unat (p_offset p)) data) @ replicate (unat (p_memsz p) - unat (p_filesz p)) 0"

definition holds_segment :: "u8 list \<Rightarrow> Elf64ProgramHeader \<Rightarrow> Mapped \<Rightarrow> bool" where
  "holds_segment data p mp \<longleftrightarrow>
     take (unat (p_memsz p)) (drop (unat (p_vaddr p AND 4095)) (mp_bytes mp)) = image data p"

text \<open>Why a loadable segment is refused: its file part is outside the file, or no fitting pages are mapped for it.\<close>

definition segment_refused :: "u8 list \<Rightarrow> mapper \<Rightarrow> nat \<Rightarrow> Elf64ProgramHeader \<Rightarrow> bool" where
  "segment_refused data create_mapping n p \<longleftrightarrow>
     (let memsz = unat (p_memsz p); filesz = unat (p_filesz p); page_offset = unat (p_vaddr p AND 4095);
          file_end = unat (p_offset p) + filesz
      in 0 < filesz \<and> (2 ^ 64 \<le> file_end \<or> length data < file_end) \<or> 2 ^ 64 \<le> memsz + page_offset \<or>
         (case create_mapping n (of_nat (memsz + page_offset)) of
            Inl e \<Rightarrow> True
          | Inr mp \<Rightarrow> (case as_slice_mut mp page_offset memsz of Inl e \<Rightarrow> True | Inr u \<Rightarrow> False)))"

lemma load_segment_cases:
  assumes "load_segment data cm n p = r"
  shows "r = Some (Inr None) \<and> \<not> loadable p \<or>
    r = None \<and> loadable p \<and> unat (p_memsz p) < unat (p_filesz p) \<or>
    (\<exists>e. r = Some (Inl e) \<and> loadable p \<and> segment_refused data cm n p) \<or>
    (\<exists>mp. r = Some (Inr (Some mp)) \<and> loadable p \<and> holds_segment data p mp)"
proof -
  let ?po = "unat (p_vaddr p AND 4095)" and ?m = "unat (p_memsz p)" and ?f = "unat (p_filesz p)"
  have "holds_segment data p (store_slice mp ?po (image data p))"
    if "as_slice_mut mp ?po ?m = Inr ()" "?f \<le> ?m" "0 < ?f \<longrightarrow> unat (p_offset p) + ?f \<le> length data" for mp
  proof -
    have "length (image data p) = ?m" using that(2,3) by (auto simp: image_def)
    moreover have "?po + ?m \<le> length (mp_bytes mp)" using that(1) by (auto simp: as_slice_mut_def split: if_splits)
    ultimately show ?thesis by (simp add: holds_segment_def store_slice_def)
  qed
  then show ?thesis
    using assms unfolding load_segment_def Let_def image_def [symmetric]
    by (auto simp: loadable_def segment_refused_def Let_def unat_eq_0 not_less split: if_splits sum.splits)
qed

lemma load_loop_cases:
  "load_loop data cm ps segs = r \<Longrightarrow>
   (case r of None \<Rightarrow> \<exists>p \<in> set ps. loadable p \<and> unat (p_memsz p) < unat (p_filesz p)
    | Some (Inl e) \<Rightarrow> \<exists>p n. p \<in> set ps \<and> loadable p \<and> segment_refused data cm n p
    | Some (Inr segs') \<Rightarrow> \<exists>ms. segs' = segs @ ms \<and> list_all2 (holds_segment data) (filter loadable ps) ms)"
proof (induction ps arbitrary: segs)
  case Nil
  then show ?case by auto
next
  case (Cons p ps)
  show ?case
    using load_segment_cases [OF refl, of data cm "length segs" p] Cons.prems Cons.IH
    by (elim disjE conjE exE) (fastforce split: option.splits sum.splits)+
qed


text \<open>
  C36. Loading a file: when it succeeds, the pages are in order those of the loadable segments of the file, at least
  one, and each holds at its page offset the bytes of its segment, zeros after the part that comes from the
  file; the entry point is that of the header.  It panics only for a file with a loadable segment whose part in the
  file is longer than the segment.  A file is refused only when a header is refused, no segment is loadable, or a
  loadable segment leaves the file or gets no fitting pages.
\<close>

theorem elf_load_correct:
  "case load data create_mapping of
     Some (Inr elf) \<Rightarrow>
       \<exists>h ps. parse_header data = Inr h \<and> program_headers data h = Inr ps \<and> segments elf \<noteq> [] \<and>
         list_all2 (holds_segment data) (filter loadable ps) (segments elf) \<and>
         entry_point elf = new_canonical Virtual (e_entry h)
   | Some (Inl e) \<Rightarrow>
       parse_header data = Inl e \<or>
       (\<exists>h. parse_header data = Inr h \<and> (program_headers data h = Inl e \<or>
         (\<exists>ps. program_headers data h = Inr ps \<and> (filter loadable ps = [] \<or>
            (\<exists>p n. p \<in> set ps \<and> loadable p \<and> segment_refused data create_mapping n p)))))
   | None \<Rightarrow>
       \<exists>h ps p. parse_header data = Inr h \<and> program_headers data h = Inr ps \<and> p \<in> set ps \<and> loadable p \<and>
         unat (p_memsz p) < unat (p_filesz p)"
proof (cases "parse_header data")
  case (Inl e)
  then show ?thesis by (simp add: load_def)
next
  case h: (Inr h)
  show ?thesis
  proof (cases "program_headers data h")
    case (Inl e)
    then show ?thesis using h by (simp add: load_def)
  next
    case (Inr ps)
    then show ?thesis using h load_loop_cases [where data = data and cm = create_mapping and ps = ps and segs = "[]", OF refl]
      by (auto simp: load_def split: option.splits sum.splits)
  qed
qed

text \<open>
  The address of a segment in the file only fixes its offset in a page: the pages are wherever \<open>create_mapping\<close>
  puts them, and the entry point is not moved along.
\<close>

lemma segment_address_ignored:
  assumes "p_vaddr q AND 4095 = p_vaddr p AND 4095" "q = p\<lparr> p_vaddr := p_vaddr q \<rparr>"
  shows "load_segment data create_mapping n q = load_segment data create_mapping n p"
proof -
  have "p_type q = p_type p" "p_memsz q = p_memsz p" "p_filesz q = p_filesz p" "p_offset q = p_offset p"
    by (subst assms(2), simp)+
  then show ?thesis using assms(1) by (simp add: load_segment_def)
qed


text \<open>A file with one segment of two bytes and two zeros loads.\<close>

definition ex_elf :: "u8 list" where
  "ex_elf =
     [127, 69, 76, 70, 2, 1, 1, 0, 0, 0, 0, 0, 0, 0, 0, 0,
      2, 0, 62, 0, 1, 0, 0, 0, 0, 0, 64, 0, 0, 0, 0, 0,
      64, 0, 0, 0, 0, 0, 0, 0, 0, 0, 0, 0, 0, 0, 0, 0,
      0, 0, 0, 0, 0, 0, 56, 0, 1, 0, 0, 0, 0, 0, 0, 0,
      1, 0, 0, 0, 5, 0, 0, 0, 120, 0, 0, 0, 0, 0, 0, 0,
      0, 0, 64, 0, 0, 0, 0, 0, 0, 0, 0, 0, 0, 0, 0, 0,
      2, 0, 0, 0, 0, 0, 0, 0, 4, 0, 0, 0, 0, 0, 0, 0,
      0, 0, 0, 0, 0, 0, 0, 0, 171, 205]"

lemma ex_elf_header: "elf_header_at ex_elf =
    \<lparr> e_ident = take 16 ex_elf, e_type = 2, e_machine = 62, e_entry = 0x400000, e_phoff = 64, e_phentsize = 56, e_phnum = 1 \<rparr>"
  by (simp add: elf_header_at_def field_def from_le_def ex_elf_def)

lemma ex_elf_phdr: "phdr_at ex_elf 64 =
    \<lparr> p_type = 1, p_flags = 5, p_offset = 120, p_vaddr = 0x400000, p_filesz = 2, p_memsz = 4 \<rparr>"
  by (simp add: phdr_at_def field_def from_le_def ex_elf_def)

lemma ex_elf_loads:
  "load ex_elf (\<lambda>_ _. Inr \<lparr> mp_start = 0x1000, mp_bytes = [1, 1, 1, 1, 1, 1], mp_writable = True \<rparr>) =
   Some (Inr \<lparr> entry_point = 0x400000,
     segments = [\<lparr> mp_start = 0x1000, mp_bytes = [0xAB, 0xCD, 0, 0, 1, 1], mp_writable = True \<rparr>] \<rparr>)"
proof -
  have len: "length ex_elf = 122" and id: "take 16 ex_elf = [127, 69, 76, 70, 2, 1, 1, 0, 0, 0, 0, 0, 0, 0, 0, 0]"
    and bytes: "take 2 (drop 120 ex_elf) = [0xAB, 0xCD]"
    by (simp_all add: ex_elf_def)
  have entry: "canonicalize_virtual_address 0x400000 = 0x400000" by code_simp
  have zeros: "replicate 2 0 = [0, 0 :: u8]" by code_simp
  show ?thesis
    by (simp add: load_def parse_header_def program_headers_def ex_elf_header ex_elf_phdr len id bytes entry zeros
        load_segment_def as_slice_mut_def store_slice_def Let_def)
qed

end
