(* ===== verification/Clock_Time.thy ===== *)
theory Clock_Time
  imports Prelude "HOL-Library.Word"
begin

text \<open>
  Clocks (\<open>kernel/time/src/lib.rs\<close>): instants are counter values of the monotonic clock, whose period in
  femtoseconds is an argument here, and durations are numbers of nanoseconds, as \<open>core::time::Duration\<close> keeps
  them split into seconds and a rest.  The 128-bit products never overflow.  A panic is \<open>None\<close>.  The registry of
  clock sources keeps for each kind of clock a function, of a type left open, and its period.
\<close>

type_synonym Instant = u64
type_synonym Period = u64
type_synonym Duration = nat

section \<open>Durations\<close>

definition NANOS_PER_SEC :: nat where
  "NANOS_PER_SEC = 1000000000"

text \<open>\<open>Duration::new\<close> carries whole seconds of \<open>nanos\<close> over and panics when the seconds overflow.\<close>

definition duration_new :: "u64 \<Rightarrow> u32 \<Rightarrow> Duration option" where
  "duration_new secs nanos =
     (let s = unat secs + unat nanos div NANOS_PER_SEC
      in if s < 2 ^ 64 then Some (s * NANOS_PER_SEC + unat nanos mod NANOS_PER_SEC) else None)"

definition from_millis :: "u64 \<Rightarrow> Duration" where
  "from_millis ms = unat ms * 1000000"

definition as_secs :: "Duration \<Rightarrow> u64" where
  "as_secs d = of_nat (d div NANOS_PER_SEC)"

definition subsec_nanos :: "Duration \<Rightarrow> u32" where
  "subsec_nanos d = of_nat (d mod NANOS_PER_SEC)"

section \<open>Instants\<close>

definition FEMTOS_TO_NANOS :: nat where
  "FEMTOS_TO_NANOS = 1000000"

definition checked_duration_since :: "Period \<Rightarrow> Instant \<Rightarrow> Instant \<Rightarrow> Duration option" where
  "checked_duration_since period self earlier =
     (if self < earlier then None
      else let femtos = unat (self - earlier) * unat period
           in Some (unat (of_nat (femtos div FEMTOS_TO_NANOS) :: u64)))"

definition duration_since :: "Period \<Rightarrow> Instant \<Rightarrow> Instant \<Rightarrow> Duration" where
  "duration_since period self earlier = (case checked_duration_since period self earlier of Some d \<Rightarrow> d | None \<Rightarrow> 0)"

definition duration_ticks :: "Period \<Rightarrow> Duration \<Rightarrow> u64 option" where
  "duration_ticks period d = (if period = 0 then None else Some (of_nat (d * FEMTOS_TO_NANOS div unat period)))"

definition instant_add :: "Period \<Rightarrow> Instant \<Rightarrow> Duration \<Rightarrow> Instant option" where
  "instant_add period self d =
     do {
       ticks \<leftarrow> duration_ticks period d;
       if unat self + unat ticks < 2 ^ 64 then Some (self + ticks) else None
     }"

definition instant_sub :: "Period \<Rightarrow> Instant \<Rightarrow> Duration \<Rightarrow> Instant option" where
  "instant_sub period self d =
     do {
       ticks \<leftarrow> duration_ticks period d;
       if ticks \<le> self then Some (self - ticks) else None
     }"

section \<open>Clock sources\<close>

record 'f clock =
  clock_fn :: 'f
  clock_period :: Period

text \<open>The clocks before a source is registered: the function of \<open>dummy.rs\<close> and \<open>Period::MAX\<close>.\<close>

definition clock_init :: "'f \<Rightarrow> 'f clock" where
  "clock_init dummy = \<lparr> clock_fn = dummy, clock_period = - 1 \<rparr>"

text \<open>\<open>register_clock_source\<close>, which \<open>register_early_sleeper\<close> repeats for the clock of the early sleeper.\<close>

definition register_clock_source :: "'f \<Rightarrow> Period \<Rightarrow> 'f clock \<Rightarrow> bool \<times> 'f clock" where
  "register_clock_source f period c =
     (if period < clock_period c then (True, \<lparr> clock_fn = f, clock_period = period \<rparr>) else (False, c))"

section \<open>Properties\<close>

lemma duration_parts:
  assumes "d < 2 ^ 64 * NANOS_PER_SEC"
  shows "unat (as_secs d) * NANOS_PER_SEC + unat (subsec_nanos d) = d" "unat (subsec_nanos d) < NANOS_PER_SEC"
proof -
  have "d div NANOS_PER_SEC < 2 ^ 64" using assms by (simp add: div_less_iff_less_mult NANOS_PER_SEC_def)
  moreover have "d mod NANOS_PER_SEC < 2 ^ 32" by (rule less_trans [of _ NANOS_PER_SEC]) (simp_all add: NANOS_PER_SEC_def)
  ultimately have "unat (as_secs d) = d div NANOS_PER_SEC" "unat (subsec_nanos d) = d mod NANOS_PER_SEC"
    by (simp_all add: as_secs_def subsec_nanos_def unat_of_nat take_bit_nat_eq_self_iff)
  then show "unat (as_secs d) * NANOS_PER_SEC + unat (subsec_nanos d) = d" "unat (subsec_nanos d) < NANOS_PER_SEC"
    by (simp_all add: NANOS_PER_SEC_def)
qed

lemma duration_new_parts:
  assumes "d < 2 ^ 64 * NANOS_PER_SEC"
  shows "duration_new (as_secs d) (subsec_nanos d) = Some d"
proof -
  have "unat (subsec_nanos d) div NANOS_PER_SEC = 0" using duration_parts(2) [OF assms] by simp
  then show ?thesis using duration_parts [OF assms] unat_u64 [of "as_secs d"]
    by (simp add: duration_new_def Let_def)
qed

text \<open>
  Adding a duration to an instant and measuring the time between the two gives the duration back, rounded
  down by less than a nanosecond and a period of the clock, as long as the duration fits in the counter.
\<close>

theorem instant_add_since:
  assumes p: "0 < unat period" and ticks: "unat start + d * FEMTOS_TO_NANOS div unat period < 2 ^ 64"
    and d: "d < 2 ^ 64"
  shows "\<exists>i. instant_add period start d = Some i \<and> start \<le> i \<and> duration_since period i start \<le> d \<and>
    d * FEMTOS_TO_NANOS < (duration_since period i start + 1) * FEMTOS_TO_NANOS + unat period"
proof -
  define n where "n = d * FEMTOS_TO_NANOS div unat period"
  have n: "unat (of_nat n :: u64) = n" "unat start + n < 2 ^ 64"
    using ticks by (simp_all add: n_def unat_of_nat take_bit_nat_eq_self_iff)
  have i: "instant_add period start d = Some (start + of_nat n)"
    using p n by (auto simp: instant_add_def duration_ticks_def n_def [symmetric])
  have u: "unat (start + of_nat n) = unat start + n" using n by (simp add: unat_word_ariths)
  then have le: "start \<le> start + of_nat n" by (simp add: word_le_nat_alt)
  have np: "n * unat period \<le> d * FEMTOS_TO_NANOS" "d * FEMTOS_TO_NANOS < n * unat period + unat period"
    using p mod_less_divisor [of "unat period" "d * FEMTOS_TO_NANOS"] div_mult_mod_eq [of "d * FEMTOS_TO_NANOS" "unat period"]
    by (simp_all add: n_def, linarith)
  have q: "n * unat period div FEMTOS_TO_NANOS \<le> d"
    using div_le_mono [OF np(1), of FEMTOS_TO_NANOS] by (simp add: FEMTOS_TO_NANOS_def)
  have s: "duration_since period (start + of_nat n) start = n * unat period div FEMTOS_TO_NANOS"
    using le q d n(1) by (simp add: duration_since_def checked_duration_since_def Let_def unat_of_nat take_bit_nat_eq_self_iff)
  have "n * unat period < (n * unat period div FEMTOS_TO_NANOS + 1) * FEMTOS_TO_NANOS"
    by (simp add: FEMTOS_TO_NANOS_def)
  with i le s q np(2) show ?thesis by (intro exI [of _ "start + of_nat n"]) simp
qed

text \<open>On a clock of 1 GHz a millisecond from now is a million ticks away.\<close>

theorem instant_add_since_witness:
  "\<exists>i. instant_add 1000000 5 1000000 = Some i \<and> 5 \<le> i \<and> duration_since 1000000 i 5 \<le> 1000000 \<and>
     1000000 * FEMTOS_TO_NANOS < (duration_since 1000000 i 5 + 1) * FEMTOS_TO_NANOS + 1000000"
  using instant_add_since [of 1000000 5 1000000] by (simp add: FEMTOS_TO_NANOS_def)

text \<open>
  The number of ticks is cut to 64 bits: on such a clock a duration of \<open>2 ^ 64\<close> nanoseconds, some 584 years, adds
  nothing at all.
\<close>

lemma instant_add_truncates: "instant_add 1000000 start (2 ^ 64) = Some start"
proof -
  have q: "2 ^ 64 * FEMTOS_TO_NANOS div unat (1000000 :: u64) = 2 ^ 64" by (simp add: FEMTOS_TO_NANOS_def)
  have "unat (of_nat (2 ^ 64) :: u64) = 0" by (simp only: unat_of_nat take_bit_eq_mod) simp
  then have "(of_nat (2 ^ 64) :: u64) = 0" by (simp only: unat_eq_0)
  then have "duration_ticks 1000000 (2 ^ 64) = Some 0" unfolding duration_ticks_def q by simp
  then show ?thesis using unat_u64 [of start] by (simp add: instant_add_def)
qed

text \<open>The registered clock is the finest one offered, the first of those with its period.\<close>

lemma register_clock_sources:
  fixes fs :: "('f \<times> Period) list" and c :: "'f clock"
  defines "c' \<equiv> fold (\<lambda>(f, p) c. snd (register_clock_source f p c)) fs c"
  shows "clock_period c' = fold min (map snd fs) (clock_period c) \<and>
    (c' = c \<or> (clock_fn c', clock_period c') \<in> set fs)"
  unfolding c'_def
proof (induction fs arbitrary: c)
  case (Cons a fs)
  obtain f p where a: "a = (f, p)" by (cases a)
  show ?case
    using Cons [of "snd (register_clock_source f p c)"]
    by (auto simp: a register_clock_source_def min_def not_less split: if_splits)
qed simp

end
