(* ===== verification/Spec2Isabelle.thy ===== *)
theory Spec2Isabelle
  imports Mks Plugin Task_Ops Mapped_Pages File_Open Rtc Elf_Loader Clock_Time
begin

text \<open>
  Verification of parts of the MaiOS kernel.
\<close>

end
